(* ===== verification/Go_Prelude.thy ===== *)
theory Go_Prelude
  imports Main "HOL-Library.Word" "HOL-Library.Sublist"
begin

text \<open>
  Shared ground of the development: the Go values the program computes with (bytes, strings,
  64-bit integers, slices), the outcome of a call (a value, an error or a run-time panic), and the
  functions of the packages \<open>strings\<close>, \<open>encoding/binary\<close>, \<open>io\<close> and \<open>net\<close> that the sources call.

  Conventions.  A Go \<open>string\<close> is a \<^typ>\<open>string\<close> (a list of bytes, as in Go); a \<open>[]byte\<close> is a
  \<^typ>\<open>8 word list\<close>; a Go \<open>int\<close> or \<open>int64\<close> is an \<^typ>\<open>int\<close> whose wrap-around is written
  out by \<open>wrap64\<close> wherever configuration values or clocks enter arithmetic; a pointer that may be nil is
  an \<open>option\<close>.
\<close>

unbundle bit_operations_syntax

named_theorems go_simps \<open>equations of the Go run-time and library functions\<close>
named_theorems wire_simps \<open>equations of byte encodings\<close>
named_theorems len_simps \<open>lengths of encoded byte strings\<close>

section \<open>Values\<close>

type_synonym byte = "8 word"
type_synonym bytes = "8 word list"

text \<open>Conversions \<open>[]byte(s)\<close> and \<open>string(b)\<close>: both copy the bytes.\<close>

definition bytes_of :: "string \<Rightarrow> bytes" where
  "bytes_of s = map (\<lambda>c. word_of_nat (of_char c)) s"

definition string_of :: "bytes \<Rightarrow> string" where
  "string_of bs = map (\<lambda>b. char_of (unat b)) bs"

lemma of_char_less_256 [simp]: "(of_char c :: nat) < 256"
  by (rule nat_of_char_less_256)

lemma string_of_bytes_of [simp]: "string_of (bytes_of s) = s"
  by (induction s) (auto simp: string_of_def bytes_of_def unat_of_nat)

lemma string_of_append: "string_of (a @ b) = string_of a @ string_of b"
  by (simp add: string_of_def)

lemma string_of_take: "string_of (take k b) = take k (string_of b)"
  by (simp add: string_of_def take_map)

lemma length_bytes_of [simp]: "length (bytes_of s) = length s"
  by (simp add: bytes_of_def)

text \<open>Two's complement wrap-around of Go's 64-bit \<open>int\<close>, \<open>int64\<close> and \<open>time.Duration\<close>.\<close>

definition wrap64 :: "int \<Rightarrow> int" where
  "wrap64 i = (i + 2 ^ 63) mod 2 ^ 64 - 2 ^ 63"

definition int64_range :: "int \<Rightarrow> bool" where
  "int64_range i \<longleftrightarrow> - (2 ^ 63) \<le> i \<and> i < 2 ^ 63"

lemma wrap64_id: "int64_range i \<Longrightarrow> wrap64 i = i"
  by (simp add: wrap64_def int64_range_def)

lemma wrap64_range: "int64_range (wrap64 i)"
proof -
  have "0 \<le> (i + 2 ^ 63) mod 2 ^ 64" and "(i + 2 ^ 63) mod 2 ^ 64 < (2::int) ^ 64"
    by simp_all
  then show ?thesis by (simp add: wrap64_def int64_range_def)
qed

lemma wrap64_is_sint: "wrap64 i = sint (word_of_int i :: 64 word)"
proof -
  have "sint (word_of_int i :: 64 word) = signed_take_bit 63 i"
    by (simp add: sint_sbintrunc')
  also have "\<dots> = (i + 2 ^ 63) mod 2 ^ 64 - 2 ^ 63"
    by (simp add: signed_take_bit_eq_take_bit_shift take_bit_eq_mod)
  finally show ?thesis by (simp add: wrap64_def)
qed

text \<open>Durations are nanoseconds.\<close>

definition second :: int where "second = 1000000000"
definition millisecond :: int where "millisecond = 1000000"
definition minute :: int where "minute = 60 * second"

section \<open>Outcomes\<close>

text \<open>
  A call returns a value, returns a non-nil \<open>error\<close>, or panics.  The errors of the program are the
  ones its \<open>return\<close> statements name; errors of the network below carry the class the caller sees.
\<close>

datatype panic =
    SliceBounds | IndexOutOfRange | NilDeref | MakeLen | DuplicatePattern

datatype goerror =
    EOF | UnexpectedEOF | NetErr string | Msg string | Wrapped string goerror

datatype 'a outcome = Ok 'a | Err goerror | Panic panic

fun and_then :: "'a outcome \<Rightarrow> ('a \<Rightarrow> 'b outcome) \<Rightarrow> 'b outcome" where
  "and_then (Ok a) f = f a"
| "and_then (Err e) f = Err e"
| "and_then (Panic p) f = Panic p"

lemma and_then_Ok_iff [go_simps]: "and_then m f = Ok b \<longleftrightarrow> (\<exists>a. m = Ok a \<and> f a = Ok b)"
  by (cases m) auto

lemma and_then_split:
  "P (and_then m f) \<longleftrightarrow>
     (\<forall>a. m = Ok a \<longrightarrow> P (f a)) \<and> (\<forall>e. m = Err e \<longrightarrow> P (Err e)) \<and> (\<forall>p. m = Panic p \<longrightarrow> P (Panic p))"
  by (cases m) auto

definition map_err :: "(goerror \<Rightarrow> goerror) \<Rightarrow> 'a outcome \<Rightarrow> 'a outcome" where
  "map_err g m = (case m of Ok a \<Rightarrow> Ok a | Err e \<Rightarrow> Err (g e) | Panic p \<Rightarrow> Panic p)"

lemma map_err_simps [simp]:
  "map_err g (Ok a) = Ok a" "map_err g (Err e) = Err (g e)" "map_err g (Panic p) = Panic p"
  by (simp_all add: map_err_def)

section \<open>Slices\<close>

text \<open>
  \<open>b[lo:hi]\<close> on a slice of capacity equal to its length panics unless \<open>0 \<le> lo \<le> hi \<le> len(b)\<close>.
\<close>

definition slice :: "'a list \<Rightarrow> int \<Rightarrow> int \<Rightarrow> 'a list outcome" where
  "slice b lo hi =
     (if 0 \<le> lo \<and> lo \<le> hi \<and> hi \<le> int (length b)
      then Ok (take (nat (hi - lo)) (drop (nat lo) b)) else Panic SliceBounds)"

text \<open>\<open>copy(dst, src)\<close>: overwrites a prefix of \<open>dst\<close>; the number of bytes is the smaller length.\<close>

definition copy_into :: "'a list \<Rightarrow> 'a list \<Rightarrow> 'a list" where
  "copy_into dst src = take (length dst) src @ drop (length src) dst"

definition copy_count :: "'a list \<Rightarrow> 'a list \<Rightarrow> nat" where
  "copy_count dst src = min (length dst) (length src)"

lemma length_copy_into [simp]: "length (copy_into dst src) = length dst"
  by (simp add: copy_into_def)

lemma copy_into_fits: "length src \<le> length dst \<Longrightarrow> copy_into dst src = src @ drop (length src) dst"
  by (simp add: copy_into_def)

text \<open>\<open>copy(dst[off:], src)\<close>.\<close>

definition copy_at :: "'a list \<Rightarrow> nat \<Rightarrow> 'a list \<Rightarrow> 'a list" where
  "copy_at dst off src = take off dst @ copy_into (drop off dst) src"

lemma length_copy_at [simp]: "length (copy_at dst off src) = length dst"
  by (simp add: copy_at_def)

lemma take_copy_at: "k \<le> off \<Longrightarrow> take k (copy_at dst off src) = take k dst"
  by (cases "off \<le> length dst") (simp_all add: copy_at_def copy_into_def min_def)

lemma drop_copy_at: "off \<le> length dst \<Longrightarrow> drop off (copy_at dst off src) = copy_into (drop off dst) src"
  by (simp add: copy_at_def)

section \<open>Big-endian integers (\<open>encoding/binary\<close>)\<close>

definition put_uint16 :: "16 word \<Rightarrow> bytes" where
  "put_uint16 v = [ucast (drop_bit 8 v), ucast v]"

definition put_uint32 :: "32 word \<Rightarrow> bytes" where
  "put_uint32 v = [ucast (drop_bit 24 v), ucast (drop_bit 16 v), ucast (drop_bit 8 v), ucast v]"

text \<open>\<open>BigEndian.Uint16(b)\<close> and \<open>Uint32(b)\<close> index \<open>b[1]\<close> and \<open>b[3]\<close> first and panic when \<open>b\<close> is shorter.\<close>

fun uint16_be :: "bytes \<Rightarrow> 16 word outcome" where
  "uint16_be (a # b # _) = Ok (ucast b OR push_bit 8 (ucast a))"
| "uint16_be _ = Panic IndexOutOfRange"

fun uint32_be :: "bytes \<Rightarrow> 32 word outcome" where
  "uint32_be (a # b # c # d # _) =
     Ok (ucast d OR push_bit 8 (ucast c) OR push_bit 16 (ucast b) OR push_bit 24 (ucast a))"
| "uint32_be _ = Panic IndexOutOfRange"

lemma length_put_uint [len_simps, simp]:
  "length (put_uint16 v) = 2" "length (put_uint32 w) = 4"
  by (simp_all add: put_uint16_def put_uint32_def)

lemma uint16_be_put [wire_simps]: "uint16_be (put_uint16 v @ rest) = Ok v"
proof -
  have "(ucast (ucast v :: 8 word) OR push_bit 8 (ucast (ucast (drop_bit 8 v) :: 8 word))) = v"
    by (rule bit_word_eqI) (auto simp: bit_simps)
  then show ?thesis by (simp add: put_uint16_def)
qed

lemma uint32_be_put [wire_simps]: "uint32_be (put_uint32 v @ rest) = Ok v"
proof -
  have "(ucast (ucast v :: 8 word) OR push_bit 8 (ucast (ucast (drop_bit 8 v) :: 8 word))
     OR push_bit 16 (ucast (ucast (drop_bit 16 v) :: 8 word))
     OR push_bit 24 (ucast (ucast (drop_bit 24 v) :: 8 word))) = v" (is "?l = v")
  proof (rule bit_word_eqI)
    fix n assume "n < LENGTH(32)"
    then consider "n < 8" | "8 \<le> n" "n < 16" | "16 \<le> n" "n < 24" | "24 \<le> n" "n < 32"
      by fastforce
    then show "bit ?l n = bit v n"
      by cases (auto simp: bit_simps)
  qed
  then show ?thesis by (simp add: put_uint32_def)
qed

lemma uint16_be_put' [wire_simps]: "uint16_be (put_uint16 v) = Ok v"
  using uint16_be_put [of v "[]"] by simp

lemma uint32_be_put' [wire_simps]: "uint32_be (put_uint32 v) = Ok v"
  using uint32_be_put [of v "[]"] by simp

lemma uint16_be_take: "2 \<le> length bs \<Longrightarrow> uint16_be (take 2 bs) = uint16_be bs"
  by (cases bs rule: uint16_be.cases) (auto simp: numeral_2_eq_2)

text \<open>The conversions \<open>uint16(n)\<close> and \<open>uint32(n)\<close> of a length keep the low bits.\<close>

lemma unat_uint16_of_len: "unat (word_of_nat n :: 16 word) = n mod 65536"
  by (simp add: unat_of_nat)

lemma unat_uint32_of_len: "unat (word_of_nat n :: 32 word) = n mod 4294967296"
  by (simp add: unat_of_nat)

lemmas unat_len = unat_uint16_of_len unat_uint32_of_len

section \<open>Deleting from a map while ranging over it\<close>

text \<open>
  \<open>for k, v := range m { if P(v) { delete(m, k) } }\<close>: \<open>ks\<close> are the keys in the order of the visit.  The
  order does not matter, and a key the loop does not visit stays.
\<close>

definition sweep :: "('v \<Rightarrow> bool) \<Rightarrow> 'k list \<Rightarrow> ('k \<rightharpoonup> 'v) \<Rightarrow> ('k \<rightharpoonup> 'v)" where
  "sweep P ks m =
     fold (\<lambda>k m. case m k of None \<Rightarrow> m | Some v \<Rightarrow> if P v then m(k := None) else m) ks m"

lemma sweep_lookup: "sweep P ks m k = (case m k of None \<Rightarrow> None | Some v \<Rightarrow> if k \<in> set ks \<and> P v then None else Some v)"
proof (induction ks arbitrary: m)
  case Nil
  then show ?case by (simp add: sweep_def split: option.split)
next
  case (Cons a ks)
  have "sweep P (a # ks) m =
      sweep P ks (case m a of None \<Rightarrow> m | Some v \<Rightarrow> if P v then m(a := None) else m)"
    by (simp add: sweep_def)
  then show ?case by (auto simp: Cons.IH split: option.split)
qed

lemma sweep_all: "dom m \<subseteq> set ks \<Longrightarrow> sweep P ks m k = (case m k of None \<Rightarrow> None | Some v \<Rightarrow> if P v then None else Some v)"
  by (auto simp: sweep_lookup split: option.split)

end
