(* ===== verification/Go_Net.thy ===== *)
theory Go_Net
  imports Go_Prelude
begin

text \<open>
  The functions of the packages \<open>strings\<close> and \<open>net\<close> the program calls, and the byte stream a
  \<open>net.Conn\<close> is.  Case mapping is the one of ASCII letters (bytes above 127 are left alone);
  white space is Unicode's, as UTF-8 byte sequences.
\<close>

section \<open>Package \<open>strings\<close>\<close>

definition has_prefix :: "string \<Rightarrow> string \<Rightarrow> bool" where
  "has_prefix s p \<longleftrightarrow> take (length p) s = p"

definition has_suffix :: "string \<Rightarrow> string \<Rightarrow> bool" where
  "has_suffix s p \<longleftrightarrow> length p \<le> length s \<and> drop (length s - length p) s = p"

definition trim_prefix :: "string \<Rightarrow> string \<Rightarrow> string" where
  "trim_prefix s p = (if has_prefix s p then drop (length p) s else s)"

fun str_index :: "string \<Rightarrow> string \<Rightarrow> nat option" where
  "str_index sub [] = (if sub = [] then Some 0 else None)"
| "str_index sub (c # s) =
     (if has_prefix (c # s) sub then Some 0 else map_option Suc (str_index sub s))"

definition str_contains :: "string \<Rightarrow> string \<Rightarrow> bool" where
  "str_contains s sub \<longleftrightarrow> str_index sub s \<noteq> None"

lemma has_prefix_append [simp]: "has_prefix (p @ s) p"
  by (simp add: has_prefix_def)

lemma has_prefix_iff: "has_prefix s p \<longleftrightarrow> (\<exists>t. s = p @ t)"
  by (metis append_eq_conv_conj append_take_drop_id has_prefix_def)

lemma has_suffix_iff: "has_suffix s p \<longleftrightarrow> (\<exists>t. s = t @ p)"
proof
  assume "has_suffix s p"
  then show "\<exists>t. s = t @ p"
    unfolding has_suffix_def by (metis append_take_drop_id)
next
  assume "\<exists>t. s = t @ p"
  then show "has_suffix s p" by (auto simp: has_suffix_def)
qed

lemma trim_prefix_append [simp]: "trim_prefix (p @ s) p = s"
  by (simp add: trim_prefix_def)

lemma str_index_Some:
  "str_index sub s = Some i \<Longrightarrow> i + length sub \<le> length s \<and> take (length sub) (drop i s) = sub"
proof (induction s arbitrary: i)
  case Nil
  then show ?case by (simp split: if_splits)
next
  case (Cons c s)
  show ?case
  proof (cases "has_prefix (c # s) sub")
    case True
    then have "i = 0" using Cons.prems by simp
    moreover have "length sub \<le> length (c # s)"
      using True unfolding has_prefix_def by (metis length_take min.cobounded1)
    ultimately show ?thesis using True by (simp add: has_prefix_def)
  next
    case False
    then show ?thesis using Cons by auto
  qed
qed

lemma str_index_None: "str_index sub s = None \<longleftrightarrow> (\<forall>a b. s \<noteq> a @ sub @ b)"
proof (induction s)
  case Nil
  then show ?case by simp
next
  case (Cons c s)
  show ?case
  proof (cases "has_prefix (c # s) sub")
    case True
    then obtain t where "c # s = [] @ sub @ t" by (auto simp: has_prefix_iff)
    then show ?thesis using True by (metis option.distinct(1) str_index.simps(2))
  next
    case False
    have "(\<exists>a b. c # s = a @ sub @ b) \<longleftrightarrow> (\<exists>a b. s = a @ sub @ b)"
    proof
      assume "\<exists>a b. c # s = a @ sub @ b"
      then obtain a b where e: "c # s = a @ sub @ b" by blast
      with False have "a \<noteq> []" by (auto simp: has_prefix_iff)
      with e show "\<exists>a b. s = a @ sub @ b" by (cases a) auto
    qed (metis append_Cons)
    then show ?thesis using False Cons by auto
  qed
qed

lemma str_contains_iff: "str_contains s sub \<longleftrightarrow> (\<exists>a b. s = a @ sub @ b)"
  by (simp add: str_contains_def str_index_None)

text \<open>A character as separator: the index is the length of the longest prefix without it.\<close>

lemma str_index_char: "str_index [c] s = (if c \<in> set s then Some (length (takeWhile (\<lambda>x. x \<noteq> c) s)) else None)"
  by (induction s) (auto simp: has_prefix_def)

lemma str_contains_char [simp]: "str_contains s [c] \<longleftrightarrow> c \<in> set s"
  by (simp add: str_contains_def str_index_char)

text \<open>\<open>strings.Split\<close> with a non-empty separator.\<close>

function str_split :: "string \<Rightarrow> string \<Rightarrow> string list" where
  "str_split sep s =
     (if sep = [] then map (\<lambda>c. [c]) s
      else case str_index sep s of
        None \<Rightarrow> [s]
      | Some i \<Rightarrow> take i s # str_split sep (drop (i + length sep) s))"
  by pat_completeness auto
termination
proof (relation "measure (\<lambda>(sep, s). length s)", goal_cases)
  case (2 sep s i)
  then have "i + length sep \<le> length s" and "0 < length sep"
    using str_index_Some by auto
  then have "length s - (i + length sep) < length s" by linarith
  then show ?case by simp
qed simp

declare str_split.simps [simp del]

lemma str_split_absent: "sep \<noteq> [] \<Longrightarrow> \<not> str_contains s sep \<Longrightarrow> str_split sep s = [s]"
  by (subst str_split.simps) (simp add: str_contains_def)

lemma str_split_nonempty: "sep \<noteq> [] \<Longrightarrow> str_split sep s \<noteq> []"
  by (subst str_split.simps) (auto split: option.splits)

lemma hd_str_split_char: "hd (str_split [c] s) = takeWhile (\<lambda>x. x \<noteq> c) s"
proof -
  have "take (length (takeWhile (\<lambda>x. x \<noteq> c) s)) s = takeWhile (\<lambda>x. x \<noteq> c) s"
    by (metis takeWhile_eq_take)
  then show ?thesis
    by (subst str_split.simps)
      (auto simp: str_index_char intro!: takeWhile_eq_all_conv [THEN iffD2, symmetric])
qed

text \<open>\<open>strings.SplitN(s, sep, 2)\<close>: at most one cut.\<close>

definition str_split2 :: "string \<Rightarrow> string \<Rightarrow> string list" where
  "str_split2 sep s =
     (case str_index sep s of None \<Rightarrow> [s] | Some i \<Rightarrow> [take i s, drop (i + length sep) s])"

text \<open>\<open>strings.ToLower\<close>, \<open>strings.TrimSpace\<close>.\<close>

definition lower_char :: "char \<Rightarrow> char" where
  "lower_char c = (let n = (of_char c :: nat) in if 65 \<le> n \<and> n \<le> 90 then char_of (n + 32) else c)"

definition to_lower :: "string \<Rightarrow> string" where
  "to_lower s = map lower_char s"

definition space_runes :: "string list" where
  "space_runes =
     map (map char_of)
       ([[9], [10], [11], [12], [13], [32], [0xC2, 0x85], [0xC2, 0xA0], [0xE1, 0x9A, 0x80],
         [0xE2, 0x80, 0x80], [0xE2, 0x80, 0x81], [0xE2, 0x80, 0x82], [0xE2, 0x80, 0x83],
         [0xE2, 0x80, 0x84], [0xE2, 0x80, 0x85], [0xE2, 0x80, 0x86], [0xE2, 0x80, 0x87],
         [0xE2, 0x80, 0x88], [0xE2, 0x80, 0x89], [0xE2, 0x80, 0x8A], [0xE2, 0x80, 0xA8],
         [0xE2, 0x80, 0xA9], [0xE2, 0x80, 0xAF], [0xE2, 0x81, 0x9F], [0xE3, 0x80, 0x80]] :: nat list list)"

definition lead_space :: "string \<Rightarrow> nat" where
  "lead_space s = (case find (has_prefix s) space_runes of None \<Rightarrow> 0 | Some w \<Rightarrow> length w)"

definition trail_space :: "string \<Rightarrow> nat" where
  "trail_space s = (case find (has_suffix s) space_runes of None \<Rightarrow> 0 | Some w \<Rightarrow> length w)"

lemma space_runes_nonempty: "w \<in> set space_runes \<Longrightarrow> w \<noteq> []"
  by (auto simp: space_runes_def)

lemma lead_space_pos: "0 < lead_space s \<Longrightarrow> s \<noteq> []"
  by (auto simp: lead_space_def has_prefix_def split: option.splits dest!: find_Some_iff [THEN iffD1])

lemma trail_space_pos: "0 < trail_space s \<Longrightarrow> s \<noteq> []"
  by (auto simp: trail_space_def has_suffix_def split: option.splits dest!: find_Some_iff [THEN iffD1])

lemma lead_space_0: "lead_space s = 0 \<longleftrightarrow> (\<forall>w \<in> set space_runes. \<not> has_prefix s w)"
  by (auto simp: lead_space_def find_None_iff space_runes_nonempty split: option.splits
      dest!: find_Some_iff [THEN iffD1] dest: space_runes_nonempty nth_mem)

lemma trail_space_0: "trail_space s = 0 \<longleftrightarrow> (\<forall>w \<in> set space_runes. \<not> has_suffix s w)"
  by (auto simp: trail_space_def find_None_iff space_runes_nonempty split: option.splits
      dest!: find_Some_iff [THEN iffD1] dest: space_runes_nonempty nth_mem)

function trim_left :: "string \<Rightarrow> string" where
  "trim_left s = (if lead_space s = 0 then s else trim_left (drop (lead_space s) s))"
  by pat_completeness auto
termination
  by (relation "measure length") (auto intro!: diff_less dest: lead_space_pos)

function trim_right :: "string \<Rightarrow> string" where
  "trim_right s = (if trail_space s = 0 then s else trim_right (take (length s - trail_space s) s))"
  by pat_completeness auto
termination
  by (relation "measure length") (auto intro!: diff_less dest: trail_space_pos)

declare trim_left.simps [simp del] trim_right.simps [simp del]

definition trim_space :: "string \<Rightarrow> string" where
  "trim_space s = trim_right (trim_left s)"

lemma trim_left_clean: "lead_space (trim_left s) = 0"
proof (induction s rule: trim_left.induct)
  case (1 s)
  then show ?case by (cases "lead_space s = 0") (simp_all add: trim_left.simps [of s])
qed

lemma trim_right_clean: "trail_space (trim_right s) = 0"
proof (induction s rule: trim_right.induct)
  case (1 s)
  then show ?case by (cases "trail_space s = 0") (simp_all add: trim_right.simps [of s])
qed

lemma trim_right_prefix: "\<exists>t. s = trim_right s @ t"
proof (induction s rule: trim_right.induct)
  case (1 s)
  show ?case
  proof (cases "trail_space s = 0")
    case False
    with "1" obtain t where "take (length s - trail_space s) s = trim_right s @ t"
      by (auto simp: trim_right.simps [of s])
    then show ?thesis
      by (metis append.assoc append_take_drop_id)
  qed (simp add: trim_right.simps [of s])
qed

lemma trim_space_clean: "lead_space (trim_space s) = 0" "trail_space (trim_space s) = 0"
proof -
  obtain t where t: "trim_left s = trim_right (trim_left s) @ t"
    using trim_right_prefix by blast
  have "\<not> has_prefix (trim_right (trim_left s)) w" if "w \<in> set space_runes" for w
  proof
    assume "has_prefix (trim_right (trim_left s)) w"
    then have "has_prefix (trim_left s) w"
      using t by (metis append.assoc has_prefix_iff)
    then show False using trim_left_clean [of s] that by (auto simp: lead_space_0)
  qed
  then show "lead_space (trim_space s) = 0" by (simp add: lead_space_0 trim_space_def)
  show "trail_space (trim_space s) = 0" by (simp add: trim_right_clean trim_space_def)
qed

lemma trim_space_id: "lead_space s = 0 \<Longrightarrow> trail_space s = 0 \<Longrightarrow> trim_space s = s"
  by (simp add: trim_space_def trim_left.simps [of s] trim_right.simps [of s])

lemma trim_space_idem [simp]: "trim_space (trim_space s) = trim_space s"
  by (rule trim_space_id) (rule trim_space_clean)+

text \<open>A string that starts and ends with a printable ASCII character is trimmed to itself.\<close>

definition visible :: "char \<Rightarrow> bool" where
  "visible c \<longleftrightarrow> 33 \<le> (of_char c :: nat) \<and> (of_char c :: nat) \<le> 126"

lemma space_runes_invisible: "w \<in> set space_runes \<Longrightarrow> \<not> visible (hd w) \<and> \<not> visible (last w)"
  by (auto simp: space_runes_def visible_def)

lemma trim_space_visible:
  assumes "s = [] \<or> visible (hd s) \<and> visible (last s)"
  shows "trim_space s = s"
proof (rule trim_space_id)
  have "\<not> has_prefix s w" if "w \<in> set space_runes" for w
    using that assms space_runes_invisible space_runes_nonempty
    by (metis append_is_Nil_conv has_prefix_iff hd_append2)
  then show "lead_space s = 0" by (simp add: lead_space_0)
  have "\<not> has_suffix s w" if "w \<in> set space_runes" for w
    using that assms space_runes_invisible space_runes_nonempty
    by (metis append_is_Nil_conv has_suffix_iff last_appendR)
  then show "trail_space s = 0" by (simp add: trail_space_0)
qed

section \<open>Host and port (\<open>net.SplitHostPort\<close>, \<open>net.JoinHostPort\<close>)\<close>

fun last_index :: "char \<Rightarrow> string \<Rightarrow> nat option" where
  "last_index c [] = None"
| "last_index c (x # xs) =
     (case last_index c xs of Some i \<Rightarrow> Some (Suc i) | None \<Rightarrow> if x = c then Some 0 else None)"

definition addr_err :: "string \<Rightarrow> 'a outcome" where
  "addr_err why = Err (Msg why)"

definition SplitHostPort :: "string \<Rightarrow> (string \<times> string) outcome" where
  "SplitHostPort hp =
     (case last_index (CHR '':'') hp of
        None \<Rightarrow> addr_err ''missing port in address''
      | Some i \<Rightarrow>
          let plain = (let host = take i hp in
                 if CHR '':'' \<in> set host then addr_err ''too many colons in address''
                 else if CHR ''['' \<in> set hp then addr_err ''unexpected '[' in address''
                 else if CHR '']'' \<in> set hp then addr_err ''unexpected ']' in address''
                 else Ok (host, drop (i + 1) hp))
          in if take 1 hp = ''['' then
               (case str_index '']'' hp of
                  None \<Rightarrow> addr_err ''missing ']' in address''
                | Some end \<Rightarrow>
                    if end + 1 = length hp then addr_err ''missing port in address''
                    else if end + 1 = i then
                      (if CHR ''['' \<in> set (drop 1 hp) then addr_err ''unexpected '[' in address''
                       else if CHR '']'' \<in> set (drop (end + 1) hp)
                         then addr_err ''unexpected ']' in address''
                       else Ok (drop 1 (take end hp), drop (i + 1) hp))
                    else if hp ! (end + 1) = CHR '':'' then addr_err ''too many colons in address''
                    else addr_err ''missing port in address'')
             else plain)"

definition JoinHostPort :: "string \<Rightarrow> string \<Rightarrow> string" where
  "JoinHostPort host port =
     (if CHR '':'' \<in> set host then ''['' @ host @ '']:'' @ port else host @ '':'' @ port)"

lemma last_index_append_absent: "c \<notin> set ys \<Longrightarrow> last_index c (xs @ c # ys) = Some (length xs)"
proof (induction xs)
  case Nil
  then have "last_index c ys = None" by (induction ys) auto
  then show ?case by simp
next
  case (Cons x xs)
  then show ?case by simp
qed

lemma last_index_None: "last_index c s = None \<longleftrightarrow> c \<notin> set s"
  by (induction s) (auto split: option.splits)

text \<open>What \<open>JoinHostPort\<close> builds, \<open>SplitHostPort\<close> takes apart, for hosts without brackets.\<close>

definition plain_host :: "string \<Rightarrow> bool" where
  "plain_host h \<longleftrightarrow> CHR ''['' \<notin> set h \<and> CHR '']'' \<notin> set h"

definition plain_port :: "string \<Rightarrow> bool" where
  "plain_port p \<longleftrightarrow> CHR '':'' \<notin> set p \<and> plain_host p"

lemma SplitHostPort_plain:
  assumes "CHR '':'' \<notin> set h" "plain_host h" "plain_port p"
  shows "SplitHostPort (h @ CHR '':'' # p) = Ok (h, p)"
proof -
  have li: "last_index (CHR '':'') (h @ CHR '':'' # p) = Some (length h)"
    using assms by (simp add: last_index_append_absent plain_port_def)
  have "take 1 (h @ CHR '':'' # p) \<noteq> ''[''"
    using assms(2) by (cases h) (auto simp: plain_host_def)
  then show ?thesis
    using assms by (simp add: SplitHostPort_def li plain_host_def plain_port_def Let_def)
qed

lemma SplitHostPort_bracketed:
  assumes "plain_host h" "plain_port p"
  shows "SplitHostPort (CHR ''['' # h @ CHR '']'' # CHR '':'' # p) = Ok (h, p)" (is "SplitHostPort ?hp = _")
proof -
  have li: "last_index (CHR '':'') ?hp = Some (length h + 2)"
    using last_index_append_absent [of "CHR '':''" p "CHR ''['' # h @ '']''"] assms
    by (simp add: plain_port_def)
  have "takeWhile (\<lambda>x. x \<noteq> CHR '']'') ?hp = CHR ''['' # h"
    using assms by (auto simp: takeWhile_append plain_host_def)
  then have si: "str_index '']'' ?hp = Some (length h + 1)"
    by (simp add: str_index_char del: str_index.simps)
  show ?thesis
    using assms
    by (simp add: SplitHostPort_def li si plain_host_def plain_port_def Let_def
        del: str_index.simps last_index.simps)
qed

lemma SplitHostPort_JoinHostPort:
  "plain_host h \<Longrightarrow> plain_port p \<Longrightarrow> SplitHostPort (JoinHostPort h p) = Ok (h, p)"
  unfolding JoinHostPort_def
  using SplitHostPort_plain SplitHostPort_bracketed by simp

section \<open>Byte streams (\<open>net.Conn\<close>)\<close>

text \<open>The socket options the program sets on TCP connections.\<close>

datatype sockopt = NoDelay bool | KeepAlive bool | KeepAlivePeriod int | ReadBuffer int | WriteBuffer int

text \<open>
  A connection holds the bytes its peer has sent and nobody has read yet (after them comes the end of
  the stream), the bytes this side has handed to the network, and how many more bytes the network
  accepts before a write fails (None: no failure).
\<close>

record conn =
  conn_in :: bytes
  conn_out :: bytes
  conn_room :: "nat option"
  conn_closed :: bool

definition conn_write :: "conn \<Rightarrow> bytes \<Rightarrow> conn \<times> nat \<times> goerror option" where
  "conn_write c b =
     (if conn_closed c then (c, 0, Some (NetErr ''use of closed network connection''))
      else case conn_room c of
        None \<Rightarrow> (c\<lparr>conn_out := conn_out c @ b\<rparr>, length b, None)
      | Some k \<Rightarrow>
          if length b \<le> k
          then (c\<lparr>conn_out := conn_out c @ b, conn_room := Some (k - length b)\<rparr>, length b, None)
          else (c\<lparr>conn_out := conn_out c @ take k b, conn_room := Some 0\<rparr>, k,
                Some (NetErr ''broken pipe'')))"

text \<open>\<open>io.ReadFull(conn, buf)\<close> with \<open>len(buf) = n\<close>.\<close>

definition read_full :: "conn \<Rightarrow> nat \<Rightarrow> conn \<times> bytes outcome" where
  "read_full c n =
     (if n = 0 then (c, Ok [])
      else if conn_closed c then (c, Err (NetErr ''use of closed network connection''))
      else if n \<le> length (conn_in c)
        then (c\<lparr>conn_in := drop n (conn_in c)\<rparr>, Ok (take n (conn_in c)))
      else (c\<lparr>conn_in := []\<rparr>, Err (if conn_in c = [] then EOF else UnexpectedEOF)))"

definition conn_close :: "conn \<Rightarrow> conn" where
  "conn_close c = c\<lparr>conn_closed := True\<rparr>"

lemma conn_write_in [simp]: "conn_in (fst (conn_write c b)) = conn_in c"
  by (auto simp: conn_write_def split: option.splits)

lemma conn_write_unlimited:
  "\<not> conn_closed c \<Longrightarrow> conn_room c = None \<Longrightarrow>
   conn_write c b = (c\<lparr>conn_out := conn_out c @ b\<rparr>, length b, None)"
  by (simp add: conn_write_def)

lemma conn_write_ok:
  "conn_write c b = (c', n, None) \<Longrightarrow>
   conn_out c' = conn_out c @ b \<and> n = length b \<and> conn_in c' = conn_in c \<and> conn_closed c' = conn_closed c"
  by (auto simp: conn_write_def split: if_splits option.splits)

lemma conn_write_prefix: "\<exists>k \<le> length b. conn_out (fst (conn_write c b)) = conn_out c @ take k b"
  by (auto simp: conn_write_def split: option.splits intro: exI [of _ 0])
    (metis nat_le_linear)

lemma read_full_append [wire_simps]:
  "\<not> conn_closed c \<Longrightarrow> conn_in c = a @ rest \<Longrightarrow> n = length a \<Longrightarrow>
   read_full c n = (c\<lparr>conn_in := rest\<rparr>, Ok a)"
  by (cases c) (auto simp: read_full_def)

lemma read_full_out [simp]:
  "conn_out (fst (read_full c n)) = conn_out c"
  "conn_closed (fst (read_full c n)) = conn_closed c"
  by (simp_all add: read_full_def)

end
