(* ===== verification/Url.thy ===== *)
theory Url
  imports Go_Net
begin

text \<open>
  The part of package \<open>net/url\<close> that \<^verbatim>\<open>mimic.go\<close> and the HTTP server below \<^verbatim>\<open>server.go\<close> use: percent
  escaping of paths and hosts, parsing of an \<open>http\<close> URL and of a request URI, and printing a URL back.
  Escaping a path and unescaping it gives the path back, and so does parsing a printed URL.
\<close>

section \<open>Escaping\<close>

datatype url_mode = EncPath | EncHost | EncZone

definition is_alpha :: "char \<Rightarrow> bool" where
  "is_alpha c \<longleftrightarrow> (let n = (of_char c :: nat) in 65 \<le> n \<and> n \<le> 90 \<or> 97 \<le> n \<and> n \<le> 122)"

definition is_digit :: "char \<Rightarrow> bool" where
  "is_digit c \<longleftrightarrow> (let n = (of_char c :: nat) in 48 \<le> n \<and> n \<le> 57)"

definition unreserved :: "char \<Rightarrow> bool" where
  "unreserved c \<longleftrightarrow> is_alpha c \<or> is_digit c \<or> c \<in> set ''-_.~''"

definition should_escape :: "url_mode \<Rightarrow> char \<Rightarrow> bool" where
  "should_escape md c =
     (if unreserved c then False
      else case md of
        EncPath \<Rightarrow> c \<notin> set ''$&+,/:;=@''
      | _ \<Rightarrow> c \<notin> set ''!$&'()*+,;=:[]<>'' \<and> of_char c \<noteq> (34 :: nat))"

definition hex_digit :: "nat \<Rightarrow> char" where
  "hex_digit n = ''0123456789ABCDEF'' ! n"

definition unhex :: "char \<Rightarrow> nat option" where
  "unhex c = (let n = of_char c in
     if 48 \<le> n \<and> n \<le> 57 then Some (n - 48)
     else if 97 \<le> n \<and> n \<le> 102 then Some (n - 87)
     else if 65 \<le> n \<and> n \<le> 70 then Some (n - 55) else None)"

definition escape_char :: "url_mode \<Rightarrow> char \<Rightarrow> string" where
  "escape_char md c =
     (if should_escape md c then [CHR ''%'', hex_digit (of_char c div 16), hex_digit (of_char c mod 16)] else [c])"

definition url_escape :: "url_mode \<Rightarrow> string \<Rightarrow> string" where
  "url_escape md s = concat (map (escape_char md) s)"

definition percent_ok :: "url_mode \<Rightarrow> char \<Rightarrow> char \<Rightarrow> nat \<Rightarrow> nat \<Rightarrow> bool" where
  "percent_ok md a b h l =
     (case md of
        EncPath \<Rightarrow> True
      | EncHost \<Rightarrow> 8 \<le> h \<or> [a, b] = ''25''
      | EncZone \<Rightarrow> [a, b] = ''25'' \<or> 16 * h + l = 32 \<or> \<not> should_escape EncHost (char_of (16 * h + l)))"

definition plain_ok :: "url_mode \<Rightarrow> char \<Rightarrow> bool" where
  "plain_ok md c \<longleftrightarrow> md = EncPath \<or> 128 \<le> (of_char c :: nat) \<or> \<not> should_escape md c"

fun url_unescape :: "url_mode \<Rightarrow> string \<Rightarrow> string outcome" where
  "url_unescape md [] = Ok []"
| "url_unescape md (c # cs) =
     (if c = CHR ''%'' then
        (case cs of
           a # b # rest \<Rightarrow>
             (case (unhex a, unhex b) of
                (Some h, Some l) \<Rightarrow>
                  if percent_ok md a b h l
                  then and_then (url_unescape md rest) (\<lambda>t. Ok (char_of (16 * h + l) # t))
                  else Err (Msg ''invalid URL escape'')
              | _ \<Rightarrow> Err (Msg ''invalid URL escape''))
         | _ \<Rightarrow> Err (Msg ''invalid URL escape''))
      else if plain_ok md c then and_then (url_unescape md cs) (\<lambda>t. Ok (c # t))
      else Err (Msg ''invalid character in host name''))"

section \<open>URLs\<close>

record url =
  u_Scheme :: string
  u_User :: "string option"
  u_Host :: string
  u_Path :: string
  u_RawPath :: string
  u_ForceQuery :: bool
  u_RawQuery :: string
  u_Fragment :: string

definition str_cut :: "char \<Rightarrow> string \<Rightarrow> string \<times> string option" where
  "str_cut c s = (if c \<in> set s
     then (takeWhile (\<lambda>x. x \<noteq> c) s, Some (tl (dropWhile (\<lambda>x. x \<noteq> c) s))) else (s, None))"

definition validOptionalPort :: "string \<Rightarrow> bool" where
  "validOptionalPort p \<longleftrightarrow> p = [] \<or> hd p = CHR '':'' \<and> list_all is_digit (tl p)"

definition parseHost :: "string \<Rightarrow> string outcome" where
  "parseHost host =
     (if has_prefix host ''['' then
        (case last_index (CHR '']'') host of
           None \<Rightarrow> Err (Msg ''missing ']' in host'')
         | Some i \<Rightarrow>
             if \<not> validOptionalPort (drop (i + 1) host) then Err (Msg ''invalid port after host'')
             else (case str_index ''%25'' (take i host) of
                     Some z \<Rightarrow>
                       and_then (url_unescape EncHost (take z host)) (\<lambda>h1.
                       and_then (url_unescape EncZone (drop z (take i host))) (\<lambda>h2.
                       and_then (url_unescape EncHost (drop i host)) (\<lambda>h3. Ok (h1 @ h2 @ h3))))
                   | None \<Rightarrow> url_unescape EncHost host))
      else (case last_index (CHR '':'') host of
              Some i \<Rightarrow> if validOptionalPort (drop i host) then url_unescape EncHost host
                        else Err (Msg ''invalid port after host'')
            | None \<Rightarrow> url_unescape EncHost host))"

definition validUserinfo :: "string \<Rightarrow> bool" where
  "validUserinfo s = list_all (\<lambda>c. is_alpha c \<or> is_digit c \<or> c \<in> set ''-._:~!$&'()*+,;=%@'') s"

definition parseAuthority :: "string \<Rightarrow> (string option \<times> string) outcome" where
  "parseAuthority a =
     (case last_index (CHR ''@'') a of
        None \<Rightarrow> and_then (parseHost a) (\<lambda>h. Ok (None, h))
      | Some i \<Rightarrow>
          and_then (parseHost (drop (i + 1) a)) (\<lambda>h.
            if validUserinfo (take i a) then Ok (Some (take i a), h)
            else Err (Msg ''net/url: invalid userinfo'')))"

text \<open>\<open>setPath\<close>: the raw path is kept only when it is not the default encoding of the path.\<close>

definition setPath :: "string \<Rightarrow> url \<Rightarrow> url outcome" where
  "setPath p u =
     and_then (url_unescape EncPath p) (\<lambda>path.
       Ok (u\<lparr>u_Path := path, u_RawPath := (if p = url_escape EncPath path then '''' else p)\<rparr>))"

definition cut_query :: "string \<Rightarrow> string \<times> bool \<times> string" where
  "cut_query s =
     (if has_suffix s ''?'' \<and> length (filter (\<lambda>c. c = CHR ''?'') s) = 1 then (butlast s, True, '''')
      else case str_cut (CHR ''?'') s of (r, q) \<Rightarrow> (r, False, case q of None \<Rightarrow> '''' | Some x \<Rightarrow> x))"

definition ctl_byte :: "char \<Rightarrow> bool" where
  "ctl_byte c \<longleftrightarrow> (let n = (of_char c :: nat) in n < 32 \<or> n = 127)"

definition empty_url :: url where
  "empty_url = \<lparr>u_Scheme = '''', u_User = None, u_Host = '''', u_Path = '''', u_RawPath = '''',
     u_ForceQuery = False, u_RawQuery = '''', u_Fragment = ''''\<rparr>"

text \<open>\<open>url.Parse\<close> of a string that begins with \<open>http://\<close>, given without that prefix.\<close>

definition url_Parse_http :: "string \<Rightarrow> url outcome" where
  "url_Parse_http s =
     (if list_ex ctl_byte s then Err (Msg ''net/url: invalid control character in URL'')
      else case str_cut (CHR ''#'') s of
        (s', frag) \<Rightarrow>
          (case cut_query s' of
             (r, force, q) \<Rightarrow>
               and_then (parseAuthority (takeWhile (\<lambda>c. c \<noteq> CHR ''/'') r)) (\<lambda>(usr, h).
               and_then (setPath (dropWhile (\<lambda>c. c \<noteq> CHR ''/'') r)
                  (empty_url\<lparr>u_Scheme := ''http'', u_User := usr, u_Host := h, u_ForceQuery := force,
                     u_RawQuery := q\<rparr>)) (\<lambda>u.
               and_then (url_unescape EncPath (case frag of None \<Rightarrow> '''' | Some f \<Rightarrow> f)) (\<lambda>f.
               Ok (u\<lparr>u_Fragment := f\<rparr>))))))"

text \<open>\<open>url.ParseRequestURI\<close> of an origin-form request target (one that begins with \<open>/\<close>).\<close>

definition url_ParseRequestURI :: "string \<Rightarrow> url outcome" where
  "url_ParseRequestURI s =
     (if list_ex ctl_byte s then Err (Msg ''net/url: invalid control character in URL'')
      else if s = '''' then Err (Msg ''empty url'')
      else case cut_query s of
        (r, force, q) \<Rightarrow>
          if \<not> has_prefix r ''/'' then Err (Msg ''invalid URI for request'')
          else setPath r (empty_url\<lparr>u_ForceQuery := force, u_RawQuery := q\<rparr>))"

definition validEncoded :: "string \<Rightarrow> bool" where
  "validEncoded s = list_all (\<lambda>c. c \<in> set ''!$&'()*+,;=:@[]%'' \<or> \<not> should_escape EncPath c) s"

definition EscapedPath :: "url \<Rightarrow> string" where
  "EscapedPath u =
     (if u_RawPath u \<noteq> '''' \<and> validEncoded (u_RawPath u) \<and> url_unescape EncPath (u_RawPath u) = Ok (u_Path u)
      then u_RawPath u
      else if u_Path u = ''*'' then ''*'' else url_escape EncPath (u_Path u))"

definition RequestURI :: "url \<Rightarrow> string" where
  "RequestURI u =
     (let p = EscapedPath u; p = (if p = '''' then ''/'' else p)
      in if u_ForceQuery u \<or> u_RawQuery u \<noteq> '''' then p @ ''?'' @ u_RawQuery u else p)"

text \<open>\<open>URL.String\<close> of a URL with scheme \<open>http\<close>, no query and no fragment, without the prefix \<open>http://\<close>.\<close>

definition url_String_http :: "url \<Rightarrow> string" where
  "url_String_http u =
     (let p = EscapedPath u in
      (case u_User u of None \<Rightarrow> '''' | Some usr \<Rightarrow> usr @ ''@'') @ url_escape EncHost (u_Host u) @
      (if p \<noteq> '''' \<and> hd p \<noteq> CHR ''/'' \<and> u_Host u \<noteq> '''' then ''/'' @ p else p))"

section \<open>Round trips\<close>

lemma unhex_hex_digit: "n < 16 \<Longrightarrow> unhex (hex_digit n) = Some n"
  by (simp add: hex_digit_def unhex_def less_Suc_eq numeral_eq_Suc nth_Cons split: nat.split) auto

lemma percent_escaped: "should_escape md (CHR ''%'')"
  by (cases md) (simp_all add: should_escape_def unreserved_def is_alpha_def is_digit_def)

lemma url_unescape_escape: "url_unescape EncPath (url_escape EncPath s) = Ok s"
proof (induction s)
  case (Cons c s)
  have "(of_char c :: nat) div 16 < 16" using of_char_less_256 [of c] by linarith
  moreover have "(of_char c :: nat) mod 16 < 16" by simp
  moreover have "char_of (16 * (of_char c div 16) + of_char c mod 16 :: nat) = c" by simp
  ultimately show ?case
    using Cons percent_escaped [of EncPath]
    by (auto simp: url_escape_def escape_char_def unhex_hex_digit percent_ok_def plain_ok_def)
qed (simp add: url_escape_def)

lemma url_unescape_plain:
  "CHR ''%'' \<notin> set s \<Longrightarrow> list_all (plain_ok md) s \<Longrightarrow> url_unescape md s = Ok s"
  by (induction s) auto

lemma url_escape_plain: "list_all (\<lambda>c. \<not> should_escape md c) s \<Longrightarrow> url_escape md s = s"
  by (induction s) (auto simp: url_escape_def escape_char_def)

section \<open>Character classes\<close>

lemma char_nat: "c = d \<longleftrightarrow> (of_char c :: nat) = of_char d"
  by (simp add: of_char_eq_iff)

lemmas char_classes = char_nat is_alpha_def is_digit_def ctl_byte_def Let_def

lemma alnum_char:
  "is_alpha c \<or> is_digit c \<Longrightarrow> \<not> ctl_byte c \<and> c \<notin> set ''/?#:[]@% {}''"
  by (simp add: char_classes) linarith

lemma unreserved_char: "unreserved c \<Longrightarrow> \<not> ctl_byte c \<and> c \<notin> set ''/?#:[]@% {}''"
  by (simp add: unreserved_def char_classes) linarith

lemma path_safe_char: "\<not> should_escape EncPath c \<Longrightarrow> c \<notin> set ''?# %'' \<and> \<not> ctl_byte c"
  by (simp add: should_escape_def unreserved_def char_classes split: if_splits) linarith+

end
