(* ===== verification/Http.thy ===== *)
theory Http
  imports Url "HOL-Library.List_Lexorder" "HOL-Library.Char_ord"
begin

text \<open>
  The part of \<open>net/http\<close> and \<open>net/http/httputil\<close> that the handshake uses, on byte strings: header keys
  and values, \<open>httputil.DumpRequest\<close>, the server's reading of a request, \<open>http.ReadResponse\<close>, and the
  matching rules of \<open>http.ServeMux\<close> for literal patterns.  Bodies of requests are not read by the
  program and not modelled.
\<close>

section \<open>Headers\<close>

definition crlf :: string where
  "crlf = [CHR 0x0D, CHR 0x0A]"

definition token_char :: "char \<Rightarrow> bool" where
  "token_char c \<longleftrightarrow> is_alpha c \<or> is_digit c \<or> c \<in> set ''!#$%&'*+-.^_|~'' \<or> of_char c = (96 :: nat)"

definition valid_field_name :: "string \<Rightarrow> bool" where
  "valid_field_name s \<longleftrightarrow> s \<noteq> '''' \<and> list_all token_char s"

definition upper_char :: "char \<Rightarrow> char" where
  "upper_char c = (let n = (of_char c :: nat) in if 97 \<le> n \<and> n \<le> 122 then char_of (n - 32) else c)"

fun canonical_from :: "bool \<Rightarrow> string \<Rightarrow> string" where
  "canonical_from up [] = []"
| "canonical_from up (c # cs) =
     (if up then upper_char c else lower_char c) # canonical_from (c = CHR ''-'') cs"

definition CanonicalHeaderKey :: "string \<Rightarrow> string" where
  "CanonicalHeaderKey k = (if list_all token_char k then canonical_from True k else k)"

type_synonym header = "(string \<times> string) list"

definition hdr_Get :: "header \<Rightarrow> string \<Rightarrow> string" where
  "hdr_Get h k = (case map_of h (CanonicalHeaderKey k) of None \<Rightarrow> '''' | Some v \<Rightarrow> v)"

definition hdr_Set :: "string \<Rightarrow> string \<Rightarrow> header \<Rightarrow> header" where
  "hdr_Set k v h = filter (\<lambda>(k', _). k' \<noteq> CanonicalHeaderKey k) h @ [(CanonicalHeaderKey k, v)]"

text \<open>Leading and trailing blanks and tabs; line ends inside a value are written as blanks.\<close>

definition blank :: "char \<Rightarrow> bool" where
  "blank c \<longleftrightarrow> c = CHR '' '' \<or> of_char c = (9 :: nat)"

definition trim_blank :: "string \<Rightarrow> string" where
  "trim_blank s = rev (dropWhile blank (rev (dropWhile blank s)))"

definition line_end :: "char \<Rightarrow> bool" where
  "line_end c \<longleftrightarrow> of_char c = (10 :: nat) \<or> of_char c = (13 :: nat)"

definition clean_value :: "string \<Rightarrow> string" where
  "clean_value v = trim_blank (map (\<lambda>c. if line_end c then CHR '' '' else c) v)"

definition header_line :: "string \<times> string \<Rightarrow> string" where
  "header_line kv = fst kv @ '': '' @ clean_value (snd kv) @ crlf"

section \<open>Requests\<close>

record request =
  req_Method :: string
  req_URL :: url
  req_Host :: string
  req_Header :: header

definition removeEmptyPort :: "string \<Rightarrow> string" where
  "removeEmptyPort h =
     (case last_index (CHR '':'') h of
        None \<Rightarrow> h
      | Some i \<Rightarrow>
          if (case last_index (CHR '']'') h of None \<Rightarrow> True | Some j \<Rightarrow> j < i) \<and> i + 1 = length h
          then butlast h else h)"

text \<open>\<open>http.NewRequest("GET", "http://" + s, nil)\<close>.\<close>

definition NewRequest_GET :: "string \<Rightarrow> request outcome" where
  "NewRequest_GET s =
     and_then (url_Parse_http s) (\<lambda>u.
       let u = u\<lparr>u_Host := removeEmptyPort (u_Host u)\<rparr>
       in Ok \<lparr>req_Method = ''GET'', req_URL = u, req_Host = u_Host u, req_Header = []\<rparr>)"

definition dump_excluded :: "string list" where
  "dump_excluded = [''Host'', ''Transfer-Encoding'', ''Trailer'']"

definition dump_headers :: "header \<Rightarrow> string" where
  "dump_headers h =
     concat (map header_line
       (sort_key fst (filter (\<lambda>(k, _). k \<notin> set dump_excluded \<and> valid_field_name k) h)))"

definition DumpRequest :: "request \<Rightarrow> string" where
  "DumpRequest r =
     req_Method r @ '' '' @ RequestURI (req_URL r) @ '' HTTP/1.1'' @ crlf @
     (if req_Host r \<noteq> '''' then ''Host: '' @ req_Host r @ crlf else '''') @
     dump_headers (req_Header r) @ crlf"

section \<open>Reading a message head\<close>

text \<open>One line, up to and without its line feed; a carriage return before the line feed is dropped.\<close>

definition read_line :: "string \<Rightarrow> (string \<times> string) option" where
  "read_line s =
     (if CHR 0x0A \<notin> set s then None
      else let l = takeWhile (\<lambda>c. c \<noteq> CHR 0x0A) s;
               rest = tl (dropWhile (\<lambda>c. c \<noteq> CHR 0x0A) s)
           in Some (if l \<noteq> [] \<and> last l = CHR 0x0D then butlast l else l, rest))"

text \<open>
  The header lines up to the empty line.  A line without a colon or with an invalid key ends the reading
  with an error, and so does a continuation line, which no sender in this program writes.
\<close>

definition parse_field :: "string \<Rightarrow> (string \<times> string) option" where
  "parse_field l =
     (case str_cut (CHR '':'') l of
        (k, Some v) \<Rightarrow> if valid_field_name k then Some (CanonicalHeaderKey k, trim_blank v) else None
      | (k, None) \<Rightarrow> None)"

lemma read_line_shorter: "read_line s = Some (l, rest) \<Longrightarrow> length rest < length s"
proof -
  assume a: "read_line s = Some (l, rest)"
  then have "CHR 0x0A \<in> set s" and r: "rest = tl (dropWhile (\<lambda>c. c \<noteq> CHR 0x0A) s)"
    by (auto simp: read_line_def Let_def split: if_splits)
  then have "dropWhile (\<lambda>c. c \<noteq> CHR 0x0A) s \<noteq> []" by (simp add: dropWhile_eq_Nil_conv)
  then have "length rest < length (dropWhile (\<lambda>c. c \<noteq> CHR 0x0A) s)"
    using r by (cases "dropWhile (\<lambda>c. c \<noteq> CHR 0x0A) s") simp_all
  then show ?thesis using length_dropWhile_le [of "\<lambda>c. c \<noteq> CHR 0x0A" s] by linarith
qed

function parse_headers :: "string \<Rightarrow> (header \<times> string) option" where
  "parse_headers s =
     (case read_line s of
        None \<Rightarrow> None
      | Some (l, rest) \<Rightarrow>
          if l = '''' then Some ([], rest)
          else (case (parse_field l, parse_headers rest) of
                  (Some kv, Some (h, r)) \<Rightarrow> Some (kv # h, r)
                | _ \<Rightarrow> None))"
  by pat_completeness auto
termination by (relation "measure length") (auto simp: read_line_shorter)

declare parse_headers.simps [simp del]

section \<open>The server's reading of a request\<close>

definition field_value_ok :: "string \<Rightarrow> bool" where
  "field_value_ok v = list_all (\<lambda>c. \<not> ctl_byte c \<or> of_char c = (9 :: nat)) v"

definition host_char :: "char \<Rightarrow> bool" where
  "host_char c \<longleftrightarrow> is_alpha c \<or> is_digit c \<or> c \<in> set ''!$%&()*+,-.:;=@[]_~'' \<or> of_char c = (39 :: nat)"

text \<open>
  \<open>conn.readRequest\<close> of the HTTP/1.1 server: the request and the bytes after its head.  The first \<open>Host\<close>
  field is moved out of the header; missing, repeated or malformed \<open>Host\<close> fields, and field values with
  control characters, are answered 400 (None).
\<close>

definition read_request :: "string \<Rightarrow> (request \<times> string) option" where
  "read_request s =
     (case read_line s of
        None \<Rightarrow> None
      | Some (l, rest) \<Rightarrow>
          (case str_cut (CHR '' '') l of
             (mth, Some l') \<Rightarrow>
               (case str_cut (CHR '' '') l' of
                  (uri, Some proto) \<Rightarrow>
                    if proto \<noteq> ''HTTP/1.1'' \<or> \<not> valid_field_name mth then None
                    else (case (url_ParseRequestURI uri, parse_headers rest) of
                            (Ok u, Some (h, rest)) \<Rightarrow>
                              let hosts = map snd (filter (\<lambda>(k, _). k = ''Host'') h) in
                              if length hosts = 1 \<and> list_all host_char (hd hosts) \<and>
                                 list_all (\<lambda>(_, v). field_value_ok v) h
                              then Some (\<lparr>req_Method = mth, req_URL = u, req_Host = hd hosts,
                                          req_Header = filter (\<lambda>(k, _). k \<noteq> ''Host'') h\<rparr>, rest)
                              else None
                          | _ \<Rightarrow> None)
                | (uri, None) \<Rightarrow> None)
           | (mth, None) \<Rightarrow> None))"

section \<open>The client's reading of a response\<close>

fun digits_value :: "nat \<Rightarrow> string \<Rightarrow> nat option" where
  "digits_value acc [] = Some acc"
| "digits_value acc (c # cs) = (if is_digit c then digits_value (10 * acc + (of_char c - 48)) cs else None)"

text \<open>The status code of a status line: \<open>HTTP/1.x\<close>, a blank, three digits, then a blank or the end.\<close>

definition parse_status :: "string \<Rightarrow> (string \<times> nat) option" where
  "parse_status l =
     (case str_cut (CHR '' '') l of
        (proto, Some st) \<Rightarrow>
          (let code = takeWhile (\<lambda>c. c \<noteq> CHR '' '') (dropWhile (\<lambda>c. c = CHR '' '') st) in
           if (proto = ''HTTP/1.1'' \<or> proto = ''HTTP/1.0'') \<and> length code = 3
           then map_option (Pair proto) (digits_value 0 code) else None)
      | (proto, None) \<Rightarrow> None)"

record response_head =
  resp_Proto :: string
  resp_StatusCode :: nat
  resp_Header :: header

text \<open>The head of a response and the bytes after it.\<close>

definition read_response_head :: "string \<Rightarrow> (response_head \<times> string) outcome" where
  "read_response_head s =
     (case read_line s of
        None \<Rightarrow> Err UnexpectedEOF
      | Some (l, rest) \<Rightarrow>
          (case parse_status l of
             None \<Rightarrow> Err (Msg ''malformed HTTP response'')
           | Some (proto, code) \<Rightarrow>
               (case parse_headers rest of
                  None \<Rightarrow> Err (Msg ''malformed MIME header'')
                | Some (h, rest) \<Rightarrow>
                    Ok (\<lparr>resp_Proto = proto, resp_StatusCode = code, resp_Header = h\<rparr>, rest))))"

text \<open>
  Closing the body: nothing is read when the status has no body or the connection is not to be kept
  alive (a body of unknown length is such a case); otherwise the rest of the body is read and dropped.
\<close>

definition connection_token :: "header \<Rightarrow> string \<Rightarrow> bool" where
  "connection_token h t = list_ex (\<lambda>x. to_lower (trim_blank x) = t) (str_split '','' (hdr_Get h ''Connection''))"

definition resp_closing :: "response_head \<Rightarrow> bool" where
  "resp_closing r \<longleftrightarrow> connection_token (resp_Header r) ''close'' \<or>
     resp_Proto r = ''HTTP/1.0'' \<and> \<not> connection_token (resp_Header r) ''keep-alive''"

definition body_allowed :: "nat \<Rightarrow> bool" where
  "body_allowed code \<longleftrightarrow> \<not> (100 \<le> code \<and> code \<le> 199) \<and> code \<noteq> 204 \<and> code \<noteq> 304"

fun hex_value :: "nat \<Rightarrow> string \<Rightarrow> nat option" where
  "hex_value acc [] = Some acc"
| "hex_value acc (c # cs) = (case unhex c of None \<Rightarrow> None | Some d \<Rightarrow> hex_value (16 * acc + d) cs)"

function skip_chunks :: "string \<Rightarrow> string" where
  "skip_chunks s =
     (case read_line s of
        None \<Rightarrow> ''''
      | Some (l, rest) \<Rightarrow>
          (case hex_value 0 (trim_blank (takeWhile (\<lambda>c. c \<noteq> CHR '';'') l)) of
             None \<Rightarrow> rest
           | Some n \<Rightarrow>
               if n = 0 then (case parse_headers rest of None \<Rightarrow> '''' | Some (_, rest) \<Rightarrow> rest)
               else skip_chunks (drop (n + 2) rest)))"
  by pat_completeness auto
termination
  by (relation "measure length") (auto dest: read_line_shorter)

definition close_body :: "response_head \<Rightarrow> string \<Rightarrow> string" where
  "close_body r rest =
     (if \<not> body_allowed (resp_StatusCode r) \<or> resp_closing r then rest
      else if to_lower (hdr_Get (resp_Header r) ''Transfer-Encoding'') = ''chunked'' then skip_chunks rest
      else case digits_value 0 (hdr_Get (resp_Header r) ''Content-Length'') of
             Some n \<Rightarrow> if hdr_Get (resp_Header r) ''Content-Length'' = '''' then rest else drop n rest
           | None \<Rightarrow> rest)"

declare skip_chunks.simps [simp del]

section \<open>Printing and parsing agree\<close>

lemma read_line_crlf:
  assumes "CHR 0x0A \<notin> set l"
  shows "read_line (l @ crlf @ rest) = Some (l, rest)"
proof -
  have d: "CHR 0x0D \<noteq> CHR 0x0A" by simp
  have "takeWhile (\<lambda>c. c \<noteq> CHR 0x0A) (l @ crlf @ rest) = l @ [CHR 0x0D]"
    using assms d by (auto simp: crlf_def takeWhile_append)
  moreover have "dropWhile (\<lambda>c. c \<noteq> CHR 0x0A) (l @ crlf @ rest) = CHR 0x0A # rest"
    using assms d by (auto simp: crlf_def dropWhile_append)
  ultimately show ?thesis by (simp add: read_line_def Let_def crlf_def)
qed

lemma str_cut_at: "c \<notin> set a \<Longrightarrow> str_cut c (a @ c # b) = (a, Some b)"
  by (auto simp: str_cut_def takeWhile_append dropWhile_append)

lemma parse_headers_empty: "parse_headers (crlf @ rest) = Some ([], rest)"
  using read_line_crlf [of "''''" rest] by (subst parse_headers.simps) simp

lemma set_dropWhile_subset: "set (dropWhile P xs) \<subseteq> set xs"
  using set_dropWhileD by fastforce

lemma trim_blank_set: "set (trim_blank s) \<subseteq> set s"
proof -
  have "set (trim_blank s) \<subseteq> set (dropWhile blank s)"
    unfolding trim_blank_def using set_dropWhile_subset [of blank "rev (dropWhile blank s)"] by simp
  then show ?thesis using set_dropWhile_subset [of blank s] by blast
qed

lemma clean_value_set: "set (clean_value v) \<subseteq> set (map (\<lambda>c. if line_end c then CHR '' '' else c) v)"
  unfolding clean_value_def by (rule trim_blank_set)

lemma clean_value_line: "c \<in> set (clean_value v) \<Longrightarrow> \<not> line_end c"
  using clean_value_set [of v] by (auto simp: line_end_def split: if_splits)

lemma dropWhile_start: "dropWhile P (dropWhile P s) = dropWhile P s"
  by (induction s) simp_all

lemma dropWhile_rev_start:
  assumes "dropWhile P s = s" shows "dropWhile P (rev (dropWhile P (rev s))) = rev (dropWhile P (rev s))"
proof (cases s)
  case (Cons c t)
  then have c: "\<not> P c" using assms by (metis dropWhile.simps(2) impossible_Cons length_dropWhile_le)
  then have "dropWhile P (rev t @ [c]) = dropWhile P (rev t) @ [c]"
    by (induction t rule: rev_induct) (auto simp: dropWhile_append)
  then show ?thesis using Cons c by simp
qed simp

lemma trim_blank_idem [simp]: "trim_blank (trim_blank s) = trim_blank s"
  unfolding trim_blank_def
  using dropWhile_rev_start [OF dropWhile_start, of blank s] by (simp add: dropWhile_start)

lemma trim_blank_space [simp]: "trim_blank (CHR '' '' # s) = trim_blank s"
  by (simp add: trim_blank_def blank_def)

text \<open>A written header field is read back with its cleaned value.\<close>

lemma token_not_colon: "list_all token_char k \<Longrightarrow> CHR '':'' \<notin> set k"
  by (auto simp: list_all_iff token_char_def is_alpha_def is_digit_def)

lemma token_not_lf: "list_all token_char k \<Longrightarrow> CHR 0x0A \<notin> set k"
  by (auto simp: list_all_iff token_char_def is_alpha_def is_digit_def)

lemma parse_field_line:
  assumes "valid_field_name k"
  shows "parse_field (k @ '': '' @ clean_value v) = Some (CanonicalHeaderKey k, clean_value v)"
  using assms str_cut_at [of "CHR '':''" k "CHR '' '' # clean_value v"] token_not_colon [of k]
  by (simp add: parse_field_def valid_field_name_def clean_value_def)

lemma parse_headers_line:
  assumes "valid_field_name k"
  shows "parse_headers (header_line (k, v) @ rest) =
    map_option (\<lambda>(h, r). ((CanonicalHeaderKey k, clean_value v) # h, r)) (parse_headers rest)"
proof -
  let ?l = "k @ '': '' @ clean_value v"
  have "CHR 0x0A \<notin> set ?l"
    using assms token_not_lf [of k] clean_value_line [of "CHR 0x0A" v]
    by (auto simp: valid_field_name_def line_end_def)
  then have "read_line (header_line (k, v) @ rest) = Some (?l, rest)"
    using read_line_crlf [of ?l rest] by (simp add: header_line_def)
  moreover have "?l \<noteq> ''''" by simp
  ultimately show ?thesis
    by (subst parse_headers.simps)
      (simp only: parse_field_line [OF assms] option.case prod.case if_False split: option.split, auto)
qed

definition canonical_fields :: "header \<Rightarrow> bool" where
  "canonical_fields h = list_all (\<lambda>(k, _). valid_field_name k \<and> CanonicalHeaderKey k = k) h"

lemma parse_headers_lines:
  assumes "canonical_fields h"
  shows "parse_headers (concat (map header_line h) @ crlf @ rest) = Some (map (map_prod id clean_value) h, rest)"
  using assms
proof (induction h)
  case Nil
  then show ?case by (simp add: parse_headers_empty)
next
  case (Cons kv h)
  then show ?case by (cases kv) (simp add: parse_headers_line canonical_fields_def)
qed

section \<open>A dumped request is read back\<close>

lemma is_dash: "x = CHR ''-'' \<longleftrightarrow> (of_char x :: nat) = 45" for x :: char
proof -
  have "(of_char (CHR ''-'') :: nat) = 45" by simp
  then show ?thesis by (metis char_of_char)
qed

lemma case_idem [simp]:
  "upper_char (upper_char c) = upper_char c" "lower_char (lower_char c) = lower_char c"
  by (auto simp: upper_char_def lower_char_def Let_def)

lemma case_dash [simp]: "upper_char c = CHR ''-'' \<longleftrightarrow> c = CHR ''-''" "lower_char c = CHR ''-'' \<longleftrightarrow> c = CHR ''-''"
  by (auto simp: upper_char_def lower_char_def Let_def is_dash)

lemma token_case: "token_char c \<Longrightarrow> token_char (upper_char c)" "token_char c \<Longrightarrow> token_char (lower_char c)"
  by (auto simp: token_char_def is_alpha_def upper_char_def lower_char_def Let_def)

lemma canonical_from_idem [simp]: "canonical_from up (canonical_from up s) = canonical_from up s"
  by (induction up s rule: canonical_from.induct) auto

lemma canonical_from_token: "list_all token_char s \<Longrightarrow> list_all token_char (canonical_from up s)"
  by (induction up s rule: canonical_from.induct) (auto simp: token_case)

lemma CanonicalHeaderKey_idem [simp]: "CanonicalHeaderKey (CanonicalHeaderKey k) = CanonicalHeaderKey k"
  by (simp add: CanonicalHeaderKey_def canonical_from_token)

text \<open>Headers built with \<open>Set\<close>: every key canonical, none twice.\<close>

definition header_ok :: "header \<Rightarrow> bool" where
  "header_ok h \<longleftrightarrow> distinct (map fst h) \<and> list_all (\<lambda>(k, _). CanonicalHeaderKey k = k) h"

lemma header_ok_Nil [simp]: "header_ok []"
  by (simp add: header_ok_def)

lemma header_ok_Set [simp]: "header_ok h \<Longrightarrow> header_ok (hdr_Set k v h)"
  by (auto simp: header_ok_def hdr_Set_def list_all_iff distinct_map inj_on_def)

lemma map_of_filter_key: "map_of (filter (\<lambda>(k', _). k' \<noteq> k) h) = (map_of h)(k := None)"
  by (induction h) (auto simp: fun_eq_iff)

lemma map_of_Set [simp]: "map_of (hdr_Set k v h) = (map_of h)(CanonicalHeaderKey k \<mapsto> v)"
  by (simp add: hdr_Set_def map_of_filter_key map_add_def fun_eq_iff split: option.split)

definition dumped :: "header \<Rightarrow> header" where
  "dumped h = sort_key fst (filter (\<lambda>(k, _). k \<notin> set dump_excluded \<and> valid_field_name k) h)"

lemma dumped_canonical: "header_ok h \<Longrightarrow> canonical_fields (dumped h)"
  by (auto simp: header_ok_def canonical_fields_def dumped_def list_all_iff)

lemma map_of_filter_fst: "map_of (filter (\<lambda>(k, _). P k) h) k = (if P k then map_of h k else None)"
  by (induction h) auto

lemma map_of_dumped:
  assumes "header_ok h" "k \<notin> set dump_excluded" "valid_field_name k"
  shows "map_of (dumped h) k = map_of h k"
proof -
  let ?f = "filter (\<lambda>(k, _). k \<notin> set dump_excluded \<and> valid_field_name k) h"
  have "distinct (map fst ?f)"
    using assms(1) by (auto simp: header_ok_def distinct_map inj_on_def)
  moreover from this have "distinct (map fst (sort_key fst ?f))"
    by (simp add: distinct_map)
  ultimately have "map_of (sort_key fst ?f) = map_of ?f"
    by (simp add: map_of_inject_set del: set_filter)
  then show ?thesis
    using assms(2,3) map_of_filter_fst [of "\<lambda>k. k \<notin> set dump_excluded \<and> valid_field_name k" h k]
    by (simp add: dumped_def)
qed

lemma trim_blank_id: "list_all (\<lambda>c. \<not> blank c) s \<Longrightarrow> trim_blank s = s"
proof -
  assume a: "list_all (\<lambda>c. \<not> blank c) s"
  have "dropWhile blank t = t" if "list_all (\<lambda>c. \<not> blank c) t" for t
    using that by (cases t) auto
  then have "dropWhile blank s = s" "dropWhile blank (rev s) = rev s" using a by simp_all
  then show ?thesis by (simp add: trim_blank_def)
qed

lemma host_char_plain: "host_char c \<Longrightarrow> \<not> blank c \<and> \<not> line_end c \<and> \<not> ctl_byte c"
  by (auto simp: host_char_def blank_def line_end_def ctl_byte_def is_alpha_def is_digit_def Let_def)

lemma clean_host: "list_all host_char h \<Longrightarrow> clean_value h = h"
proof -
  assume a: "list_all host_char h"
  then have "map (\<lambda>c. if line_end c then CHR '' '' else c) h = h"
    by (intro map_idI) (auto simp: list_all_iff host_char_plain)
  moreover have "list_all (\<lambda>c. \<not> blank c) h"
    using a by (auto simp: list_all_iff host_char_plain)
  ultimately show ?thesis by (simp add: clean_value_def trim_blank_id)
qed

lemma clean_value_ok: "field_value_ok v \<Longrightarrow> field_value_ok (clean_value v)"
proof -
  assume a: "field_value_ok v"
  have "\<not> ctl_byte (CHR '' '')" by (simp add: ctl_byte_def)
  then have "field_value_ok (map (\<lambda>c. if line_end c then CHR '' '' else c) v)"
    using a by (auto simp: field_value_ok_def list_all_iff)
  then show ?thesis using clean_value_set [of v] unfolding field_value_ok_def list_all_iff by blast
qed

definition uri_ok :: "string \<Rightarrow> bool" where
  "uri_ok s = list_all (\<lambda>c. \<not> ctl_byte c \<and> c \<noteq> CHR '' '') s"

lemma read_request_DumpRequest:
  assumes m: "req_Method r = ''GET''" and h: "header_ok (req_Header r)"
    and vals: "list_all (\<lambda>(_, v). field_value_ok v) (req_Header r)"
    and host: "req_Host r \<noteq> ''''" "list_all host_char (req_Host r)"
    and uri: "uri_ok (RequestURI (req_URL r))" "url_ParseRequestURI (RequestURI (req_URL r)) = Ok u"
  shows "read_request (DumpRequest r @ rest) =
    Some (\<lparr>req_Method = ''GET'', req_URL = u, req_Host = req_Host r,
           req_Header = map (map_prod id clean_value) (dumped (req_Header r))\<rparr>, rest)"
proof -
  let ?uri = "RequestURI (req_URL r)" and ?l = "''GET '' @ RequestURI (req_URL r) @ '' HTTP/1.1''"
  let ?d = "map (map_prod id clean_value) (dumped (req_Header r))"
  have no_lf: "CHR 0x0A \<notin> set ?l" and no_sp: "CHR '' '' \<notin> set ?uri"
    using uri(1) ctl_byte_def [of "CHR 0x0A"] by (auto simp: uri_ok_def list_all_iff)
  have "DumpRequest r @ rest =
      ?l @ crlf @ (header_line (''Host'', req_Host r) @ concat (map header_line (dumped (req_Header r))) @ crlf @ rest)"
    using host by (simp add: DumpRequest_def m dump_headers_def dumped_def header_line_def clean_host)
  then have line: "read_line (DumpRequest r @ rest) =
      Some (?l, header_line (''Host'', req_Host r) @ concat (map header_line (dumped (req_Header r))) @ crlf @ rest)"
    using read_line_crlf [OF no_lf] by simp
  have key: "valid_field_name ''Host'' \<and> CanonicalHeaderKey ''Host'' = ''Host'' \<and> valid_field_name ''GET''"
    by (simp add: valid_field_name_def token_char_def is_alpha_def CanonicalHeaderKey_def upper_char_def lower_char_def)
  have hd: "parse_headers (header_line (''Host'', req_Host r) @ concat (map header_line (dumped (req_Header r))) @ crlf @ rest) =
      Some ((''Host'', req_Host r) # ?d, rest)"
    using key parse_headers_lines [OF dumped_canonical [OF h], of rest] host(2)
    by (simp add: parse_headers_line clean_host)
  have nohost: "\<forall>kv \<in> set ?d. fst kv \<noteq> ''Host''"
    by (auto simp: dumped_def dump_excluded_def)
  have "list_all (\<lambda>(_, v). field_value_ok v) ?d"
    using vals by (auto simp: list_all_iff dumped_def clean_value_ok)
  moreover have "field_value_ok (req_Host r)"
    using host(2) by (auto simp: field_value_ok_def list_all_iff host_char_plain)
  moreover have "filter (\<lambda>(k, _). k = ''Host'') ?d = []" "filter (\<lambda>(k, _). k \<noteq> ''Host'') ?d = ?d"
    using nohost by (auto simp: filter_empty_conv filter_id_conv case_prod_beta)
  moreover have "str_cut (CHR '' '') ?l = (''GET'', Some (?uri @ '' HTTP/1.1''))"
    using str_cut_at [of "CHR '' ''" "''GET''"] by simp
  moreover have "str_cut (CHR '' '') (?uri @ '' HTTP/1.1'') = (?uri, Some ''HTTP/1.1'')"
    using str_cut_at [OF no_sp] by simp
  ultimately show ?thesis
    using host(2) key by (simp add: read_request_def line hd uri(2) Let_def)
qed

end
