(* ===== verification/Conn_Layer.thy ===== *)
theory Conn_Layer
  imports Go_Net
begin

text \<open>
  The contract of the write side of a \<open>net.Conn\<close> wrapper.  The program stacks such wrappers (the
  fragmenting connection, the encrypting one, the compressing one); each turns a \<open>Write\<close> into a
  segment of the stream below, and its peer turns the segment back into the data written.
\<close>

text \<open>A sequence of writes, each with the random draws it uses; it stops at the first failure.\<close>

fun run_writes :: "('c \<Rightarrow> 'r \<Rightarrow> bytes \<Rightarrow> 'c \<times> nat outcome) \<Rightarrow> 'c \<Rightarrow> ('r \<times> bytes) list \<Rightarrow> 'c \<times> nat outcome" where
  "run_writes wr c [] = (c, Ok 0)"
| "run_writes wr c ((r, d) # ws) =
     (case wr c r d of
        (c', Ok n) \<Rightarrow> (case run_writes wr c' ws of (c'', res) \<Rightarrow> (c'', and_then res (\<lambda>m. Ok (n + m))))
      | (c', Err e) \<Rightarrow> (c', Err e)
      | (c', Panic p) \<Rightarrow> (c', Panic p))"

text \<open>A stretch of the stream below that carries the given writes, in order and with nothing between.\<close>

fun segments :: "(bytes \<Rightarrow> bytes \<Rightarrow> bool) \<Rightarrow> bytes list \<Rightarrow> bytes \<Rightarrow> bool" where
  "segments carries [] w \<longleftrightarrow> w = []"
| "segments carries (d # ds) w \<longleftrightarrow> (\<exists>s w'. w = s @ w' \<and> carries d s \<and> segments carries ds w')"

locale conn_layer =
  fixes wr :: "'c \<Rightarrow> 'r \<Rightarrow> bytes \<Rightarrow> 'c \<times> nat outcome"
    and sent :: "'c \<Rightarrow> bytes"
    and ready :: "'c \<Rightarrow> bool"
    and accepts :: "'c \<Rightarrow> 'r \<Rightarrow> bytes \<Rightarrow> bool"
    and carries :: "'c \<Rightarrow> bytes \<Rightarrow> bytes \<Rightarrow> bool"
    and same_peer :: "'c \<Rightarrow> 'c \<Rightarrow> bool"
  assumes write_segment: "ready c \<Longrightarrow> accepts c r d \<Longrightarrow>
      \<exists>c' s. wr c r d = (c', Ok (length d)) \<and> sent c' = sent c @ s \<and> carries c d s \<and>
             ready c' \<and> same_peer c c'"
    and same_accepts: "same_peer c c' \<Longrightarrow> accepts c' r d = accepts c r d"
    and same_carries: "same_peer c c' \<Longrightarrow> carries c' d s = carries c d s"
    and same_refl: "same_peer c c"
    and same_trans: "same_peer c c' \<Longrightarrow> same_peer c' c'' \<Longrightarrow> same_peer c c''"
begin

lemma segments_same: "same_peer c c' \<Longrightarrow> segments (carries c') ds w = segments (carries c) ds w"
  by (induction ds arbitrary: w) (simp_all add: same_carries)

lemma writes_segments:
  assumes "ready c" "\<forall>(r, d) \<in> set ws. accepts c r d"
  shows "\<exists>c' w. run_writes wr c ws = (c', Ok (length (concat (map snd ws)))) \<and>
           sent c' = sent c @ w \<and> segments (carries c) (map snd ws) w \<and> ready c' \<and> same_peer c c'"
  using assms
proof (induction ws arbitrary: c)
  case Nil
  then show ?case by (auto simp: same_refl)
next
  case (Cons x ws)
  obtain r d where x: "x = (r, d)" by (cases x)
  with Cons.prems obtain c1 s where c1: "wr c r d = (c1, Ok (length d))" "sent c1 = sent c @ s"
    "carries c d s" "ready c1" "same_peer c c1"
    using write_segment by fastforce
  have "\<forall>(r, d) \<in> set ws. accepts c1 r d"
    using Cons.prems(2) c1(5) by (auto simp: same_accepts)
  with Cons.IH [OF c1(4)] obtain c' w where c': "run_writes wr c1 ws = (c', Ok (length (concat (map snd ws))))"
    "sent c' = sent c1 @ w" "segments (carries c1) (map snd ws) w" "ready c'" "same_peer c1 c'"
    by blast
  have "segments (carries c) (map snd ws) w"
    using c'(3) segments_same [OF c1(5)] by simp
  then have "segments (carries c) (map snd (x # ws)) (s @ w)"
    using c1(3) x by auto
  moreover have "run_writes wr c (x # ws) = (c', Ok (length (concat (map snd (x # ws)))))"
    using x c1(1) c'(1) by simp
  moreover have "sent c' = sent c @ s @ w" using c1(2) c'(2) by simp
  ultimately show ?case
    using c'(4) same_trans [OF c1(5) c'(5)] by blast
qed

end

text \<open>A layer that passes every byte on unchanged: what is sent is the concatenation of the writes.\<close>

locale transparent_layer = conn_layer +
  assumes carries_identity: "carries c d s \<longleftrightarrow> s = d"
begin

lemma writes_concat:
  assumes "ready c" "\<forall>(r, d) \<in> set ws. accepts c r d"
  shows "\<exists>c'. run_writes wr c ws = (c', Ok (length (concat (map snd ws)))) \<and>
           sent c' = sent c @ concat (map snd ws) \<and> ready c'"
proof -
  have "segments (carries c) ds w \<longleftrightarrow> w = concat ds" for ds w
    by (induction ds arbitrary: w) (auto simp: carries_identity)
  with writes_segments [OF assms] show ?thesis by auto
qed

end

end
