(* ===== verification/Aead.thy ===== *)
theory Aead
  imports Go_Prelude
begin

text \<open>
  The interface \<open>cipher.AEAD\<close> as \<^verbatim>\<open>encrypted_conn.go\<close> uses it (\<open>NonceSize\<close>, \<open>Seal\<close> and
  \<open>Open\<close> without additional data), the laws its documentation promises, and the implementation the
  program instantiates it with: Galois/Counter Mode (NIST SP 800-38D) over a 16-byte block cipher.
\<close>

record aead =
  NonceSize :: nat
  Seal :: "bytes \<Rightarrow> bytes \<Rightarrow> bytes"
  Open :: "bytes \<Rightarrow> bytes \<Rightarrow> bytes option"

text \<open>
  \<open>Seal nonce plaintext\<close> is the ciphertext with the tag appended; \<open>Open nonce ciphertext\<close> is the
  plaintext, or None when authentication fails.
\<close>

locale aead_laws =
  fixes g :: aead and overhead :: nat
  assumes open_seal: "length nonce = NonceSize g \<Longrightarrow> Open g nonce (Seal g nonce p) = Some p"
    and length_seal: "length nonce = NonceSize g \<Longrightarrow> length (Seal g nonce p) = length p + overhead"
    and open_sealed: "length nonce = NonceSize g \<Longrightarrow> Open g nonce c = Some p \<Longrightarrow> c = Seal g nonce p"
begin

lemma seal_inj: "length nonce = NonceSize g \<Longrightarrow> Seal g nonce p = Seal g nonce q \<Longrightarrow> p = q"
  by (metis open_seal option.inject)

lemma open_short: "length nonce = NonceSize g \<Longrightarrow> length c < overhead \<Longrightarrow> Open g nonce c = None"
  using open_sealed length_seal by (metis not_None_eq not_add_less2)

end

section \<open>Galois/Counter Mode\<close>

type_synonym block_cipher = "bytes \<Rightarrow> bytes"

definition xor_bytes :: "bytes \<Rightarrow> bytes \<Rightarrow> bytes" where
  "xor_bytes a b = map2 (\<lambda>x y. x XOR y) a b"

lemma length_xor_bytes [simp]: "length (xor_bytes a b) = min (length a) (length b)"
  by (simp add: xor_bytes_def)

lemma xor_bytes_cancel: "length a \<le> length k \<Longrightarrow> xor_bytes (xor_bytes a k) k = a"
proof (induction a arbitrary: k)
  case (Cons x a)
  then obtain y k' where "k = y # k'" "length a \<le> length k'" by (cases k) auto
  with Cons.IH [of k'] show ?case by (simp add: xor_bytes_def xor.assoc)
qed (simp add: xor_bytes_def)

definition block_int :: "bytes \<Rightarrow> 128 word" where
  "block_int b = foldl (\<lambda>a x. push_bit 8 a OR ucast x) 0 b"

definition int_block :: "128 word \<Rightarrow> bytes" where
  "int_block w = map (\<lambda>i. ucast (drop_bit (8 * i) w)) (rev [0..<16])"

text \<open>
  Multiplication in GF(2^128) with GCM's bit order (bit 127 of the word is the coefficient of \<open>x^0\<close>).
\<close>

fun gmul_loop :: "nat \<Rightarrow> 128 word \<Rightarrow> 128 word \<Rightarrow> 128 word \<Rightarrow> 128 word" where
  "gmul_loop 0 x v z = z"
| "gmul_loop (Suc i) x v z =
     gmul_loop i x
       (if bit v 0 then drop_bit 1 v XOR 0xE1000000000000000000000000000000 else drop_bit 1 v)
       (if bit x i then z XOR v else z)"

definition gmul :: "128 word \<Rightarrow> 128 word \<Rightarrow> 128 word" where
  "gmul x y = gmul_loop 128 x y 0"

fun pad_blocks :: "nat \<Rightarrow> bytes \<Rightarrow> bytes list" where
  "pad_blocks 0 b = []"
| "pad_blocks (Suc n) b =
     (if b = [] then [] else (take 16 b @ replicate (16 - length b) 0) # pad_blocks n (drop 16 b))"

definition ghash :: "128 word \<Rightarrow> bytes \<Rightarrow> 128 word" where
  "ghash h c =
     (let y = foldl (\<lambda>y b. gmul (y XOR block_int b) h) 0 (pad_blocks (length c) c)
      in gmul (y XOR word_of_nat (8 * length c)) h)"

text \<open>The counter block for a 12-byte nonce, and the key stream from a counter on.\<close>

definition counter_block :: "bytes \<Rightarrow> nat \<Rightarrow> bytes" where
  "counter_block nonce i = nonce @ put_uint32 (word_of_nat i)"

fun key_stream :: "block_cipher \<Rightarrow> bytes \<Rightarrow> nat \<Rightarrow> nat \<Rightarrow> bytes" where
  "key_stream e nonce i 0 = []"
| "key_stream e nonce i (Suc n) =
     (let b = take 16 (e (counter_block nonce i) @ replicate 16 0)
      in b @ key_stream e nonce (Suc i) n)"

definition gcm_ctr :: "block_cipher \<Rightarrow> bytes \<Rightarrow> bytes \<Rightarrow> bytes" where
  "gcm_ctr e nonce p = xor_bytes p (key_stream e nonce 2 ((length p + 15) div 16))"

definition gcm_tag :: "block_cipher \<Rightarrow> bytes \<Rightarrow> bytes \<Rightarrow> bytes" where
  "gcm_tag e nonce c =
     int_block (ghash (block_int (e (replicate 16 0))) c XOR block_int (e (counter_block nonce 1)))"

definition NewGCM :: "block_cipher \<Rightarrow> aead" where
  "NewGCM e = \<lparr>
     NonceSize = 12,
     Seal = (\<lambda>nonce p. let c = gcm_ctr e nonce p in c @ gcm_tag e nonce c),
     Open = (\<lambda>nonce ct.
       if length ct < 16 then None
       else let c = take (length ct - 16) ct
            in if drop (length ct - 16) ct = gcm_tag e nonce c then Some (gcm_ctr e nonce c) else None)\<rparr>"

lemma length_key_stream [len_simps]: "length (key_stream e nonce i n) = 16 * n"
  by (induction n arbitrary: i) (auto simp: Let_def)

lemma key_stream_covers: "m \<le> length (key_stream e nonce i ((m + 15) div 16))"
proof -
  have "m \<le> 16 * ((m + 15) div 16)" by presburger
  then show ?thesis by (simp add: len_simps)
qed

lemma length_gcm_ctr [len_simps]: "length (gcm_ctr e nonce p) = length p"
  using key_stream_covers by (simp add: gcm_ctr_def min_def)

lemma gcm_ctr_involutive: "gcm_ctr e nonce (gcm_ctr e nonce p) = p"
proof -
  let ?k = "key_stream e nonce 2 ((length p + 15) div 16)"
  have "gcm_ctr e nonce (gcm_ctr e nonce p) = xor_bytes (xor_bytes p ?k) ?k"
    by (simp add: gcm_ctr_def [of e nonce "gcm_ctr e nonce p"] len_simps) (simp add: gcm_ctr_def)
  also have "\<dots> = p" by (rule xor_bytes_cancel) (rule key_stream_covers)
  finally show ?thesis .
qed

lemma length_gcm_tag [len_simps]: "length (gcm_tag e nonce c) = 16"
  by (simp add: gcm_tag_def int_block_def)

lemma NewGCM_simps [simp]:
  "NonceSize (NewGCM e) = 12"
  "Seal (NewGCM e) nonce p = gcm_ctr e nonce p @ gcm_tag e nonce (gcm_ctr e nonce p)"
  by (simp_all add: NewGCM_def Let_def)

interpretation gcm: aead_laws "NewGCM e" 16 for e
proof unfold_locales
  fix nonce p
  show "Open (NewGCM e) nonce (Seal (NewGCM e) nonce p) = Some p"
    by (simp add: NewGCM_def Let_def len_simps gcm_ctr_involutive)
  show "length (Seal (NewGCM e) nonce p) = length p + 16"
    by (simp add: len_simps)
next
  fix nonce c p
  assume "Open (NewGCM e) nonce c = Some p"
  then have "16 \<le> length c" and t: "drop (length c - 16) c = gcm_tag e nonce (take (length c - 16) c)"
    and "p = gcm_ctr e nonce (take (length c - 16) c)"
    by (auto simp: NewGCM_def Let_def split: if_splits)
  then have "gcm_ctr e nonce p = take (length c - 16) c"
    by (simp add: gcm_ctr_involutive)
  then show "c = Seal (NewGCM e) nonce p"
    using t by simp (metis append_take_drop_id)
qed

end
