(* ===== verification/Crypto_Std.thy ===== *)
theory Crypto_Std
  imports Aead
begin

text \<open>
  The two primitives of Go's standard library that \<open>NewEncryptedConn\<close> calls to make its key and its
  block cipher: \<open>sha256.Sum256\<close> (FIPS 180-4) and \<open>aes.NewCipher\<close> (FIPS 197, key lengths 16, 24, 32).
\<close>

section \<open>SHA-256\<close>

text \<open>
  The constants are the first 32 bits of the fractional parts of the cube roots of the first 64 primes
  and of the square roots of the first 8 primes; the roots are computed bit by bit.
\<close>

fun root_bits :: "nat \<Rightarrow> nat \<Rightarrow> nat \<Rightarrow> nat \<Rightarrow> nat" where
  "root_bits k n 0 acc = acc"
| "root_bits k n (Suc i) acc =
     root_bits k n i (if (acc + 2 ^ i) ^ k \<le> n then acc + 2 ^ i else acc)"

definition small_primes :: "nat list" where
  "small_primes = filter (\<lambda>n. list_all (\<lambda>d. n mod d \<noteq> 0) [2..<n]) [2..<312]"

definition sha256_k :: "32 word list" where
  "sha256_k = map (\<lambda>p. word_of_nat (root_bits 3 (p * 2 ^ 96) 36 0)) small_primes"

definition sha256_init :: "32 word list" where
  "sha256_init = map (\<lambda>p. word_of_nat (root_bits 2 (p * 2 ^ 64) 37 0)) [2, 3, 5, 7, 11, 13, 17, 19]"

text \<open>Padding: a one bit, zeros, and the length in bits as a 64-bit big-endian number.\<close>

definition sha256_pad :: "bytes \<Rightarrow> bytes" where
  "sha256_pad m =
     m @ 0x80 # replicate ((119 - length m mod 64) mod 64) 0
       @ map (\<lambda>i. word_of_nat (8 * length m div 256 ^ i)) (rev [0..<8])"

definition word_be :: "bytes \<Rightarrow> 32 word" where
  "word_be b = foldl (\<lambda>a x. push_bit 8 a OR ucast x) 0 b"

fun sha256_extend :: "nat \<Rightarrow> 32 word list \<Rightarrow> 32 word list" where
  "sha256_extend 0 w = w"
| "sha256_extend (Suc n) w =
     (let t = length w; a = w ! (t - 15); b = w ! (t - 2);
          s0 = word_rotr 7 a XOR word_rotr 18 a XOR drop_bit 3 a;
          s1 = word_rotr 17 b XOR word_rotr 19 b XOR drop_bit 10 b
      in sha256_extend n (w @ [w ! (t - 16) + s0 + w ! (t - 7) + s1]))"

fun sha256_round :: "32 word list \<Rightarrow> 32 word \<times> 32 word \<Rightarrow> 32 word list" where
  "sha256_round [a, b, c, d, e, f, g, h] (k, w) =
     (let s1 = word_rotr 6 e XOR word_rotr 11 e XOR word_rotr 25 e;
          ch = (e AND f) XOR (NOT e AND g);
          t1 = h + s1 + ch + k + w;
          s0 = word_rotr 2 a XOR word_rotr 13 a XOR word_rotr 22 a;
          maj = (a AND b) XOR (a AND c) XOR (b AND c)
      in [t1 + s0 + maj, a, b, c, d + t1, e, f, g])"
| "sha256_round st _ = st"

definition sha256_block :: "32 word list \<Rightarrow> bytes \<Rightarrow> 32 word list" where
  "sha256_block st blk =
     (let w = sha256_extend 48 (map (\<lambda>i. word_be (take 4 (drop (4 * i) blk))) [0..<16])
      in map2 (+) st (foldl sha256_round st (zip sha256_k w)))"

definition Sum256 :: "bytes \<Rightarrow> bytes" where
  "Sum256 m =
     (let p = sha256_pad m;
          st = foldl (\<lambda>s i. sha256_block s (take 64 (drop (64 * i) p))) sha256_init
                 [0..<length p div 64]
      in concat (map put_uint32 st))"

lemma length_sha256_round [len_simps]: "length (sha256_round st kw) = length st"
  by (cases "(st, kw)" rule: sha256_round.cases) (auto simp: Let_def)

lemma length_foldl_sha256_round [len_simps]: "length (foldl sha256_round st kws) = length st"
  by (induction kws arbitrary: st) (auto simp: len_simps)

lemma length_sha256_block [len_simps]: "length (sha256_block st blk) = length st"
  by (simp add: sha256_block_def Let_def len_simps)

lemma length_Sum256 [len_simps]: "length (Sum256 m) = 32"
proof -
  have st: "length (foldl (\<lambda>s i. sha256_block s (f i)) st is) = length st" for f st "is"
    by (induction "is" arbitrary: st) (auto simp: len_simps)
  have cat: "length (concat (map put_uint32 ws)) = 4 * length ws" for ws
    by (induction ws) auto
  show ?thesis by (simp add: Sum256_def Let_def st cat sha256_init_def)
qed

section \<open>AES\<close>

definition aes_sbox :: "byte list" where
  "aes_sbox = [
      0x63, 0x7c, 0x77, 0x7b, 0xf2, 0x6b, 0x6f, 0xc5, 0x30, 0x01, 0x67, 0x2b, 0xfe, 0xd7, 0xab, 0x76,
      0xca, 0x82, 0xc9, 0x7d, 0xfa, 0x59, 0x47, 0xf0, 0xad, 0xd4, 0xa2, 0xaf, 0x9c, 0xa4, 0x72, 0xc0,
      0xb7, 0xfd, 0x93, 0x26, 0x36, 0x3f, 0xf7, 0xcc, 0x34, 0xa5, 0xe5, 0xf1, 0x71, 0xd8, 0x31, 0x15,
      0x04, 0xc7, 0x23, 0xc3, 0x18, 0x96, 0x05, 0x9a, 0x07, 0x12, 0x80, 0xe2, 0xeb, 0x27, 0xb2, 0x75,
      0x09, 0x83, 0x2c, 0x1a, 0x1b, 0x6e, 0x5a, 0xa0, 0x52, 0x3b, 0xd6, 0xb3, 0x29, 0xe3, 0x2f, 0x84,
      0x53, 0xd1, 0x00, 0xed, 0x20, 0xfc, 0xb1, 0x5b, 0x6a, 0xcb, 0xbe, 0x39, 0x4a, 0x4c, 0x58, 0xcf,
      0xd0, 0xef, 0xaa, 0xfb, 0x43, 0x4d, 0x33, 0x85, 0x45, 0xf9, 0x02, 0x7f, 0x50, 0x3c, 0x9f, 0xa8,
      0x51, 0xa3, 0x40, 0x8f, 0x92, 0x9d, 0x38, 0xf5, 0xbc, 0xb6, 0xda, 0x21, 0x10, 0xff, 0xf3, 0xd2,
      0xcd, 0x0c, 0x13, 0xec, 0x5f, 0x97, 0x44, 0x17, 0xc4, 0xa7, 0x7e, 0x3d, 0x64, 0x5d, 0x19, 0x73,
      0x60, 0x81, 0x4f, 0xdc, 0x22, 0x2a, 0x90, 0x88, 0x46, 0xee, 0xb8, 0x14, 0xde, 0x5e, 0x0b, 0xdb,
      0xe0, 0x32, 0x3a, 0x0a, 0x49, 0x06, 0x24, 0x5c, 0xc2, 0xd3, 0xac, 0x62, 0x91, 0x95, 0xe4, 0x79,
      0xe7, 0xc8, 0x37, 0x6d, 0x8d, 0xd5, 0x4e, 0xa9, 0x6c, 0x56, 0xf4, 0xea, 0x65, 0x7a, 0xae, 0x08,
      0xba, 0x78, 0x25, 0x2e, 0x1c, 0xa6, 0xb4, 0xc6, 0xe8, 0xdd, 0x74, 0x1f, 0x4b, 0xbd, 0x8b, 0x8a,
      0x70, 0x3e, 0xb5, 0x66, 0x48, 0x03, 0xf6, 0x0e, 0x61, 0x35, 0x57, 0xb9, 0x86, 0xc1, 0x1d, 0x9e,
      0xe1, 0xf8, 0x98, 0x11, 0x69, 0xd9, 0x8e, 0x94, 0x9b, 0x1e, 0x87, 0xe9, 0xce, 0x55, 0x28, 0xdf,
      0x8c, 0xa1, 0x89, 0x0d, 0xbf, 0xe6, 0x42, 0x68, 0x41, 0x99, 0x2d, 0x0f, 0xb0, 0x54, 0xbb, 0x16]"

definition sub_byte :: "byte \<Rightarrow> byte" where
  "sub_byte b = aes_sbox ! unat b"

definition xtime :: "byte \<Rightarrow> byte" where
  "xtime b = (if bit b 7 then push_bit 1 b XOR 0x1b else push_bit 1 b)"

definition xor4 :: "bytes \<Rightarrow> bytes \<Rightarrow> bytes" where
  "xor4 a b = xor_bytes a b"

text \<open>Key expansion: 4-byte words, \<open>nk\<close> of them in the key.\<close>

fun aes_expand :: "nat \<Rightarrow> nat \<Rightarrow> byte \<Rightarrow> bytes list \<Rightarrow> bytes list" where
  "aes_expand 0 nk rcon ws = ws"
| "aes_expand (Suc n) nk rcon ws =
     (let i = length ws; t = ws ! (i - 1); prev = ws ! (i - nk) in
      if i mod nk = 0
      then aes_expand n nk (xtime rcon)
             (ws @ [xor4 prev (xor4 (map sub_byte (rotate1 t)) [rcon, 0, 0, 0])])
      else if nk > 6 \<and> i mod nk = 4
      then aes_expand n nk rcon (ws @ [xor4 prev (map sub_byte t)])
      else aes_expand n nk rcon (ws @ [xor4 prev t]))"

definition aes_round_keys :: "bytes \<Rightarrow> bytes list" where
  "aes_round_keys key =
     (let nk = length key div 4;
          ws = aes_expand (4 * (nk + 7) - nk) nk 1 (map (\<lambda>i. take 4 (drop (4 * i) key)) [0..<nk])
      in map (\<lambda>r. concat (take 4 (drop (4 * r) ws))) [0..<nk + 7])"

definition shift_rows :: "bytes \<Rightarrow> bytes" where
  "shift_rows s = map (\<lambda>i. s ! ((i + 4 * (i mod 4)) mod 16)) [0..<16]"

fun mix_column :: "bytes \<Rightarrow> bytes" where
  "mix_column [a, b, c, d] =
     [xtime a XOR (xtime b XOR b) XOR c XOR d, a XOR xtime b XOR (xtime c XOR c) XOR d,
      a XOR b XOR xtime c XOR (xtime d XOR d), (xtime a XOR a) XOR b XOR c XOR xtime d]"
| "mix_column col = col"

definition mix_columns :: "bytes \<Rightarrow> bytes" where
  "mix_columns s = concat (map (\<lambda>i. mix_column (take 4 (drop (4 * i) s))) [0..<4])"

definition aes_encrypt :: "bytes \<Rightarrow> block_cipher" where
  "aes_encrypt key blk =
     (let rks = aes_round_keys key;
          s = foldl (\<lambda>s rk. xor_bytes (mix_columns (shift_rows (map sub_byte s))) rk)
                (xor_bytes blk (hd rks)) (butlast (tl rks))
      in xor_bytes (shift_rows (map sub_byte s)) (last rks))"

definition aes_NewCipher :: "bytes \<Rightarrow> block_cipher outcome" where
  "aes_NewCipher key =
     (if length key \<in> {16, 24, 32} then Ok (aes_encrypt key)
      else Err (Msg ''crypto/aes: invalid key size''))"

lemma aes_NewCipher_Sum256 [simp]: "aes_NewCipher (Sum256 m) = Ok (aes_encrypt (Sum256 m))"
  by (simp add: aes_NewCipher_def len_simps)

end
