(* ===== verification/Encrypted_Conn.thy ===== *)
theory Encrypted_Conn
  imports Conn_Layer Crypto_Std
begin

text \<open>
  \<^verbatim>\<open>encrypted_conn.go\<close> and \<^verbatim>\<open>obfuscation.go\<close>: the per-packet AES-256-GCM wrapper of a connection, the
  padding applied before encryption, the timing jitter, and the random helper they share.

  Every random value the code draws is an argument: the raw draws of \<open>crypto/rand\<close> that the calls
  consume, None where the reader fails.  \<open>Write\<close> and \<open>Read\<close> hold their mutex for the whole call, so
  each is one step on the connection's state.
\<close>

section \<open>Data\<close>

record ObfsConfig =
  obfs_Enabled :: bool
  obfs_MinPadding :: int
  obfs_MaxPadding :: int
  obfs_MinDelayMS :: int
  obfs_MaxDelayMS :: int
  obfs_BurstChance :: int

record EncryptedConn =
  ec_conn :: conn
  ec_gcm :: "aead option"
  ec_obfs :: "ObfsConfig option"
  ec_readBuf :: bytes

definition bufferSize :: nat where
  "bufferSize = 128 * 1024"

definition NewEncryptedConn :: "conn \<Rightarrow> string \<Rightarrow> ObfsConfig option \<Rightarrow> EncryptedConn outcome" where
  "NewEncryptedConn c psk obfs =
     (let ec = \<lparr>ec_conn = c, ec_gcm = None, ec_obfs = obfs, ec_readBuf = []\<rparr> in
      if psk = '''' then Ok ec
      else and_then (map_err (Wrapped ''aes'') (aes_NewCipher (Sum256 (bytes_of psk))))
             (\<lambda>block. Ok (ec\<lparr>ec_gcm := Some (NewGCM block)\<rparr>)))"

definition obfs_on :: "ObfsConfig option \<Rightarrow> bool" where
  "obfs_on o' = (case o' of None \<Rightarrow> False | Some ob \<Rightarrow> obfs_Enabled ob)"

section \<open>Random helper\<close>

definition secureRandInt :: "nat option \<Rightarrow> int \<Rightarrow> int" where
  "secureRandInt raw n =
     (if n \<le> 0 then 0 else case raw of None \<Rightarrow> 0 | Some k \<Rightarrow> int k mod n)"

lemma secureRandInt_range: "0 \<le> secureRandInt raw n \<and> (0 < n \<longrightarrow> secureRandInt raw n < n)"
  by (simp add: secureRandInt_def split: option.split)

lemma secureRandInt_bounds:
  "0 \<le> secureRandInt raw n" "0 < n \<Longrightarrow> secureRandInt raw n < n"
  using secureRandInt_range by auto

section \<open>Padding\<close>

definition decoyPatterns :: "string list" where
  "decoyPatterns =
     [''User-Agent: '', ''GET / HTTP/1.1'', ''POST / HTTP/1.1'', ''Host: '', ''Accept: */*'',
      ''Content-Type: application/octet-stream'', ''Connection: keep-alive'',
      ''Cache-Control: no-cache'']"

text \<open>The draws of one padding: its length, the filling bytes, the decoy's index and offset.\<close>

record pad_rand =
  rnd_len :: "nat option"
  rnd_fill :: bytes
  rnd_decoy :: "nat option"
  rnd_off :: "nat option"

definition make_bytes :: "int \<Rightarrow> bytes outcome" where
  "make_bytes n = (if 0 \<le> n \<and> n \<le> 2 ^ 48 then Ok (replicate (nat n) 0) else Panic MakeLen)"

definition padLen :: "ObfsConfig \<Rightarrow> pad_rand \<Rightarrow> int" where
  "padLen obfs r =
     (let diff = wrap64 (obfs_MaxPadding obfs - obfs_MinPadding obfs)
      in if diff > 0 then wrap64 (obfs_MinPadding obfs + secureRandInt (rnd_len r) diff)
         else obfs_MinPadding obfs)"

text \<open>The bytes of \<open>paddingArea\<close> after filling and decoy injection.\<close>

definition fill_padding :: "int \<Rightarrow> pad_rand \<Rightarrow> bytes \<Rightarrow> bytes" where
  "fill_padding pl r area =
     (let filled = copy_into area (rnd_fill r) in
      if pl > 12 then
        let decoyStr = decoyPatterns ! nat (secureRandInt (rnd_decoy r) (int (length decoyPatterns))) in
        if int (length decoyStr) < pl then
          let maxOffset = pl - int (length decoyStr);
              offset = secureRandInt (rnd_off r) (maxOffset + 1)
          in copy_at filled (nat offset) (bytes_of decoyStr)
        else filled
      else filled)"

definition addPaddingBuf :: "bytes \<Rightarrow> ObfsConfig \<Rightarrow> pad_rand \<Rightarrow> bytes \<Rightarrow> bytes outcome" where
  "addPaddingBuf data obfs r buf =
     (let pl = padLen obfs r;
          totalLen = wrap64 (2 + int (length data) + pl)
      in if totalLen > int (length buf) then
           and_then (make_bytes totalLen) (\<lambda>out.
             Ok (copy_at (copy_into out (put_uint16 (word_of_nat (length data)))) 2 data))
         else
           and_then (slice buf 0 totalLen) (\<lambda>out.
             if totalLen < 2 then Panic SliceBounds
             else
               let out = copy_at (copy_into out (put_uint16 (word_of_nat (length data)))) 2 data
               in if pl > 0
                  then Ok (take (2 + length data) out @ fill_padding pl r (drop (2 + length data) out))
                  else Ok out))"

definition removePadding :: "bytes \<Rightarrow> bytes option outcome" where
  "removePadding data =
     (if length data < 2 then Ok None
      else and_then (uint16_be (take 2 data)) (\<lambda>origLen.
        if unat origLen + 2 > length data then Ok None
        else and_then (slice data 2 (int (unat (2 + origLen)))) (\<lambda>d. Ok (Some d))))"

section \<open>Traffic timing\<close>

text \<open>The milliseconds \<open>obfsDelay\<close> sleeps, 0 when it returns at once.\<close>

definition obfsDelay :: "ObfsConfig \<Rightarrow> nat option \<Rightarrow> int" where
  "obfsDelay obfs raw =
     (let mn = obfs_MinDelayMS obfs; mx = obfs_MaxDelayMS obfs in
      if mx \<le> mn \<or> mx \<le> 0 then 0
      else let d = wrap64 (mn + secureRandInt raw (wrap64 (mx - mn))) in if d > 0 then d else 0)"

section \<open>Write\<close>

record write_rand =
  rnd_pad :: pad_rand
  rnd_nonce :: bytes
  rnd_delay :: "nat option"

text \<open>
  The packet that \<open>Write\<close> hands to the connection below: the length prefix, the nonce and the sealed
  payload.  The nonce is what the random reader delivers; a short read is an error.  Both buffers come from \<open>globalBufPool\<close> and have \<open>bufferSize\<close> bytes; the packet is cut out
  of the second one, so a longer packet is a slice-bounds panic.
\<close>

definition frame_packet :: "aead option \<Rightarrow> bytes \<Rightarrow> bytes \<Rightarrow> bytes outcome" where
  "frame_packet gcm entropy payload =
     (case gcm of
        Some g \<Rightarrow>
          if length entropy < NonceSize g then Err (Wrapped ''nonce'' UnexpectedEOF)
          else
            let nonce = take (NonceSize g) entropy;
                encrypted = Seal g nonce payload;
                pktLen = length nonce + length encrypted
            in if 4 + pktLen \<le> bufferSize
               then Ok (put_uint32 (word_of_nat pktLen) @ nonce @ encrypted) else Panic SliceBounds
      | None \<Rightarrow>
          let pktLen = length payload in
          if 4 + pktLen \<le> bufferSize
          then Ok (put_uint32 (word_of_nat pktLen) @ payload) else Panic SliceBounds)"

definition write_payload :: "EncryptedConn \<Rightarrow> write_rand \<Rightarrow> bytes \<Rightarrow> bytes \<Rightarrow> bytes outcome" where
  "write_payload ec r srcBuf data =
     (case ec_obfs ec of
        Some ob \<Rightarrow> if obfs_Enabled ob then addPaddingBuf data ob (rnd_pad r) srcBuf else Ok data
      | None \<Rightarrow> Ok data)"

text \<open>\<open>Write\<close> returns the number of bytes and the milliseconds of jitter slept.\<close>

definition ec_Write ::
    "EncryptedConn \<Rightarrow> write_rand \<Rightarrow> bytes \<Rightarrow> bytes \<Rightarrow> EncryptedConn \<times> (nat \<times> int) outcome" where
  "ec_Write ec r srcBuf data =
     (case and_then (write_payload ec r srcBuf data) (frame_packet (ec_gcm ec) (rnd_nonce r)) of
        Err e \<Rightarrow> (ec, Err e)
      | Panic p \<Rightarrow> (ec, Panic p)
      | Ok pkt \<Rightarrow>
          (case conn_write (ec_conn ec) pkt of
             (c, _, Some e) \<Rightarrow> (ec\<lparr>ec_conn := c\<rparr>, Err e)
           | (c, _, None) \<Rightarrow>
               (ec\<lparr>ec_conn := c\<rparr>,
                Ok (length data,
                    case ec_obfs ec of
                      Some ob \<Rightarrow>
                        if obfs_Enabled ob \<and> obfs_MaxDelayMS ob > 0 \<and> length data > 128
                        then obfsDelay ob (rnd_delay r) else 0
                    | None \<Rightarrow> 0))))"

section \<open>Read\<close>

text \<open>Decryption of one packet: the plaintext before padding is removed.\<close>

definition open_packet :: "aead option \<Rightarrow> bytes \<Rightarrow> bytes outcome" where
  "open_packet gcm pkt =
     (case gcm of
        Some g \<Rightarrow>
          if length pkt < NonceSize g then Err (Msg ''packet too short'')
          else (case Open g (take (NonceSize g) pkt) (drop (NonceSize g) pkt) of
                  None \<Rightarrow> Err (Wrapped ''decrypt'' (Msg ''cipher: message authentication failed''))
                | Some pt \<Rightarrow> Ok pt)
      | None \<Rightarrow> Ok pkt)"

definition strip_padding :: "ObfsConfig option \<Rightarrow> bytes \<Rightarrow> bytes outcome" where
  "strip_padding obfs pt =
     (if obfs_on obfs
      then and_then (removePadding pt) (\<lambda>r.
             case r of None \<Rightarrow> Err (Msg ''invalid padding'') | Some d \<Rightarrow> Ok d)
      else Ok pt)"

text \<open>
  One packet off the wire.  The length check allows 2 MiB, the buffer it is read into holds
  \<open>bufferSize\<close> bytes.
\<close>

definition read_packet :: "conn \<Rightarrow> conn \<times> bytes outcome" where
  "read_packet c =
     (case read_full c 4 of
        (c, Err e) \<Rightarrow> (c, Err e)
      | (c, Panic p) \<Rightarrow> (c, Panic p)
      | (c, Ok header) \<Rightarrow>
          (case uint32_be header of
             Err e \<Rightarrow> (c, Err e)
           | Panic p \<Rightarrow> (c, Panic p)
           | Ok pktLen \<Rightarrow>
               if pktLen = 0 \<or> unat pktLen > 2 * 2 ^ 20
               then (c, Err (Msg ''invalid packet length''))
               else if unat pktLen > bufferSize then (c, Panic SliceBounds)
               else read_full c (unat pktLen)))"

text \<open>\<open>Read(p)\<close> with \<open>len(p) = n\<close>.\<close>

definition ec_Read :: "EncryptedConn \<Rightarrow> nat \<Rightarrow> EncryptedConn \<times> bytes outcome" where
  "ec_Read ec n =
     (if ec_readBuf ec \<noteq> [] then
        (ec\<lparr>ec_readBuf := drop n (ec_readBuf ec)\<rparr>, Ok (take n (ec_readBuf ec)))
      else
        (case read_packet (ec_conn ec) of
           (c, r) \<Rightarrow>
             (case and_then (and_then r (open_packet (ec_gcm ec))) (strip_padding (ec_obfs ec)) of
                Err e \<Rightarrow> (ec\<lparr>ec_conn := c\<rparr>, Err e)
              | Panic p \<Rightarrow> (ec\<lparr>ec_conn := c\<rparr>, Panic p)
              | Ok plaintext \<Rightarrow>
                  (ec\<lparr>ec_conn := c, ec_readBuf := drop n plaintext\<rparr>, Ok (take n plaintext)))))"

text \<open>The remaining methods of \<open>net.Conn\<close> delegate to the connection below.\<close>

definition ec_Close :: "EncryptedConn \<Rightarrow> EncryptedConn" where
  "ec_Close ec = ec\<lparr>ec_conn := conn_close (ec_conn ec)\<rparr>"

section \<open>Padding round trip\<close>

lemma padLen_bounds:
  assumes "0 \<le> obfs_MinPadding obfs" "obfs_MinPadding obfs < 2 ^ 62" "\<bar>obfs_MaxPadding obfs\<bar> < 2 ^ 62"
  shows "obfs_MinPadding obfs \<le> padLen obfs r"
    and "padLen obfs r \<le> max (obfs_MinPadding obfs) (obfs_MaxPadding obfs - 1)"
proof -
  let ?d = "obfs_MaxPadding obfs - obfs_MinPadding obfs"
  have d: "wrap64 ?d = ?d"
    using assms by (intro wrap64_id) (auto simp: int64_range_def)
  have s: "wrap64 (obfs_MinPadding obfs + secureRandInt (rnd_len r) ?d)
      = obfs_MinPadding obfs + secureRandInt (rnd_len r) ?d" if "0 < ?d"
    using assms secureRandInt_bounds(1) [of "rnd_len r" ?d] secureRandInt_bounds(2) [OF that, of "rnd_len r"]
    by (intro wrap64_id) (auto simp: int64_range_def)
  show "obfs_MinPadding obfs \<le> padLen obfs r"
    using s secureRandInt_bounds(1) [of "rnd_len r" ?d] by (auto simp: padLen_def Let_def d)
  show "padLen obfs r \<le> max (obfs_MinPadding obfs) (obfs_MaxPadding obfs - 1)"
    using s secureRandInt_bounds(2) [of ?d "rnd_len r"] by (auto simp: padLen_def Let_def d)
qed

lemma length_fill_padding [len_simps]: "length (fill_padding pl r area) = length area"
  by (simp add: fill_padding_def Let_def)

lemma padded_layout:
  assumes "length out = 2 + length data + n"
  shows "copy_at (copy_into out (put_uint16 v)) 2 data
    = put_uint16 v @ data @ drop (2 + length data) out"
proof -
  have "copy_into out (put_uint16 v) = put_uint16 v @ drop 2 out"
    using assms by (simp add: copy_into_fits)
  moreover have "copy_into (drop 2 out) data = data @ drop (2 + length data) out"
    using assms by (simp add: copy_into_fits add.commute)
  ultimately show ?thesis by (simp add: copy_at_def)
qed

lemma addPaddingBuf_layout:
  assumes "0 \<le> padLen obfs r" "2 + int (length data) + padLen obfs r \<le> 2 ^ 48"
  obtains pad where "length pad = nat (padLen obfs r)"
    "addPaddingBuf data obfs r buf = Ok (put_uint16 (word_of_nat (length data)) @ data @ pad)"
proof -
  let ?t = "2 + int (length data) + padLen obfs r"
  have w: "wrap64 ?t = ?t"
    using assms by (intro wrap64_id) (auto simp: int64_range_def)
  show thesis
  proof (cases "?t > int (length buf)")
    case True
    let ?out = "replicate (nat ?t) (0 :: byte)"
    have "length ?out = 2 + length data + nat (padLen obfs r)" using assms by auto
    from padded_layout [OF this] that [of "drop (2 + length data) ?out"] True assms w
    show thesis by (simp add: addPaddingBuf_def Let_def make_bytes_def nat_add_distrib)
  next
    case False
    let ?out = "take (nat ?t) buf"
    have len: "length ?out = 2 + length data + nat (padLen obfs r)" using assms False by auto
    let ?area = "drop (2 + length data) ?out"
    let ?pad = "if padLen obfs r > 0 then fill_padding (padLen obfs r) r ?area else ?area"
    have "addPaddingBuf data obfs r buf = Ok (put_uint16 (word_of_nat (length data)) @ data @ ?pad)"
      using False assms padded_layout [OF len] len w
      by (cases "padLen obfs r = 0") (simp_all add: addPaddingBuf_def Let_def slice_def)
    moreover have "length ?pad = nat (padLen obfs r)"
      using len assms by (auto simp: len_simps)
    ultimately show thesis using that by blast
  qed
qed

lemma removePadding_layout:
  assumes "length data \<le> 65533"
  shows "removePadding (put_uint16 (word_of_nat (length data)) @ data @ pad) = Ok (Some data)"
proof -
  let ?v = "word_of_nat (length data) :: 16 word"
  have v: "unat ?v = length data" using assms by (simp add: unat_len)
  have "unat (2 + ?v) = 2 + length data"
    using assms v by (simp add: unat_word_ariths)
  then show ?thesis
    using assms v by (simp add: removePadding_def wire_simps slice_def)
qed

section \<open>Packets\<close>

text \<open>
  Who may talk to whom: both ends hold the same AEAD (its laws hold) or none, and pad or not alike.
\<close>

definition aead_ok :: "aead option \<Rightarrow> nat \<Rightarrow> bool" where
  "aead_ok gcm overhead \<longleftrightarrow> (case gcm of None \<Rightarrow> True | Some g \<Rightarrow> aead_laws g overhead \<and> NonceSize g = 12)"

definition packet_fits :: "aead option \<Rightarrow> nat \<Rightarrow> bytes \<Rightarrow> bool" where
  "packet_fits gcm overhead payload \<longleftrightarrow>
     (case gcm of None \<Rightarrow> payload \<noteq> [] \<and> 4 + length payload \<le> bufferSize
      | Some g \<Rightarrow> 4 + 12 + length payload + overhead \<le> bufferSize)"

lemma frame_packet_ok:
  assumes "aead_ok gcm ov" "packet_fits gcm ov payload" "gcm = None \<or> 12 \<le> length entropy"
  obtains body where "frame_packet gcm entropy payload = Ok (put_uint32 (word_of_nat (length body)) @ body)"
    "body \<noteq> []" "length body + 4 \<le> bufferSize" "open_packet gcm body = Ok payload"
proof (cases gcm)
  case None
  then show thesis
    using assms that [of payload] by (simp add: frame_packet_def packet_fits_def open_packet_def Let_def)
next
  case (Some g)
  then have g: "aead_laws g ov" "NonceSize g = 12" and e: "12 \<le> length entropy"
    using assms by (auto simp: aead_ok_def)
  then have "entropy \<noteq> []" by auto
  let ?n = "take 12 entropy"
  have n: "length ?n = NonceSize g" using e g by simp
  note laws = aead_laws.open_seal [OF g(1) n] aead_laws.length_seal [OF g(1) n]
  show thesis
    using Some assms g e laws \<open>entropy \<noteq> []\<close> that [of "?n @ Seal g ?n payload"]
    by (simp add: frame_packet_def packet_fits_def open_packet_def Let_def)
qed

lemma read_packet_frame:
  assumes "\<not> conn_closed c" "conn_in c = put_uint32 (word_of_nat (length body)) @ body @ rest"
    "body \<noteq> []" "length body + 4 \<le> bufferSize"
  shows "read_packet c = (c\<lparr>conn_in := rest\<rparr>, Ok body)"
proof -
  let ?v = "word_of_nat (length body) :: 32 word"
  have v: "unat ?v = length body"
    using assms(4) by (simp add: unat_len bufferSize_def)
  then have "?v \<noteq> 0" using assms(3) by (metis length_0_conv unat_0)
  moreover have "read_full c 4 = (c\<lparr>conn_in := body @ rest\<rparr>, Ok (put_uint32 ?v))"
    using assms by (intro read_full_append) auto
  moreover have "read_full (c\<lparr>conn_in := body @ rest\<rparr>) (length body) = (c\<lparr>conn_in := rest\<rparr>, Ok body)"
    using assms by (subst read_full_append) auto
  ultimately show ?thesis
    using assms v by (simp add: read_packet_def wire_simps bufferSize_def)
qed

lemma aead_ok_simps [simp]: "aead_ok None ov" "aead_ok (Some (NewGCM e)) 16"
  by (simp_all add: aead_ok_def gcm.aead_laws_axioms)

lemma read_full_Ok: "read_full c n = (c', Ok b) \<Longrightarrow> conn_in c = b @ conn_in c' \<and> length b = n"
  by (auto simp: read_full_def split: if_splits)

lemma read_packet_OkE:
  assumes "read_packet c = (c', Ok pkt)"
  obtains hdr where "conn_in c = hdr @ pkt @ conn_in c'" "length hdr = 4"
proof -
  obtain c1 h where h: "read_full c 4 = (c1, Ok h)"
    using assms by (auto simp: read_packet_def split: prod.splits outcome.splits)
  moreover obtain v where "uint32_be h = Ok v"
    using assms h by (auto simp: read_packet_def split: outcome.splits)
  ultimately have "read_full c1 (unat v) = (c', Ok pkt)"
    using assms by (auto simp: read_packet_def split: if_splits)
  with read_full_Ok [OF h] read_full_Ok that show thesis by metis
qed

section \<open>One packet, end to end\<close>

text \<open>
  The conditions under which \<open>Write\<close> produces a packet its peer can read: sane padding bounds, data
  within the 16-bit length field, a packet that fits the pooled buffer, and enough entropy.
\<close>

definition obfs_ok :: "ObfsConfig option \<Rightarrow> bool" where
  "obfs_ok o' = (case o' of None \<Rightarrow> True | Some ob \<Rightarrow>
     obfs_Enabled ob \<longrightarrow>
       0 \<le> obfs_MinPadding ob \<and> obfs_MinPadding ob \<le> 32768 \<and> \<bar>obfs_MaxPadding ob\<bar> \<le> 32768)"

definition sendable :: "EncryptedConn \<Rightarrow> bytes \<Rightarrow> bool" where
  "sendable ec data \<longleftrightarrow>
     (if obfs_on (ec_obfs ec) then length data \<le> 65533
      else length data \<le> 98304 \<and> (ec_gcm ec = None \<longrightarrow> data \<noteq> []))"

lemma write_payload_ok:
  assumes "obfs_ok (ec_obfs ec)" "sendable ec data"
  obtains payload where "write_payload ec r buf data = Ok payload"
    "strip_padding (ec_obfs ec) payload = Ok data" "length payload \<le> 98304"
    "ec_gcm ec = None \<Longrightarrow> payload \<noteq> []"
proof (cases "obfs_on (ec_obfs ec)")
  case False
  then show thesis
    using assms that [of data]
    by (auto simp: write_payload_def strip_padding_def obfs_on_def sendable_def split: option.splits)
next
  case True
  then obtain ob where ob: "ec_obfs ec = Some ob" "obfs_Enabled ob"
    by (auto simp: obfs_on_def split: option.splits)
  then have b: "0 \<le> obfs_MinPadding ob" "obfs_MinPadding ob \<le> 32768" "\<bar>obfs_MaxPadding ob\<bar> \<le> 32768"
    using assms(1) by (auto simp: obfs_ok_def)
  have len: "length data \<le> 65533" using assms(2) True by (simp add: sendable_def)
  have pl: "0 \<le> padLen ob (rnd_pad r)" "padLen ob (rnd_pad r) \<le> 32768"
    using padLen_bounds [of ob "rnd_pad r"] b by auto
  then have "2 + int (length data) + padLen ob (rnd_pad r) \<le> 2 ^ 48" using len by simp
  from addPaddingBuf_layout [OF pl(1) this, of buf] obtain pad where pad:
    "length pad = nat (padLen ob (rnd_pad r))"
    "addPaddingBuf data ob (rnd_pad r) buf = Ok (put_uint16 (word_of_nat (length data)) @ data @ pad)" .
  show thesis
  proof (rule that)
    show "write_payload ec r buf data = Ok (put_uint16 (word_of_nat (length data)) @ data @ pad)"
      using ob pad by (simp add: write_payload_def)
    show "strip_padding (ec_obfs ec) (put_uint16 (word_of_nat (length data)) @ data @ pad) = Ok data"
      using True removePadding_layout [OF len] by (simp add: strip_padding_def)
    show "length (put_uint16 (word_of_nat (length data)) @ data @ pad) \<le> 98304"
      using len pad pl by simp
    show "put_uint16 (word_of_nat (length data)) @ data @ pad \<noteq> []"
      by (simp add: put_uint16_def)
  qed
qed

lemma packet_fits_bound:
  "length payload \<le> 98304 \<Longrightarrow> ov \<le> 16 \<Longrightarrow> (gcm = None \<Longrightarrow> payload \<noteq> []) \<Longrightarrow> packet_fits gcm ov payload"
  by (auto simp: packet_fits_def bufferSize_def split: option.splits)

text \<open>The packet a successful \<open>Write\<close> appends to the wire, and what any matching reader does with it.\<close>

definition packet_for :: "EncryptedConn \<Rightarrow> bytes \<Rightarrow> bytes \<Rightarrow> bool" where
  "packet_for ec data pkt \<longleftrightarrow>
     (\<forall>c rest. \<not> conn_closed c \<longrightarrow> conn_in c = pkt @ rest \<longrightarrow>
        (case read_packet c of (c', r) \<Rightarrow>
           c' = c\<lparr>conn_in := rest\<rparr> \<and>
           and_then (and_then r (open_packet (ec_gcm ec))) (strip_padding (ec_obfs ec)) = Ok data))"

lemma ec_Write_packet:
  assumes "aead_ok (ec_gcm ec) ov" "ov \<le> 16" "obfs_ok (ec_obfs ec)" "sendable ec data"
    "ec_gcm ec = None \<or> 12 \<le> length (rnd_nonce r)"
    "\<not> conn_closed (ec_conn ec)" "conn_room (ec_conn ec) = None"
  obtains pkt d where
    "ec_Write ec r buf data =
       (ec\<lparr>ec_conn := (ec_conn ec)\<lparr>conn_out := conn_out (ec_conn ec) @ pkt\<rparr>\<rparr>, Ok (length data, d))"
    "packet_for ec data pkt" "pkt \<noteq> []"
proof -
  obtain payload where p: "write_payload ec r buf data = Ok payload"
    "strip_padding (ec_obfs ec) payload = Ok data" "length payload \<le> 98304"
    "ec_gcm ec = None \<Longrightarrow> payload \<noteq> []"
    using write_payload_ok assms(3,4) by blast
  then have "packet_fits (ec_gcm ec) ov payload"
    using assms(2) by (intro packet_fits_bound) auto
  from frame_packet_ok [OF assms(1) this assms(5)] obtain body where b:
    "frame_packet (ec_gcm ec) (rnd_nonce r) payload = Ok (put_uint32 (word_of_nat (length body)) @ body)"
    "body \<noteq> []" "length body + 4 \<le> bufferSize" "open_packet (ec_gcm ec) body = Ok payload" .
  let ?pkt = "put_uint32 (word_of_nat (length body)) @ body"
  have "packet_for ec data ?pkt"
    unfolding packet_for_def using read_packet_frame b p by auto
  moreover have "\<exists>d. ec_Write ec r buf data =
       (ec\<lparr>ec_conn := (ec_conn ec)\<lparr>conn_out := conn_out (ec_conn ec) @ ?pkt\<rparr>\<rparr>, Ok (length data, d))"
    using assms(6,7) p(1) b(1) by (simp add: ec_Write_def conn_write_unlimited)
  ultimately show thesis using that b(2) by blast
qed

lemma ec_Read_packet:
  assumes "packet_for ec data pkt" "ec_gcm rd = ec_gcm ec" "ec_obfs rd = ec_obfs ec"
    "ec_readBuf rd = []" "\<not> conn_closed (ec_conn rd)" "conn_in (ec_conn rd) = pkt @ rest"
  shows "ec_Read rd n =
    (rd\<lparr>ec_conn := (ec_conn rd)\<lparr>conn_in := rest\<rparr>, ec_readBuf := drop n data\<rparr>, Ok (take n data))"
  using assms unfolding packet_for_def ec_Read_def
  by (auto split: prod.splits)

section \<open>The byte stream a pair of wrapped connections is\<close>

text \<open>
  A reader that calls \<open>Read\<close> with buffers of the given sizes until the first error (the sizes are the
  caller's; every successful call consumes one).
\<close>

fun read_all :: "EncryptedConn \<Rightarrow> nat list \<Rightarrow> bytes \<times> EncryptedConn \<times> unit outcome" where
  "read_all ec [] = ([], ec, Ok ())"
| "read_all ec (n # ns) =
     (case ec_Read ec n of
        (ec', Ok b) \<Rightarrow> (case read_all ec' ns of (bs, r) \<Rightarrow> (b @ bs, r))
      | (ec', Err e) \<Rightarrow> ([], ec', Err e)
      | (ec', Panic p) \<Rightarrow> ([], ec', Panic p))"

lemma packet_for_cong:
  "ec_gcm a = ec_gcm b \<Longrightarrow> ec_obfs a = ec_obfs b \<Longrightarrow> packet_for a = packet_for b"
  by (intro ext) (simp add: packet_for_def)

text \<open>The wrapper as a connection layer: its draws are the random bytes and the pooled buffer.\<close>

definition ec_wr :: "EncryptedConn \<Rightarrow> write_rand \<times> bytes \<Rightarrow> bytes \<Rightarrow> EncryptedConn \<times> nat outcome" where
  "ec_wr ec rb d = (case ec_Write ec (fst rb) (snd rb) d of (ec', res) \<Rightarrow> (ec', and_then res (\<lambda>x. Ok (fst x))))"

definition ec_ready :: "EncryptedConn \<Rightarrow> bool" where
  "ec_ready ec \<longleftrightarrow> aead_ok (ec_gcm ec) 16 \<and> obfs_ok (ec_obfs ec) \<and>
     \<not> conn_closed (ec_conn ec) \<and> conn_room (ec_conn ec) = None"

definition ec_accepts :: "EncryptedConn \<Rightarrow> write_rand \<times> bytes \<Rightarrow> bytes \<Rightarrow> bool" where
  "ec_accepts ec rb d \<longleftrightarrow> sendable ec d \<and> (ec_gcm ec = None \<or> 12 \<le> length (rnd_nonce (fst rb)))"

definition ec_same :: "EncryptedConn \<Rightarrow> EncryptedConn \<Rightarrow> bool" where
  "ec_same a b \<longleftrightarrow> ec_gcm a = ec_gcm b \<and> ec_obfs a = ec_obfs b"

definition ec_carries :: "EncryptedConn \<Rightarrow> bytes \<Rightarrow> bytes \<Rightarrow> bool" where
  "ec_carries ec d s \<longleftrightarrow> s \<noteq> [] \<and> packet_for ec d s"

interpretation enc: conn_layer ec_wr "\<lambda>ec. conn_out (ec_conn ec)" ec_ready ec_accepts ec_carries ec_same
proof unfold_locales
  fix c r d
  assume "ec_ready c" "ec_accepts c r d"
  then have h: "aead_ok (ec_gcm c) 16" "obfs_ok (ec_obfs c)" "sendable c d"
    "ec_gcm c = None \<or> 12 \<le> length (rnd_nonce (fst r))"
    "\<not> conn_closed (ec_conn c)" "conn_room (ec_conn c) = None"
    by (auto simp: ec_ready_def ec_accepts_def)
  from ec_Write_packet [OF h(1) _ h(2-6), of "snd r"] obtain pkt dl where
    "ec_Write c (fst r) (snd r) d =
       (c\<lparr>ec_conn := (ec_conn c)\<lparr>conn_out := conn_out (ec_conn c) @ pkt\<rparr>\<rparr>, Ok (length d, dl))"
    "packet_for c d pkt" "pkt \<noteq> []" by auto
  then show "\<exists>c' s. ec_wr c r d = (c', Ok (length d)) \<and>
      conn_out (ec_conn c') = conn_out (ec_conn c) @ s \<and> ec_carries c d s \<and> ec_ready c' \<and> ec_same c c'"
    using h by (auto simp: ec_wr_def ec_carries_def ec_ready_def ec_same_def)
qed (auto simp: ec_same_def ec_accepts_def sendable_def ec_carries_def dest: packet_for_cong)

section \<open>Reading the stream back\<close>

definition ec_matches :: "EncryptedConn \<Rightarrow> EncryptedConn \<Rightarrow> bool" where
  "ec_matches ec rd \<longleftrightarrow> ec_same ec rd \<and> \<not> conn_closed (ec_conn rd)"

definition left_to_read :: "EncryptedConn \<Rightarrow> bytes list \<Rightarrow> nat" where
  "left_to_read rd ds = length (ec_readBuf rd) + (\<Sum>d\<leftarrow>ds. Suc (length d))"

lemma ec_Read_eof:
  "ec_readBuf rd = [] \<Longrightarrow> conn_in (ec_conn rd) = [] \<Longrightarrow> \<not> conn_closed (ec_conn rd) \<Longrightarrow>
   ec_Read rd n = (rd\<lparr>ec_conn := (ec_conn rd)\<lparr>conn_in := []\<rparr>\<rparr>, Err EOF)"
  by (simp add: ec_Read_def read_packet_def read_full_def)

text \<open>One \<open>Read\<close> against a stream of packets: the end of the stream, or progress.\<close>

lemma ec_Read_step:
  assumes "ec_matches ec rd" "segments (ec_carries ec) ds (conn_in (ec_conn rd))"
  shows "(ec_readBuf rd = [] \<and> ds = [] \<and> snd (ec_Read rd n) = Err EOF) \<or>
    (\<exists>rd' b ds'. ec_Read rd n = (rd', Ok b) \<and> ec_matches ec rd' \<and>
       segments (ec_carries ec) ds' (conn_in (ec_conn rd')) \<and>
       b @ ec_readBuf rd' @ concat ds' = ec_readBuf rd @ concat ds \<and>
       (0 < n \<longrightarrow> left_to_read rd' ds' < left_to_read rd ds))"
proof (cases "ec_readBuf rd = []")
  case False
  let ?rd' = "rd\<lparr>ec_readBuf := drop n (ec_readBuf rd)\<rparr>"
  have "ec_Read rd n = (?rd', Ok (take n (ec_readBuf rd)))" using False by (simp add: ec_Read_def)
  moreover have "0 < n \<longrightarrow> left_to_read ?rd' ds < left_to_read rd ds"
    using False by (cases "ec_readBuf rd") (auto simp: left_to_read_def)
  moreover have "ec_matches ec ?rd'" using assms(1) by (simp add: ec_matches_def ec_same_def)
  ultimately show ?thesis using assms(2) by force
next
  case True
  show ?thesis
  proof (cases ds)
    case Nil
    then show ?thesis using True assms by (simp add: ec_Read_eof ec_matches_def)
  next
    case (Cons d ds')
    then obtain s w where s: "conn_in (ec_conn rd) = s @ w" "packet_for ec d s"
      "segments (ec_carries ec) ds' w" using assms(2) by (auto simp: ec_carries_def)
    have e: "ec_gcm rd = ec_gcm ec" "ec_obfs rd = ec_obfs ec" "\<not> conn_closed (ec_conn rd)"
      using assms(1) by (auto simp: ec_matches_def ec_same_def)
    let ?rd' = "rd\<lparr>ec_conn := (ec_conn rd)\<lparr>conn_in := w\<rparr>, ec_readBuf := drop n d\<rparr>"
    have "ec_Read rd n = (?rd', Ok (take n d))"
      using ec_Read_packet [OF s(2) e(1,2) True e(3) s(1)] .
    moreover have "ec_matches ec ?rd'" using e by (simp add: ec_matches_def ec_same_def)
    moreover have "0 < n \<longrightarrow> left_to_read ?rd' ds' < left_to_read rd ds"
      using True Cons by (auto simp: left_to_read_def)
    ultimately show ?thesis using s(3) True Cons by force
  qed
qed

lemma read_all_prefix:
  assumes "ec_matches ec rd" "segments (ec_carries ec) ds (conn_in (ec_conn rd))"
    "read_all rd ns = (out, rd', res)"
  shows "prefix out (ec_readBuf rd @ concat ds) \<and>
    (res = Ok () \<or> res = Err EOF \<and> out = ec_readBuf rd @ concat ds)"
  using assms
proof (induction ns arbitrary: rd ds out)
  case (Cons n ns)
  consider "ec_readBuf rd = []" "ds = []" "snd (ec_Read rd n) = Err EOF"
    | rd1 b ds1 where "ec_Read rd n = (rd1, Ok b)" "ec_matches ec rd1"
      "segments (ec_carries ec) ds1 (conn_in (ec_conn rd1))"
      "b @ ec_readBuf rd1 @ concat ds1 = ec_readBuf rd @ concat ds"
    using ec_Read_step [OF Cons.prems(1,2), of n] by blast
  then show ?case
  proof cases
    case 1
    then show ?thesis using Cons.prems(3) by (auto split: prod.splits)
  next
    case 2
    obtain o1 where "out = b @ o1" "read_all rd1 ns = (o1, rd', res)"
      using Cons.prems(3) 2(1) by (auto split: prod.splits)
    with Cons.IH [OF 2(2,3)] 2(4) show ?thesis by (metis append.assoc same_prefix_prefix)
  qed
qed simp

lemma read_all_complete:
  assumes "ec_matches ec rd" "segments (ec_carries ec) ds (conn_in (ec_conn rd))"
    "\<forall>n \<in> set ns. 0 < n" "left_to_read rd ds < length ns"
  shows "\<exists>rd'. read_all rd ns = (ec_readBuf rd @ concat ds, rd', Err EOF)"
  using assms
proof (induction ns arbitrary: rd ds)
  case (Cons n ns)
  consider "ec_readBuf rd = []" "ds = []" "snd (ec_Read rd n) = Err EOF"
    | rd1 b ds1 where "ec_Read rd n = (rd1, Ok b)" "ec_matches ec rd1"
      "segments (ec_carries ec) ds1 (conn_in (ec_conn rd1))"
      "b @ ec_readBuf rd1 @ concat ds1 = ec_readBuf rd @ concat ds"
      "left_to_read rd1 ds1 < left_to_read rd ds"
    using ec_Read_step [OF Cons.prems(1,2), of n] Cons.prems(3) by auto
  then show ?case
  proof cases
    case 1
    then show ?thesis by (auto split: prod.splits)
  next
    case 2
    with Cons.IH [OF 2(2,3)] Cons.prems(3,4) obtain rd' where
      "read_all rd1 ns = (ec_readBuf rd1 @ concat ds1, rd', Err EOF)" by auto
    then show ?thesis using 2(1,4) by auto
  qed
qed simp

section \<open>Properties\<close>

lemma NewEncryptedConn_Ok:
  "NewEncryptedConn c psk obfs = Ok ec \<Longrightarrow>
     ec_conn ec = c \<and> ec_obfs ec = obfs \<and> ec_readBuf ec = [] \<and> aead_ok (ec_gcm ec) 16 \<and>
     ec_gcm ec = (if psk = '''' then None else Some (NewGCM (aes_encrypt (Sum256 (bytes_of psk)))))"
  by (auto simp: NewEncryptedConn_def Let_def aead_ok_def gcm.aead_laws_axioms split: if_splits)

lemma NewEncryptedConn_total: "\<exists>ec. NewEncryptedConn c psk obfs = Ok ec"
  by (simp add: NewEncryptedConn_def Let_def)

lemma ec_pair_stream:
  assumes "ec_ready ec" "ec_matches ec rd" "ec_readBuf rd = []" "\<forall>(r, d) \<in> set ws. ec_accepts ec r d"
    and "conn_out (ec_conn (fst (run_writes ec_wr ec ws))) = conn_out (ec_conn ec) @ conn_in (ec_conn rd)"
    and "\<forall>n \<in> set ns. 0 < n" "(\<Sum>(r, d) \<leftarrow> ws. Suc (length d)) < length ns"
  shows "snd (run_writes ec_wr ec ws) = Ok (length (concat (map snd ws))) \<and>
    (\<exists>rd'. read_all rd ns = (concat (map snd ws), rd', Err EOF))"
proof -
  from enc.writes_segments [OF assms(1,4)] obtain ec' w where w:
    "run_writes ec_wr ec ws = (ec', Ok (length (concat (map snd ws))))"
    "conn_out (ec_conn ec') = conn_out (ec_conn ec) @ w" "segments (ec_carries ec) (map snd ws) w" by blast
  then have "segments (ec_carries ec) (map snd ws) (conn_in (ec_conn rd))" using assms(5) by simp
  moreover have "left_to_read rd (map snd ws) < length ns"
    using assms(3,7) by (simp add: left_to_read_def comp_def case_prod_unfold)
  ultimately show ?thesis
    using read_all_complete [OF assms(2) _ assms(6)] w(1) assms(3) by auto
qed

lemma NewEncryptedConn_ready:
  assumes "NewEncryptedConn c psk obfs = Ok ec" "obfs_ok obfs" "\<not> conn_closed c" "conn_room c = None"
  shows "ec_ready ec"
  using NewEncryptedConn_Ok [OF assms(1)] assms(2-) unfolding ec_ready_def by metis

lemma NewEncryptedConn_matches:
  assumes "NewEncryptedConn c psk obfs = Ok ec" "NewEncryptedConn c2 psk obfs = Ok rd" "\<not> conn_closed c2"
  shows "ec_matches ec rd"
  using NewEncryptedConn_Ok [OF assms(1)] NewEncryptedConn_Ok [OF assms(2)] assms(3)
  by (simp add: ec_matches_def ec_same_def)

text \<open>
  C2: two ends made by \<open>NewEncryptedConn\<close> with the same PSK and obfuscation settings are a byte
  stream.  Whatever sequence of writes (within the packet limits) one end makes, every write reports
  all its bytes, and the other end, reading with any positive buffer sizes, receives exactly the
  concatenation of the data and then the end of the stream; padding, nonces, packet boundaries and
  decoys leave no trace.
\<close>

theorem ec_stream_roundtrip:
  assumes "NewEncryptedConn c psk obfs = Ok ec" "NewEncryptedConn c2 psk obfs = Ok rd"
    and "obfs_ok obfs" "\<not> conn_closed c" "conn_room c = None" "conn_out c = []" "\<not> conn_closed c2"
    and "\<forall>(r, d) \<in> set ws. ec_accepts ec r d"
    and "conn_in c2 = conn_out (ec_conn (fst (run_writes ec_wr ec ws)))"
    and "\<forall>n \<in> set ns. 0 < n" "(\<Sum>(r, d) \<leftarrow> ws. Suc (length d)) < length ns"
  shows "snd (run_writes ec_wr ec ws) = Ok (length (concat (map snd ws))) \<and>
    (\<exists>rd'. read_all rd ns = (concat (map snd ws), rd', Err EOF))"
proof (rule ec_pair_stream [OF _ _ _ assms(8) _ assms(10,11)])
  show "ec_ready ec" by (rule NewEncryptedConn_ready [OF assms(1,3-5)])
  show "ec_matches ec rd" by (rule NewEncryptedConn_matches [OF assms(1,2,7)])
qed (use NewEncryptedConn_Ok [OF assms(1)] NewEncryptedConn_Ok [OF assms(2)] assms(6,9) in simp_all)

definition demo_obfs :: ObfsConfig where
  "demo_obfs = \<lparr>obfs_Enabled = True, obfs_MinPadding = 4, obfs_MaxPadding = 32, obfs_MinDelayMS = 0,
     obfs_MaxDelayMS = 0, obfs_BurstChance = 0\<rparr>"

definition demo_rand :: write_rand where
  "demo_rand = \<lparr>rnd_pad = \<lparr>rnd_len = Some 9, rnd_fill = [1, 2, 3], rnd_decoy = Some 3, rnd_off = None\<rparr>,
     rnd_nonce = replicate 12 7, rnd_delay = None\<rparr>"

definition demo_conn :: conn where
  "demo_conn = \<lparr>conn_in = [], conn_out = [], conn_room = None, conn_closed = False\<rparr>"

definition demo_writes :: "((write_rand \<times> bytes) \<times> bytes) list" where
  "demo_writes = [((demo_rand, replicate 64 0), bytes_of ''hello''), ((demo_rand, []), bytes_of ''tunnel'')]"

theorem ec_stream_roundtrip_witness:
  "\<exists>ec rd rd'. NewEncryptedConn demo_conn ''secret'' (Some demo_obfs) = Ok ec \<and>
     NewEncryptedConn (demo_conn\<lparr>conn_in := conn_out (ec_conn (fst (run_writes ec_wr ec demo_writes)))\<rparr>)
       ''secret'' (Some demo_obfs) = Ok rd \<and>
     snd (run_writes ec_wr ec demo_writes) = Ok 11 \<and>
     read_all rd (replicate 14 3) = (bytes_of ''hellotunnel'', rd', Err EOF)"
proof -
  obtain ec where ec: "NewEncryptedConn demo_conn ''secret'' (Some demo_obfs) = Ok ec"
    using NewEncryptedConn_total by blast
  let ?c2 = "demo_conn\<lparr>conn_in := conn_out (ec_conn (fst (run_writes ec_wr ec demo_writes)))\<rparr>"
  obtain rd where rd: "NewEncryptedConn ?c2 ''secret'' (Some demo_obfs) = Ok rd"
    using NewEncryptedConn_total by blast
  have "ec_obfs ec = Some demo_obfs" using NewEncryptedConn_Ok [OF ec] by simp
  then have "\<forall>(r, d) \<in> set demo_writes. ec_accepts ec r d"
    by (simp add: demo_writes_def ec_accepts_def sendable_def obfs_on_def demo_obfs_def demo_rand_def)
  with ec_stream_roundtrip [OF ec rd, of demo_writes "replicate 14 3"]
  have "snd (run_writes ec_wr ec demo_writes) = Ok (length (concat (map snd demo_writes))) \<and>
    (\<exists>rd'. read_all rd (replicate 14 3) = (concat (map snd demo_writes), rd', Err EOF))"
    by (simp add: obfs_ok_def demo_obfs_def demo_conn_def demo_writes_def)
  then show ?thesis using ec rd by (simp add: demo_writes_def bytes_of_def)
qed

text \<open>
  C28: what \<open>Read\<close> does with the length prefix of a packet, for every value of the prefix.  Zero and more
  than 2 MiB are rejected with an error.  Between the pooled buffer's 131072 bytes and 2 MiB the check
  passes but slicing the buffer panics, whatever the key: nothing has been authenticated at that point.
  Any other prefix delimits the packet that is then decrypted.
\<close>

theorem ec_Read_length_prefix:
  assumes "ec_readBuf ec = []" "\<not> conn_closed (ec_conn ec)" "conn_in (ec_conn ec) = put_uint32 v @ rest"
  shows "(v = 0 \<or> 2097152 < unat v \<longrightarrow> snd (ec_Read ec n) = Err (Msg ''invalid packet length'')) \<and>
    (131072 < unat v \<and> unat v \<le> 2097152 \<longrightarrow> snd (ec_Read ec n) = Panic SliceBounds) \<and>
    (v \<noteq> 0 \<and> unat v \<le> 131072 \<and> unat v \<le> length rest \<longrightarrow>
       snd (ec_Read ec n) = and_then (and_then (open_packet (ec_gcm ec) (take (unat v) rest))
                               (strip_padding (ec_obfs ec))) (\<lambda>pt. Ok (take n pt)))"
proof -
  have r: "read_full (ec_conn ec) 4 = ((ec_conn ec)\<lparr>conn_in := rest\<rparr>, Ok (put_uint32 v))"
    using assms by (intro read_full_append) auto
  have z: "unat (0 :: 32 word) = 0" by simp
  have "v = 0 \<or> 2097152 < unat v \<longrightarrow> snd (ec_Read ec n) = Err (Msg ''invalid packet length'')"
    using assms(1) r by (auto simp: ec_Read_def read_packet_def wire_simps)
  moreover have "131072 < unat v \<and> unat v \<le> 2097152 \<longrightarrow> snd (ec_Read ec n) = Panic SliceBounds"
    using assms(1) r by (auto simp: ec_Read_def read_packet_def wire_simps bufferSize_def)
  moreover have "snd (ec_Read ec n) = and_then (and_then (open_packet (ec_gcm ec) (take (unat v) rest))
       (strip_padding (ec_obfs ec))) (\<lambda>pt. Ok (take n pt))"
    if "v \<noteq> 0 \<and> unat v \<le> 131072 \<and> unat v \<le> length rest"
  proof -
    have "read_packet (ec_conn ec) = ((ec_conn ec)\<lparr>conn_in := drop (unat v) rest\<rparr>, Ok (take (unat v) rest))"
      using that r assms(2)
      by (auto simp: read_packet_def wire_simps bufferSize_def read_full_def unat_eq_0)
    then show ?thesis
      using assms(1) by (auto simp: ec_Read_def split: outcome.splits)
  qed
  ultimately show ?thesis by blast
qed

theorem ec_Read_length_prefix_witness:
  "\<exists>ec. NewEncryptedConn (demo_conn\<lparr>conn_in := put_uint32 200000\<rparr>) ''secret'' None = Ok ec \<and>
     snd (ec_Read ec 4096) = Panic SliceBounds"
proof -
  obtain ec where ec: "NewEncryptedConn (demo_conn\<lparr>conn_in := put_uint32 200000\<rparr>) ''secret'' None = Ok ec"
    using NewEncryptedConn_total by blast
  with ec_Read_length_prefix [of ec 200000 "[]" 4096] NewEncryptedConn_Ok [OF ec]
  show ?thesis by (auto simp: demo_conn_def)
qed

text \<open>
  C29: \<open>removePadding\<close> is the inverse of the padding layout on lengths up to 65533, and it panics exactly
  on buffers whose 16-bit length field is 65534 or 65535 and is covered by the buffer: there the upper
  slice bound \<open>2+origLen\<close> wraps around to 0 or 1.
\<close>

theorem removePadding_panics_iff:
  "(removePadding d = Panic p \<longleftrightarrow>
     p = SliceBounds \<and> (\<exists>v. uint16_be d = Ok v \<and> 65534 \<le> unat v \<and> unat v + 2 \<le> length d)) \<and>
   (length x \<le> 65533 \<longrightarrow> removePadding (put_uint16 (word_of_nat (length x)) @ x @ pad) = Ok (Some x))"
proof -
  have key: "removePadding d = Panic p \<longleftrightarrow> p = SliceBounds \<and> 65534 \<le> unat v \<and> unat v + 2 \<le> length d"
    if v: "uint16_be d = Ok v" and l: "2 \<le> length d" for v
  proof -
    have "unat v < 2 ^ LENGTH(16)" by (rule unsigned_less)
    then have "unat v < 65536" by simp
    then have "unat (2 + v) = (if 65534 \<le> unat v then unat v - 65534 else unat v + 2)"
      by (auto simp: unat_word_ariths mod_if)
    then show ?thesis
      using v l \<open>unat v < 65536\<close> by (auto simp: removePadding_def uint16_be_take slice_def)
  qed
  have "2 \<le> length d" if "uint16_be d = Ok v" for v
    using that by (cases d rule: uint16_be.cases) auto
  moreover have "\<exists>v. uint16_be d = Ok v" if "2 \<le> length d"
    using that by (cases d rule: uint16_be.cases) auto
  moreover have "removePadding d \<noteq> Panic p" if "\<not> 2 \<le> length d"
    using that by (simp add: removePadding_def)
  ultimately show ?thesis using key removePadding_layout by blast
qed

theorem removePadding_panics_iff_witness:
  "removePadding (put_uint16 65535 @ replicate 65535 0) = Panic SliceBounds \<and>
   removePadding (put_uint16 3 @ [1, 2, 3] @ [9, 9]) = Ok (Some [1, 2, 3])"
proof -
  have "uint16_be (put_uint16 65535 @ replicate 65535 0) = Ok 65535" by (rule uint16_be_put)
  then have "removePadding (put_uint16 65535 @ replicate 65535 0) = Panic SliceBounds"
    using removePadding_panics_iff [of "put_uint16 65535 @ replicate 65535 0" SliceBounds] by force
  moreover have "removePadding (put_uint16 3 @ [1, 2, 3] @ [9, 9]) = Ok (Some [1, 2, 3])"
    using removePadding_panics_iff [of _ _ "[1, 2, 3]" "[9, 9]"] by simp
  ultimately show ?thesis ..
qed

lemma removePadding_long:
  assumes "length data mod 65536 \<le> 65533"
  shows "removePadding (put_uint16 (word_of_nat (length data)) @ data @ pad)
    = Ok (Some (take (length data mod 65536) data))"
proof -
  let ?v = "word_of_nat (length data) :: 16 word"
  have v: "unat ?v = length data mod 65536" by (simp add: unat_len)
  have "unat (2 + ?v) = 2 + length data mod 65536"
    using assms v by (simp add: unat_word_ariths)
  moreover have "length data mod 65536 \<le> length data" by simp
  ultimately show ?thesis
    using assms v by (simp add: removePadding_def wire_simps slice_def min_def)
qed

text \<open>
  C30: data of 65536 bytes or more does not survive padding.  Up to 98000 bytes, with a length that leaves at most
  65533 modulo 65536, \<open>Write\<close> reports the full length, but the length field keeps only the low 16 bits, and the
  peer's \<open>Read\<close> delivers the data cut to its length modulo 65536.
\<close>

theorem ec_Write_truncates_long_data:
  assumes "ec_obfs ec = Some ob" "obfs_Enabled ob" "obfs_ok (Some ob)" "aead_ok (ec_gcm ec) 16"
    and "65536 \<le> length data" "length data \<le> 98000" "length data mod 65536 \<le> 65533"
    and "12 \<le> length (rnd_nonce r)" "\<not> conn_closed (ec_conn ec)" "conn_room (ec_conn ec) = None"
  shows "\<exists>ec' pkt dl. ec_Write ec r buf data = (ec', Ok (length data, dl)) \<and>
    conn_out (ec_conn ec') = conn_out (ec_conn ec) @ pkt \<and>
    packet_for ec (take (length data mod 65536) data) pkt"
proof -
  have b: "0 \<le> obfs_MinPadding ob" "obfs_MinPadding ob \<le> 32768" "\<bar>obfs_MaxPadding ob\<bar> \<le> 32768"
    using assms(2,3) by (auto simp: obfs_ok_def)
  have pl: "0 \<le> padLen ob (rnd_pad r)" "padLen ob (rnd_pad r) \<le> 32768"
    using padLen_bounds [of ob "rnd_pad r"] b by auto
  then have "2 + int (length data) + padLen ob (rnd_pad r) \<le> 2 ^ 48" using assms(6) by simp
  from addPaddingBuf_layout [OF pl(1) this, of buf] obtain pad where pad:
    "length pad = nat (padLen ob (rnd_pad r))"
    "addPaddingBuf data ob (rnd_pad r) buf = Ok (put_uint16 (word_of_nat (length data)) @ data @ pad)" .
  let ?payload = "put_uint16 (word_of_nat (length data)) @ data @ pad"
  have "packet_fits (ec_gcm ec) 16 ?payload"
    using pad(1) pl assms(6) by (auto simp: packet_fits_def bufferSize_def put_uint16_def split: option.splits)
  from frame_packet_ok [OF assms(4) this disjI2 [OF assms(8)]] obtain body where body:
    "frame_packet (ec_gcm ec) (rnd_nonce r) ?payload = Ok (put_uint32 (word_of_nat (length body)) @ body)"
    "body \<noteq> []" "length body + 4 \<le> bufferSize" "open_packet (ec_gcm ec) body = Ok ?payload" .
  have "packet_for ec (take (length data mod 65536) data) (put_uint32 (word_of_nat (length body)) @ body)"
    using read_packet_frame body removePadding_long [OF assms(7)] assms(1,2)
    by (auto simp: packet_for_def strip_padding_def obfs_on_def)
  then show ?thesis
    using assms(1,2,9,10) pad(2) body(1)
    by (simp add: ec_Write_def write_payload_def conn_write_unlimited)
qed

theorem ec_Write_truncates_long_data_witness:
  "\<exists>ec ec' pkt dl. NewEncryptedConn demo_conn ''secret'' (Some demo_obfs) = Ok ec \<and>
     ec_Write ec demo_rand [] (replicate 65540 1) = (ec', Ok (65540, dl)) \<and>
     conn_out (ec_conn ec') = pkt \<and> packet_for ec [1, 1, 1, 1] pkt"
proof -
  obtain ec where ec: "NewEncryptedConn demo_conn ''secret'' (Some demo_obfs) = Ok ec"
    using NewEncryptedConn_total by blast
  have "replicate 4 (1 :: byte) = [1, 1, 1, 1]" by (simp add: eval_nat_numeral)
  then have t: "take (65540 mod 65536) (replicate 65540 (1 :: byte)) = [1, 1, 1, 1]" by simp
  have "\<exists>ec' pkt dl. ec_Write ec demo_rand [] (replicate 65540 1) = (ec', Ok (65540, dl)) \<and>
    conn_out (ec_conn ec') = pkt \<and> packet_for ec (take (65540 mod 65536) (replicate 65540 1)) pkt"
    using ec_Write_truncates_long_data [of ec demo_obfs "replicate 65540 1" demo_rand "[]"]
      NewEncryptedConn_Ok [OF ec]
    by (simp add: demo_obfs_def demo_rand_def demo_conn_def obfs_ok_def del: take_replicate)
  then show ?thesis using ec t by metis
qed

text \<open>
  C9: with a PSK, \<open>Read\<close> delivers authenticated data only.  If a call that finds no buffered rest
  succeeds, the bytes it took off the wire are a length prefix, a 12-byte nonce and the sealing under the
  session key of some payload, and what it delivers plus what it buffers is that payload without padding.
\<close>

theorem ec_Read_authentic:
  assumes "NewEncryptedConn c psk obfs = Ok ec" "psk \<noteq> ''''"
    and "ec_Read ec n = (ec', Ok b)"
  shows "\<exists>hdr nonce payload rest.
    conn_in c = hdr @ nonce @ Seal (NewGCM (aes_encrypt (Sum256 (bytes_of psk)))) nonce payload @ rest \<and>
    length hdr = 4 \<and> length nonce = 12 \<and> conn_in (ec_conn ec') = rest \<and>
    strip_padding obfs payload = Ok (b @ ec_readBuf ec')"
proof -
  let ?g = "NewGCM (aes_encrypt (Sum256 (bytes_of psk)))"
  have e: "ec_conn ec = c" "ec_obfs ec = obfs" "ec_readBuf ec = []" "ec_gcm ec = Some ?g"
    using NewEncryptedConn_Ok [OF assms(1)] assms(2) by auto
  obtain c' pkt payload pt where r: "read_packet c = (c', Ok pkt)" "open_packet (Some ?g) pkt = Ok payload"
    "strip_padding obfs payload = Ok pt" "ec' = ec\<lparr>ec_conn := c', ec_readBuf := drop n pt\<rparr>" "b = take n pt"
    using assms(3) e by (auto simp: ec_Read_def go_simps split: prod.splits outcome.splits)
  obtain hdr where hdr: "conn_in c = hdr @ pkt @ conn_in c'" "length hdr = 4"
    using read_packet_OkE [OF r(1)] .
  have "12 \<le> length pkt" and o: "Open ?g (take 12 pkt) (drop 12 pkt) = Some payload"
    using r(2) by (auto simp: open_packet_def split: if_splits option.splits)
  then have "drop 12 pkt = Seal ?g (take 12 pkt) payload"
    using gcm.open_sealed [of "take 12 pkt"] by (simp add: min_def)
  then have "conn_in c = hdr @ take 12 pkt @ Seal ?g (take 12 pkt) payload @ conn_in c'"
    using hdr(1) by (metis append.assoc append_take_drop_id)
  moreover have "strip_padding obfs payload = Ok (b @ ec_readBuf ec')" "conn_in (ec_conn ec') = conn_in c'"
    using r(3-5) by simp_all
  moreover have "length (take 12 pkt) = 12" using \<open>12 \<le> length pkt\<close> by simp
  ultimately show ?thesis using hdr(2) by blast
qed

theorem ec_Read_authentic_witness:
  "\<exists>pkt ec ec' hdr nonce payload.
     NewEncryptedConn (demo_conn\<lparr>conn_in := pkt\<rparr>) ''secret'' (Some demo_obfs) = Ok ec \<and>
     ec_Read ec 2 = (ec', Ok [104, 101]) \<and>
     pkt = hdr @ nonce @ Seal (NewGCM (aes_encrypt (Sum256 (bytes_of ''secret'')))) nonce payload \<and>
     length hdr = 4 \<and> length nonce = 12 \<and> strip_padding (Some demo_obfs) payload = Ok (bytes_of ''hello'')"
proof -
  obtain w where w: "NewEncryptedConn demo_conn ''secret'' (Some demo_obfs) = Ok w"
    using NewEncryptedConn_total by blast
  have hyps: "aead_ok (ec_gcm w) 16" "obfs_ok (ec_obfs w)" "sendable w (bytes_of ''hello'')"
    "ec_gcm w = None \<or> 12 \<le> length (rnd_nonce demo_rand)" "\<not> conn_closed (ec_conn w)"
    "conn_room (ec_conn w) = None"
    using NewEncryptedConn_Ok [OF w]
    by (simp_all add: obfs_ok_def demo_obfs_def sendable_def obfs_on_def demo_rand_def demo_conn_def)
  obtain pkt where pkt: "packet_for w (bytes_of ''hello'') pkt"
    using ec_Write_packet [OF hyps(1) _ hyps(2-6)] by blast
  let ?c = "demo_conn\<lparr>conn_in := pkt\<rparr>"
  obtain ec where ec: "NewEncryptedConn ?c ''secret'' (Some demo_obfs) = Ok ec"
    using NewEncryptedConn_total by blast
  let ?ec' = "ec\<lparr>ec_conn := (ec_conn ec)\<lparr>conn_in := []\<rparr>, ec_readBuf := drop 2 (bytes_of ''hello'')\<rparr>"
  have rd: "ec_Read ec 2 = (?ec', Ok (take 2 (bytes_of ''hello'')))"
    using NewEncryptedConn_Ok [OF ec] NewEncryptedConn_Ok [OF w]
    by (intro ec_Read_packet [OF pkt]) (auto simp: demo_conn_def)
  from ec_Read_authentic [OF ec _ rd] obtain hdr nonce payload where
    "pkt = hdr @ nonce @ Seal (NewGCM (aes_encrypt (Sum256 (bytes_of ''secret'')))) nonce payload"
    "length hdr = 4" "length nonce = 12"
    "strip_padding (Some demo_obfs) payload = Ok (take 2 (bytes_of ''hello'') @ drop 2 (bytes_of ''hello''))"
    by auto
  moreover have "take 2 (bytes_of ''hello'') = [104, 101]" by (simp add: bytes_of_def)
  ultimately show ?thesis using ec rd by (metis append_take_drop_id)
qed

text \<open>
  the size of a padded payload.  With non-negative bounds it is at least two bytes, the data and
  \<open>MinPadding\<close>; the random part is drawn below \<open>MaxPadding - MinPadding\<close>, so \<open>MaxPadding\<close> itself is
  reached only when it does not exceed \<open>MinPadding\<close>.
\<close>

theorem addPaddingBuf_length:
  assumes "0 \<le> obfs_MinPadding obfs" "obfs_MinPadding obfs \<le> 2 ^ 40" "\<bar>obfs_MaxPadding obfs\<bar> \<le> 2 ^ 40"
    and "length data \<le> 2 ^ 40"
  shows "\<exists>out. addPaddingBuf data obfs r buf = Ok out \<and>
    2 + int (length data) + obfs_MinPadding obfs \<le> int (length out) \<and>
    int (length out) \<le> 2 + int (length data) + max (obfs_MinPadding obfs) (obfs_MaxPadding obfs - 1)"
proof -
  have pl: "obfs_MinPadding obfs \<le> padLen obfs r" "padLen obfs r \<le> max (obfs_MinPadding obfs) (obfs_MaxPadding obfs - 1)"
    using assms by (intro padLen_bounds; simp)+
  then have "0 \<le> padLen obfs r" "2 + int (length data) + padLen obfs r \<le> 2 ^ 48"
    using assms by auto
  from addPaddingBuf_layout [OF this, of buf] obtain pad where
    "length pad = nat (padLen obfs r)"
    "addPaddingBuf data obfs r buf = Ok (put_uint16 (word_of_nat (length data)) @ data @ pad)" .
  then show ?thesis using pl assms(1) by simp
qed

theorem addPaddingBuf_length_witness:
  "\<exists>out. addPaddingBuf (bytes_of ''hello'') demo_obfs (rnd_pad demo_rand) (replicate 64 0) = Ok out \<and>
     11 \<le> int (length out) \<and> int (length out) \<le> 38"
  using addPaddingBuf_length [of demo_obfs "bytes_of ''hello''" "rnd_pad demo_rand" "replicate 64 0"]
  by (simp add: demo_obfs_def)

end
