(* ===== verification/Go_Float.thy ===== *)
theory Go_Float
  imports Complex_Main
begin

text \<open>
  Go's \<open>float64\<close> on the values the program computes with: finite numbers of the normal range, as
  rationals, with the result of every operation rounded to the nearest 53-bit significand, ties to even.
\<close>

fun bit_len :: "nat \<Rightarrow> nat" where
  "bit_len n = (if n = 0 then 0 else Suc (bit_len (n div 2)))"

declare bit_len.simps [simp del]

text \<open>The exponent \<open>k\<close> with \<open>2^k \<le> n/d < 2^(k+1)\<close>, for positive \<open>n\<close> and \<open>d\<close>.\<close>

definition pow2 :: "int \<Rightarrow> rat" where
  "pow2 k = (if 0 \<le> k then 2 ^ nat k else 1 / 2 ^ nat (- k))"

definition floor_log2 :: "rat \<Rightarrow> int" where
  "floor_log2 x =
     (case quotient_of x of (n, d) \<Rightarrow>
        let k = int (bit_len (nat \<bar>n\<bar>)) - int (bit_len (nat d))
        in if pow2 k \<le> \<bar>x\<bar> then k else k - 1)"

definition round_half_even :: "rat \<Rightarrow> int" where
  "round_half_even x =
     (let f = \<lfloor>x\<rfloor>; d = x - of_int f
      in if d < 1 / 2 then f else if 1 / 2 < d then f + 1 else if even f then f else f + 1)"

definition float64_round :: "rat \<Rightarrow> rat" where
  "float64_round x =
     (if x = 0 then 0
      else let e = floor_log2 x - 52 in of_int (round_half_even (x / pow2 e)) * pow2 e)"

definition float64_mul :: "rat \<Rightarrow> rat \<Rightarrow> rat" where
  "float64_mul x y = float64_round (x * y)"

definition float64_div :: "rat \<Rightarrow> rat \<Rightarrow> rat" where
  "float64_div x y = float64_round (x / y)"

text \<open>The conversion \<open>int(f)\<close> discards the fraction.\<close>

definition float64_to_int :: "rat \<Rightarrow> int" where
  "float64_to_int x = (if 0 \<le> x then \<lfloor>x\<rfloor> else - \<lfloor>- x\<rfloor>)"

lemma round_half_even_int [simp]: "round_half_even (of_int i) = i"
  by (simp add: round_half_even_def Let_def)

lemma round_half_even_nonneg: "0 \<le> x \<Longrightarrow> 0 \<le> round_half_even x"
  by (simp add: round_half_even_def Let_def)

lemma pow2_pos: "0 < pow2 k"
  by (simp add: pow2_def)

lemma float64_round_nonneg: "0 \<le> x \<Longrightarrow> 0 \<le> float64_round x"
  by (auto simp: float64_round_def Let_def pow2_pos less_imp_le intro!: mult_nonneg_nonneg round_half_even_nonneg
      divide_nonneg_pos)

section \<open>Rounding is monotone\<close>

lemma bit_len_bounds: "0 < n \<Longrightarrow> 2 ^ (bit_len n - 1) \<le> n \<and> n < 2 ^ bit_len n \<and> 0 < bit_len n"
proof (induction n rule: bit_len.induct)
  case (1 n)
  show ?case
  proof (cases "n div 2 = 0")
    case True
    then have "n = 1" using 1(2) by linarith
    then show ?thesis by (simp add: bit_len.simps)
  next
    case False
    then have IH: "2 ^ (bit_len (n div 2) - 1) \<le> n div 2" "n div 2 < 2 ^ bit_len (n div 2)" "0 < bit_len (n div 2)"
      using 1 by auto
    have b: "bit_len n = Suc (bit_len (n div 2))" using 1(2) by (simp add: bit_len.simps [of n])
    have "(2 :: nat) ^ bit_len (n div 2) = 2 * 2 ^ (bit_len (n div 2) - 1)" using IH(3) by (cases "bit_len (n div 2)") simp_all
    moreover have "2 * (n div 2) \<le> n" "n < 2 * (n div 2) + 2" by linarith+
    ultimately have "2 ^ bit_len (n div 2) \<le> n" "n < 2 * 2 ^ bit_len (n div 2)" using IH by linarith+
    then show ?thesis by (simp add: b)
  qed
qed

lemma pow2_add: "pow2 (a + b) = pow2 a * pow2 b"
proof -
  have p: "pow2 k = 2 powi k" for k by (simp add: pow2_def power_int_def field_simps)
  show ?thesis by (simp add: p power_int_add)
qed

lemma pow2_Suc: "pow2 (k + 1) = 2 * pow2 k"
  by (simp add: pow2_add) (simp add: pow2_def)

lemma pow2_nat: "pow2 (int n) = 2 ^ n"
  by (simp add: pow2_def)

lemma pow2_mono: "a \<le> b \<Longrightarrow> pow2 a \<le> pow2 b"
proof -
  assume "a \<le> b"
  then obtain n where "b = a + int n" using zle_iff_zadd by blast
  then show ?thesis using pow2_pos [of a] by (simp add: pow2_add pow2_nat)
qed

lemma floor_log2_bounds:
  assumes "0 < x"
  shows "pow2 (floor_log2 x) \<le> x \<and> x < pow2 (floor_log2 x + 1)"
proof -
  obtain n d where q: "quotient_of x = (n, d)" by fastforce
  then have d: "0 < d" and x: "x = of_int n / of_int d" by (auto intro: quotient_of_denom_pos quotient_of_div)
  have n: "0 < n" using assms d by (auto simp: x zero_less_divide_iff)
  define a b where "a = bit_len (nat n)" and "b = bit_len (nat d)"
  have bits: "pow2 (int (bit_len (nat m)) - 1) \<le> of_int m \<and> of_int m < pow2 (int (bit_len (nat m)))"
    if "0 < m" for m :: int
  proof -
    let ?l = "bit_len (nat m)"
    have l: "2 ^ (?l - 1) \<le> nat m" "nat m < 2 ^ ?l" "0 < ?l" using bit_len_bounds [of "nat m"] that by auto
    have "pow2 (int ?l - 1) = of_nat (2 ^ (?l - 1))" "pow2 (int ?l) = of_nat (2 ^ ?l)"
      using pow2_nat [of "?l - 1"] pow2_nat [of ?l] l(3) by (simp_all add: of_nat_diff)
    moreover have "(of_int m :: rat) = of_nat (nat m)" using that by simp
    ultimately show ?thesis using l(1,2) by (simp only: of_nat_le_iff of_nat_less_iff)
  qed
  have na: "pow2 (int a - 1) \<le> of_int n" "of_int n < pow2 (int a)" using bits [OF n] by (auto simp: a_def)
  have db: "pow2 (int b - 1) \<le> of_int d" "of_int d < pow2 (int b)" using bits [OF d] by (auto simp: b_def)
  let ?k = "int a - int b"
  have f: "floor_log2 x = (if pow2 ?k \<le> x then ?k else ?k - 1)"
    using n d assms by (simp add: floor_log2_def q a_def b_def Let_def)
  have dp: "0 < (of_int d :: rat)" using d by simp
  have "x < pow2 (?k + 1)"
  proof -
    have "of_int n < pow2 (?k + 1) * pow2 (int b - 1)" using na(2) by (simp add: pow2_add [symmetric])
    also have "\<dots> \<le> pow2 (?k + 1) * of_int d" using db(1) pow2_pos [of "?k + 1"] by simp
    finally show ?thesis using dp by (simp add: x field_simps)
  qed
  moreover have "pow2 (?k - 1) \<le> x"
  proof -
    have "pow2 (?k - 1) * of_int d \<le> pow2 (?k - 1) * pow2 (int b)" using db(2) pow2_pos [of "?k - 1"] by simp
    also have "\<dots> \<le> of_int n" using na(1) by (simp add: pow2_add [symmetric])
    finally show ?thesis using dp by (simp add: x field_simps)
  qed
  ultimately show ?thesis by (simp add: f)
qed

lemma round_half_even_mono: "x \<le> y \<Longrightarrow> round_half_even x \<le> round_half_even y"
proof -
  assume xy: "x \<le> y"
  show ?thesis
  proof (cases "\<lfloor>x\<rfloor> = \<lfloor>y\<rfloor>")
    case True
    then show ?thesis using xy by (auto simp: round_half_even_def Let_def)
  next
    case False
    then have "\<lfloor>x\<rfloor> + 1 \<le> \<lfloor>y\<rfloor>" using floor_mono [OF xy] by linarith
    moreover have "round_half_even x \<le> \<lfloor>x\<rfloor> + 1" "\<lfloor>y\<rfloor> \<le> round_half_even y"
      by (simp_all add: round_half_even_def Let_def)
    ultimately show ?thesis by linarith
  qed
qed

text \<open>The rounded value stays within the binade, its upper end included.\<close>

lemma float64_round_binade:
  assumes "0 < x"
  shows "pow2 (floor_log2 x) \<le> float64_round x \<and> float64_round x \<le> pow2 (floor_log2 x + 1)"
proof -
  let ?k = "floor_log2 x" let ?e = "?k - 52"
  have b: "pow2 ?k \<le> x" "x < pow2 (?k + 1)" using floor_log2_bounds [OF assms] by blast+
  have k: "pow2 ?k = of_int (2 ^ 52) * pow2 ?e" "pow2 (?k + 1) = of_int (2 ^ 53) * pow2 ?e"
    using pow2_add [of 52 ?e] pow2_add [of 53 ?e] by (simp_all add: pow2_def [of 52] pow2_def [of 53] add.commute)
  have "of_int (2 ^ 52) \<le> x / pow2 ?e" "x / pow2 ?e \<le> of_int (2 ^ 53)"
    using b pow2_pos [of ?e] unfolding k by (simp_all add: pos_le_divide_eq pos_divide_le_eq)
  then have "2 ^ 52 \<le> round_half_even (x / pow2 ?e)" "round_half_even (x / pow2 ?e) \<le> 2 ^ 53"
    using round_half_even_mono [of "of_int (2 ^ 52)" "x / pow2 ?e"] round_half_even_mono [of "x / pow2 ?e" "of_int (2 ^ 53)"]
    by (simp_all only: round_half_even_int)
  then have "of_int (2 ^ 52) * pow2 ?e \<le> of_int (round_half_even (x / pow2 ?e)) * pow2 ?e"
    "of_int (round_half_even (x / pow2 ?e)) * pow2 ?e \<le> of_int (2 ^ 53) * pow2 ?e"
    using pow2_pos [of ?e] by (simp_all only: mult_le_cancel_right_pos of_int_le_iff)
  then show ?thesis using assms unfolding k float64_round_def Let_def by simp
qed

lemma float64_round_mono:
  assumes "0 \<le> x" "x \<le> y"
  shows "float64_round x \<le> float64_round y"
proof (cases "x = 0")
  case True
  then show ?thesis using assms float64_round_nonneg [of y] by (simp add: float64_round_def)
next
  case False
  then have pos: "0 < x" "0 < y" using assms by auto
  note bx = floor_log2_bounds [OF pos(1)] and byy = floor_log2_bounds [OF pos(2)]
  have "pow2 (floor_log2 x) < pow2 (floor_log2 y + 1)" using bx byy assms(2) by linarith
  then have le: "floor_log2 x \<le> floor_log2 y" using pow2_mono [of "floor_log2 y + 1" "floor_log2 x"] by force
  show ?thesis
  proof (cases "floor_log2 x = floor_log2 y")
    case True
    let ?e = "floor_log2 y - 52"
    have "round_half_even (x / pow2 ?e) \<le> round_half_even (y / pow2 ?e)"
      using assms(2) pow2_pos [of ?e] by (intro round_half_even_mono) (simp add: field_simps)
    then show ?thesis using pos pow2_pos [of ?e] by (simp add: float64_round_def Let_def True)
  next
    case False
    then have "pow2 (floor_log2 x + 1) \<le> pow2 (floor_log2 y)" using le by (intro pow2_mono) linarith
    then show ?thesis
      using float64_round_binade [OF pos(1)] float64_round_binade [OF pos(2)] by linarith
  qed
qed

end
