(* ===== verification/Config.thy ===== *)
theory Config
  imports Encrypted_Conn Go_Float
begin

text \<open>
  \<^verbatim>\<open>config.go\<close> and \<^verbatim>\<open>utils.go\<close>: the configuration record, the passes that complete it
  (\<open>applyBaseDefaults\<close>, \<open>applyProfile\<close>, \<open>mapDaggerToLegacy\<close>, \<open>syncAliases\<close>), the loader, the
  validator and the parser of port mappings.  The YAML decoder is a third-party package: it is the
  argument \<open>unmarshal\<close> of \<open>LoadConfig\<close>, which fills a record of defaults from a file's bytes.
\<close>

section \<open>Data\<close>

record DNSConfig =
  dns_Enabled :: bool
  dns_Listen :: string
  dns_Upstream :: string

record PathConfig =
  path_Transport :: string
  path_Addr :: string
  path_ConnectionPool :: int
  path_AggressivePool :: bool
  path_RetryInterval :: int
  path_DialTimeout :: int

record DaggerMap =
  map_Type :: string
  map_Bind :: string
  map_Target :: string

record SmuxConfig =
  smux_KeepAlive :: int
  smux_MaxRecv :: int
  smux_MaxStream :: int
  smux_FrameSize :: int
  smux_Version :: int

record AdvancedConfig =
  adv_TCPNoDelay :: bool
  adv_TCPKeepAlive :: int
  adv_TCPReadBuffer :: int
  adv_TCPWriteBuffer :: int
  adv_WebSocketReadBuffer :: int
  adv_WebSocketWriteBuffer :: int
  adv_WebSocketCompression :: bool
  adv_CleanupInterval :: int
  adv_SessionTimeout :: int
  adv_ConnectionTimeout :: int
  adv_StreamTimeout :: int
  adv_MaxConnections :: int
  adv_MaxUDPFlows :: int
  adv_UDPFlowTimeout :: int
  adv_UDPBufferSize :: int

record HTTPMimicCompat =
  hm_FakeDomain :: string
  hm_FakePath :: string
  hm_UserAgent :: string
  hm_ChunkedEncoding :: bool
  hm_SessionCookie :: bool
  hm_CustomHeaders :: "string list"

record ObfsCompat =
  oc_Enabled :: bool
  oc_MinPadding :: int
  oc_MaxPadding :: int
  oc_MinDelayMS :: int
  oc_MaxDelayMS :: int
  oc_BurstChance :: rat

record MimicConfig =
  FakeDomain :: string
  FakePath :: string
  UserAgent :: string
  CustomHeaders :: "string list"
  SessionCookie :: bool
  Chunked :: bool

record FragmentConfig =
  frag_Enabled :: bool
  frag_MinSize :: int
  frag_MaxSize :: int
  frag_MinDelay :: int
  frag_MaxDelay :: int

record DashboardConfig =
  dash_Enabled :: bool
  dash_Listen :: string
  dash_User :: string
  dash_Pass :: string
  dash_SessionSecret :: string

record Config =
  Mode :: string
  Listen :: string
  Transport :: string
  PSK :: string
  Profile :: string
  Verbose :: bool
  CertFile :: string
  KeyFile :: string
  MaxSessions :: int
  Heartbeat :: int
  SkipTLSVerify :: bool
  Compression :: string
  NumConnections :: int
  EnableDecoy :: bool
  DecoyInterval :: int
  EmbedFakeHeaders :: bool
  Maps :: "DaggerMap list"
  Paths :: "PathConfig list"
  Smux :: SmuxConfig
  Advanced :: AdvancedConfig
  Obfuscation :: ObfsCompat
  HTTPMimic :: HTTPMimicCompat
  Fragment :: FragmentConfig
  ServerURL :: string
  SessionID :: string
  ForwardTCP :: "string list"
  ForwardUDP :: "string list"
  Mimic :: MimicConfig
  Obfs :: ObfsConfig
  cfg_SessionTimeout :: int
  DNS :: DNSConfig
  Dashboard :: DashboardConfig

section \<open>Passes\<close>

text \<open>The two defaulting statements of the passes: \<open>if x <= 0 { x = d }\<close> and \<open>if s == "" { s = d }\<close>.\<close>

definition pos_or :: "int \<Rightarrow> int \<Rightarrow> int" where
  "pos_or x d = (if x \<le> 0 then d else x)"

definition str_or :: "string \<Rightarrow> string \<Rightarrow> string" where
  "str_or s d = (if s = '''' then d else s)"

lemma pos_or_pos: "0 < d \<Longrightarrow> 0 < pos_or x d"
  by (simp add: pos_or_def)

lemma pos_or_id [simp]: "0 < x \<Longrightarrow> pos_or x d = x"
  by (simp add: pos_or_def)

lemma str_or_id [simp]: "s \<noteq> '''' \<Longrightarrow> str_or s d = s"
  by (simp add: str_or_def)

definition normalizePath :: "string \<Rightarrow> string" where
  "normalizePath p =
     (let p = trim_space p in
      if p = '''' then ''''
      else if \<not> has_prefix p ''/'' then ''/'' @ p else p)"

definition base_smux :: "SmuxConfig \<Rightarrow> SmuxConfig" where
  "base_smux s = s\<lparr>
     smux_KeepAlive := pos_or (smux_KeepAlive s) 10,
     smux_MaxRecv := pos_or (smux_MaxRecv s) 8388608,
     smux_MaxStream := pos_or (smux_MaxStream s) 8388608,
     smux_FrameSize := pos_or (smux_FrameSize s) 32768,
     smux_Version := pos_or (smux_Version s) 2\<rparr>"

definition base_mimic :: "HTTPMimicCompat \<Rightarrow> HTTPMimicCompat" where
  "base_mimic h = h\<lparr>
     hm_FakeDomain := str_or (hm_FakeDomain h) ''www.google.com'',
     hm_FakePath := normalizePath (str_or (hm_FakePath h) ''/search''),
     hm_UserAgent := str_or (hm_UserAgent h)
       ''Mozilla/5.0 (Windows NT 10.0; Win64; x64) AppleWebKit/537.36''\<rparr>"

definition base_obfs :: "ObfsCompat \<Rightarrow> ObfsCompat" where
  "base_obfs ob = ob\<lparr>
     oc_MinPadding := pos_or (oc_MinPadding ob) 4,
     oc_MaxPadding := pos_or (oc_MaxPadding ob) 32\<rparr>"

definition base_advanced :: "AdvancedConfig \<Rightarrow> AdvancedConfig" where
  "base_advanced a = a\<lparr>
     adv_TCPKeepAlive := pos_or (adv_TCPKeepAlive a) 15,
     adv_TCPNoDelay := True\<rparr>"

definition tls_transport :: "string \<Rightarrow> bool" where
  "tls_transport t \<longleftrightarrow> t = ''httpsmux'' \<or> t = ''wssmux''"

definition base_fragment :: "string \<Rightarrow> FragmentConfig \<Rightarrow> FragmentConfig" where
  "base_fragment transport f = f\<lparr>
     frag_MinSize := pos_or (frag_MinSize f) 64,
     frag_MaxSize := pos_or (frag_MaxSize f) 191,
     frag_MinDelay := pos_or (frag_MinDelay f) 1,
     frag_MaxDelay := pos_or (frag_MaxDelay f) 2,
     frag_Enabled := frag_Enabled f \<or> tls_transport (to_lower transport)\<rparr>"

definition applyBaseDefaults :: "Config \<Rightarrow> Config" where
  "applyBaseDefaults c = c\<lparr>
     Profile := str_or (Profile c) ''balanced'',
     Heartbeat := pos_or (Heartbeat c) 10,
     cfg_SessionTimeout :=
       (if adv_SessionTimeout (Advanced c) > 0 then adv_SessionTimeout (Advanced c)
        else pos_or (cfg_SessionTimeout c) 30),
     Smux := base_smux (Smux c),
     HTTPMimic := base_mimic (HTTPMimic c),
     Obfuscation := base_obfs (Obfuscation c),
     NumConnections := pos_or (NumConnections c) 4,
     DecoyInterval := pos_or (DecoyInterval c) 5,
     Advanced := base_advanced (Advanced c),
     Fragment := base_fragment (Transport c) (Fragment c)\<rparr>"

definition at_least :: "int \<Rightarrow> int \<Rightarrow> int" where
  "at_least x lo = (if x < lo then lo else x)"

definition in_or :: "int \<Rightarrow> int \<Rightarrow> int" where
  "in_or x hi = (if x \<le> 0 \<or> x > hi then hi else x)"

definition aggressive_path :: "PathConfig \<Rightarrow> PathConfig" where
  "aggressive_path p = p\<lparr>
     path_ConnectionPool := at_least (path_ConnectionPool p) 4,
     path_AggressivePool := True,
     path_RetryInterval := in_or (path_RetryInterval p) 2,
     path_DialTimeout := pos_or (path_DialTimeout p) 10\<rparr>"

definition default_path :: "int \<Rightarrow> int \<Rightarrow> PathConfig \<Rightarrow> PathConfig" where
  "default_path pool retry p = p\<lparr>
     path_ConnectionPool := pos_or (path_ConnectionPool p) pool,
     path_RetryInterval := pos_or (path_RetryInterval p) retry,
     path_DialTimeout := pos_or (path_DialTimeout p) 10\<rparr>"

definition no_delay :: "ObfsCompat \<Rightarrow> ObfsCompat" where
  "no_delay ob = ob\<lparr>oc_MinDelayMS := 0, oc_MaxDelayMS := 0\<rparr>"

definition profile_aggressive :: "Config \<Rightarrow> Config" where
  "profile_aggressive c = c\<lparr>
    Fragment := (Fragment c)\<lparr>frag_Enabled := True\<rparr>,
    Smux := (Smux c)\<lparr>
      smux_KeepAlive := in_or (smux_KeepAlive (Smux c)) 5,
      smux_FrameSize := at_least (smux_FrameSize (Smux c)) 32768,
      smux_MaxRecv := at_least (smux_MaxRecv (Smux c)) 8388608,
      smux_MaxStream := at_least (smux_MaxStream (Smux c)) 8388608\<rparr>,
    Advanced := (Advanced c)\<lparr>
      adv_TCPReadBuffer := at_least (adv_TCPReadBuffer (Advanced c)) 8388608,
      adv_TCPWriteBuffer := at_least (adv_TCPWriteBuffer (Advanced c)) 8388608\<rparr>,
    Obfuscation := (no_delay (Obfuscation c))\<lparr>
      oc_Enabled := True,
      oc_MaxPadding := (if oc_MaxPadding (Obfuscation c) > 64 then 64 else oc_MaxPadding (Obfuscation c))\<rparr>,
    HTTPMimic := (HTTPMimic c)\<lparr>hm_ChunkedEncoding := False\<rparr>,
    Compression := ''snappy'',
    Paths := map aggressive_path (Paths c)\<rparr>"

definition profile_stable :: "Config \<Rightarrow> Config" where
  "profile_stable c = c\<lparr>
    Smux := (Smux c)\<lparr>
      smux_KeepAlive := in_or (smux_KeepAlive (Smux c)) 15,
      smux_FrameSize := pos_or (smux_FrameSize (Smux c)) 32768,
      smux_MaxRecv := in_or (smux_MaxRecv (Smux c)) 2097152,
      smux_MaxStream := in_or (smux_MaxStream (Smux c)) 1048576\<rparr>,
    Obfuscation := no_delay (Obfuscation c),
    Paths := map (default_path 2 3) (Paths c)\<rparr>"

definition profile_latency :: "Config \<Rightarrow> Config" where
  "profile_latency c = c\<lparr>
    Smux := (Smux c)\<lparr>
      smux_KeepAlive := in_or (smux_KeepAlive (Smux c)) 5,
      smux_FrameSize := at_least (smux_FrameSize (Smux c)) 32768\<rparr>,
    Obfuscation := no_delay (Obfuscation c),
    Paths := map (default_path 3 2) (Paths c)\<rparr>"

definition profile_default :: "Config \<Rightarrow> Config" where
  "profile_default c = c\<lparr>Paths := map (default_path 2 3) (Paths c)\<rparr>"

definition applyProfile :: "Config \<Rightarrow> Config" where
  "applyProfile c =
     (if Profile c = ''aggressive'' then profile_aggressive c
      else if Profile c = ''stable'' then profile_stable c
      else if Profile c = ''latency'' then profile_latency c
      else profile_default c)"

lemmas profile_defs = profile_aggressive_def profile_stable_def profile_latency_def profile_default_def

definition sync_mimic :: "HTTPMimicCompat \<Rightarrow> MimicConfig \<Rightarrow> MimicConfig" where
  "sync_mimic h m = m\<lparr>
     FakeDomain := str_or (FakeDomain m) (hm_FakeDomain h),
     FakePath := str_or (FakePath m) (hm_FakePath h),
     UserAgent := str_or (UserAgent m) (hm_UserAgent h),
     CustomHeaders := (if CustomHeaders m = [] then hm_CustomHeaders h else CustomHeaders m),
     Chunked := hm_ChunkedEncoding h,
     SessionCookie := hm_SessionCookie h\<rparr>"

definition sync_obfs :: "ObfsCompat \<Rightarrow> ObfsConfig \<Rightarrow> ObfsConfig" where
  "sync_obfs ob m = m\<lparr>
     obfs_Enabled := obfs_Enabled m \<or> oc_Enabled ob,
     obfs_MinPadding := pos_or (obfs_MinPadding m) (oc_MinPadding ob),
     obfs_MaxPadding := pos_or (obfs_MaxPadding m) (oc_MaxPadding ob),
     obfs_MinDelayMS := pos_or (obfs_MinDelayMS m) (oc_MinDelayMS ob),
     obfs_MaxDelayMS := pos_or (obfs_MaxDelayMS m) (oc_MaxDelayMS ob),
     obfs_BurstChance := pos_or (obfs_BurstChance m) (float64_to_int (float64_mul (oc_BurstChance ob) 1000))\<rparr>"

definition syncAliases :: "Config \<Rightarrow> Config" where
  "syncAliases c = c\<lparr>Mimic := sync_mimic (HTTPMimic c) (Mimic c), Obfs := sync_obfs (Obfuscation c) (Obfs c)\<rparr>"

text \<open>The loop of \<open>mapDaggerToLegacy\<close> over the maps: the TCP and UDP entries appended so far.\<close>

fun dagger_entries :: "DaggerMap list \<Rightarrow> string list \<times> string list \<Rightarrow> string list \<times> string list" where
  "dagger_entries [] (tcp, udp) = (tcp, udp)"
| "dagger_entries (m # ms) (tcp, udp) =
     (let entry = trim_space (map_Bind m) @ ''->'' @ trim_space (map_Target m);
          ty = to_lower (trim_space (map_Type m))
      in dagger_entries ms
           (if ty = ''udp'' then (tcp, udp @ [entry])
            else if ty = ''both'' then (tcp @ [entry], udp @ [entry])
            else (tcp @ [entry], udp)))"

definition mapDaggerToLegacy :: "Config \<Rightarrow> Config" where
  "mapDaggerToLegacy c =
     (if ForwardTCP c = [] \<and> ForwardUDP c = []
      then (case dagger_entries (Maps c) (ForwardTCP c, ForwardUDP c) of
              (tcp, udp) \<Rightarrow> c\<lparr>ForwardTCP := tcp, ForwardUDP := udp\<rparr>)
      else c)"

section \<open>Validation and loading\<close>

fun first_empty_addr :: "PathConfig list \<Rightarrow> bool" where
  "first_empty_addr [] \<longleftrightarrow> False"
| "first_empty_addr (p # ps) \<longleftrightarrow> trim_space (path_Addr p) = '''' \<or> first_empty_addr ps"

definition validTransports :: "string list" where
  "validTransports = [''tcpmux'', ''httpmux'', ''httpsmux'', ''wsmux'', ''wssmux'', '''']"

definition validCompression :: "string list" where
  "validCompression = ['''', ''none'', ''snappy'']"

definition Validate :: "Config \<Rightarrow> goerror option" where
  "Validate c =
     (if Mode c \<noteq> ''server'' \<and> Mode c \<noteq> ''client'' then Some (Msg ''invalid mode'')
      else if Transport c \<notin> set validTransports
        then Some (Msg ''invalid transport'')
      else if Mode c = ''server'' \<and> Listen c = '''' then Some (Msg ''server mode requires listen address'')
      else if Mode c = ''client'' \<and> ServerURL c = '''' \<and> Paths c = []
        then Some (Msg ''client mode requires server_url or paths'')
      else if Mode c = ''client'' \<and> first_empty_addr (Paths c) then Some (Msg ''paths[].addr is empty'')
      else if smux_Version (Smux c) \<noteq> 1 \<and> smux_Version (Smux c) \<noteq> 2 then Some (Msg ''invalid smux version'')
      else if Compression c \<notin> set validCompression then Some (Msg ''invalid compression'')
      else None)"

definition normalize_fields :: "Config \<Rightarrow> Config" where
  "normalize_fields c =
     (let c = c\<lparr>
        Mode := to_lower (trim_space (Mode c)),
        Transport := to_lower (trim_space (Transport c)),
        Profile := to_lower (trim_space (Profile c)),
        Listen := trim_space (Listen c),
        ServerURL := trim_space (ServerURL c),
        SessionID := str_or (trim_space (SessionID c)) ''sess-default''\<rparr>
      in if Mode c = ''server'' \<and> Listen c = '''' then c\<lparr>Listen := ''0.0.0.0:2020''\<rparr> else c)"

definition complete_config :: "Config \<Rightarrow> Config" where
  "complete_config c = syncAliases (mapDaggerToLegacy (applyProfile (applyBaseDefaults c)))"

text \<open>The zero value of \<open>Config\<close> with the defaults \<open>LoadConfig\<close> sets before decoding.\<close>

definition zero_Config :: Config where
  "zero_Config = \<lparr>
     Mode = '''', Listen = '''', Transport = '''', PSK = '''', Profile = '''', Verbose = False,
     CertFile = '''', KeyFile = '''', MaxSessions = 0, Heartbeat = 0, SkipTLSVerify = False,
     Compression = '''', NumConnections = 0, EnableDecoy = False, DecoyInterval = 0,
     EmbedFakeHeaders = False, Maps = [], Paths = [],
     Smux = \<lparr>smux_KeepAlive = 0, smux_MaxRecv = 0, smux_MaxStream = 0, smux_FrameSize = 0,
       smux_Version = 0\<rparr>,
     Advanced = \<lparr>adv_TCPNoDelay = False, adv_TCPKeepAlive = 0, adv_TCPReadBuffer = 0,
       adv_TCPWriteBuffer = 0, adv_WebSocketReadBuffer = 0, adv_WebSocketWriteBuffer = 0,
       adv_WebSocketCompression = False, adv_CleanupInterval = 0, adv_SessionTimeout = 0,
       adv_ConnectionTimeout = 0, adv_StreamTimeout = 0, adv_MaxConnections = 0,
       adv_MaxUDPFlows = 0, adv_UDPFlowTimeout = 0, adv_UDPBufferSize = 0\<rparr>,
     Obfuscation = \<lparr>oc_Enabled = False, oc_MinPadding = 0, oc_MaxPadding = 0, oc_MinDelayMS = 0,
       oc_MaxDelayMS = 0, oc_BurstChance = 0\<rparr>,
     HTTPMimic = \<lparr>hm_FakeDomain = '''', hm_FakePath = '''', hm_UserAgent = '''',
       hm_ChunkedEncoding = False, hm_SessionCookie = False, hm_CustomHeaders = []\<rparr>,
     Fragment = \<lparr>frag_Enabled = False, frag_MinSize = 0, frag_MaxSize = 0, frag_MinDelay = 0,
       frag_MaxDelay = 0\<rparr>,
     ServerURL = '''', SessionID = '''', ForwardTCP = [], ForwardUDP = [],
     Mimic = \<lparr>FakeDomain = '''', FakePath = '''', UserAgent = '''', CustomHeaders = [],
       SessionCookie = False, Chunked = False\<rparr>,
     Obfs = \<lparr>obfs_Enabled = False, obfs_MinPadding = 0, obfs_MaxPadding = 0, obfs_MinDelayMS = 0,
       obfs_MaxDelayMS = 0, obfs_BurstChance = 0\<rparr>,
     cfg_SessionTimeout = 0,
     DNS = \<lparr>dns_Enabled = False, dns_Listen = '''', dns_Upstream = ''''\<rparr>,
     Dashboard = \<lparr>dash_Enabled = False, dash_Listen = '''', dash_User = '''', dash_Pass = '''',
       dash_SessionSecret = ''''\<rparr>\<rparr>"

definition load_defaults :: Config where
  "load_defaults = zero_Config\<lparr>SkipTLSVerify := True, EnableDecoy := True, EmbedFakeHeaders := True,
     HTTPMimic := (HTTPMimic zero_Config)\<lparr>hm_SessionCookie := True\<rparr>\<rparr>"

definition LoadConfig ::
    "(string \<Rightarrow> bytes outcome) \<Rightarrow> (bytes \<Rightarrow> Config \<Rightarrow> Config outcome) \<Rightarrow> string \<Rightarrow> Config outcome" where
  "LoadConfig readFile unmarshal path =
     and_then (readFile path) (\<lambda>b.
     and_then (unmarshal b load_defaults) (\<lambda>c.
       let c = complete_config (normalize_fields c)
       in case Validate c of Some e \<Rightarrow> Err e | None \<Rightarrow> Ok c))"

section \<open>Port mappings (\<^verbatim>\<open>utils.go\<close>)\<close>

definition SplitMap :: "string \<Rightarrow> (string \<times> string) option" where
  "SplitMap s =
     (case str_split ''->'' s of
        [b, t] \<Rightarrow>
          let bind = trim_space b; target = trim_space t in
          if bind = '''' \<or> target = '''' then None
          else Some (if \<not> str_contains bind '':'' then ''0.0.0.0:'' @ bind else bind, target)
      | _ \<Rightarrow> None)"

section \<open>What a loaded configuration guarantees\<close>

definition path_ok :: "PathConfig \<Rightarrow> bool" where
  "path_ok p \<longleftrightarrow> 0 < path_ConnectionPool p \<and> 0 < path_RetryInterval p \<and> 0 < path_DialTimeout p"

definition smux_ok :: "SmuxConfig \<Rightarrow> bool" where
  "smux_ok s \<longleftrightarrow> 0 < smux_KeepAlive s \<and> 0 < smux_MaxRecv s \<and> 0 < smux_MaxStream s \<and>
     0 < smux_FrameSize s \<and> 0 < smux_Version s"

definition fragment_ok :: "FragmentConfig \<Rightarrow> bool" where
  "fragment_ok f \<longleftrightarrow> 0 < frag_MinSize f \<and> 0 < frag_MaxSize f \<and> 0 < frag_MinDelay f \<and> 0 < frag_MaxDelay f"

definition padding_ok :: "ObfsConfig \<Rightarrow> bool" where
  "padding_ok ob \<longleftrightarrow> 0 < obfs_MinPadding ob \<and> 0 < obfs_MaxPadding ob"

lemmas ok_defs = path_ok_def smux_ok_def fragment_ok_def padding_ok_def
lemmas bound_defs = pos_or_def at_least_def in_or_def

lemma base_smux_ok: "smux_ok (base_smux s)"
  by (simp add: smux_ok_def base_smux_def pos_or_pos)

lemma base_fragment_ok: "fragment_ok (base_fragment t f)"
  by (simp add: fragment_ok_def base_fragment_def pos_or_pos)

lemma profile_paths_ok: "list_all path_ok (Paths (applyProfile c))"
  by (auto simp: applyProfile_def profile_defs list_all_iff path_ok_def aggressive_path_def default_path_def bound_defs)

lemma profile_smux_ok: "smux_ok (Smux c) \<Longrightarrow> smux_ok (Smux (applyProfile c))"
  by (auto simp: applyProfile_def profile_defs smux_ok_def bound_defs)

lemma profile_fragment_ok: "fragment_ok (Fragment c) \<Longrightarrow> fragment_ok (Fragment (applyProfile c))"
  by (auto simp: applyProfile_def profile_defs fragment_ok_def)

lemma profile_padding:
  "0 < oc_MinPadding (Obfuscation c) \<Longrightarrow> 0 < oc_MaxPadding (Obfuscation c) \<Longrightarrow>
   0 < oc_MinPadding (Obfuscation (applyProfile c)) \<and> 0 < oc_MaxPadding (Obfuscation (applyProfile c))"
  by (auto simp: applyProfile_def profile_defs no_delay_def)

lemma mapDagger_frame [simp]:
  "Smux (mapDaggerToLegacy c) = Smux c" "Paths (mapDaggerToLegacy c) = Paths c"
  "Fragment (mapDaggerToLegacy c) = Fragment c" "Obfuscation (mapDaggerToLegacy c) = Obfuscation c"
  "HTTPMimic (mapDaggerToLegacy c) = HTTPMimic c" "Mimic (mapDaggerToLegacy c) = Mimic c"
  "Obfs (mapDaggerToLegacy c) = Obfs c" "Profile (mapDaggerToLegacy c) = Profile c"
  "Mode (mapDaggerToLegacy c) = Mode c" "Listen (mapDaggerToLegacy c) = Listen c"
  "Transport (mapDaggerToLegacy c) = Transport c" "Advanced (mapDaggerToLegacy c) = Advanced c"
  "Maps (mapDaggerToLegacy c) = Maps c" "ServerURL (mapDaggerToLegacy c) = ServerURL c"
  "Compression (mapDaggerToLegacy c) = Compression c"
  by (auto simp: mapDaggerToLegacy_def split: prod.splits)

lemma complete_config_ok:
  fixes c :: Config
  defines "d \<equiv> complete_config c"
  shows "smux_ok (Smux d)" "fragment_ok (Fragment d)" "padding_ok (Obfs d)" "list_all path_ok (Paths d)"
proof -
  let ?b = "applyBaseDefaults c"
  have "smux_ok (Smux (applyProfile ?b))"
    by (rule profile_smux_ok) (simp add: applyBaseDefaults_def base_smux_ok)
  then show "smux_ok (Smux d)" by (simp add: d_def complete_config_def syncAliases_def)
  have "fragment_ok (Fragment (applyProfile ?b))"
    by (rule profile_fragment_ok) (simp add: applyBaseDefaults_def base_fragment_ok)
  then show "fragment_ok (Fragment d)" by (simp add: d_def complete_config_def syncAliases_def)
  show "list_all path_ok (Paths d)"
    using profile_paths_ok by (simp add: d_def complete_config_def syncAliases_def)
  have "0 < oc_MinPadding (Obfuscation (applyProfile ?b)) \<and> 0 < oc_MaxPadding (Obfuscation (applyProfile ?b))"
    by (rule profile_padding) (simp_all add: applyBaseDefaults_def base_obfs_def pos_or_pos)
  then show "padding_ok (Obfs d)"
    by (simp add: d_def complete_config_def syncAliases_def sync_obfs_def padding_ok_def pos_or_pos)
qed

lemma first_empty_addr_iff: "first_empty_addr ps \<longleftrightarrow> (\<exists>p \<in> set ps. trim_space (path_Addr p) = '''')"
  by (induction ps) auto

lemma Validate_None:
  "Validate c = None \<longleftrightarrow>
     (Mode c = ''server'' \<and> Listen c \<noteq> '''' \<or>
      Mode c = ''client'' \<and> (ServerURL c \<noteq> '''' \<or> Paths c \<noteq> []) \<and>
        (\<forall>p \<in> set (Paths c). trim_space (path_Addr p) \<noteq> '''')) \<and>
     Transport c \<in> set validTransports \<and> smux_Version (Smux c) \<in> {1, 2} \<and>
     Compression c \<in> set validCompression"
  by (simp add: Validate_def first_empty_addr_iff)

text \<open>
  C15: whatever the file and the YAML decoder deliver, a configuration that \<open>LoadConfig\<close> returns is
  complete: a known mode, transport, smux version and compression; a listen address for a server, and for
  a client a server URL or paths whose addresses are not blank; positive smux limits, fragment sizes and
  delays, padding bounds, and positive pool size, retry interval and dial timeout for every path.
\<close>

theorem LoadConfig_sound:
  assumes "LoadConfig readFile unmarshal path = Ok c"
  shows "Mode c \<in> {''server'', ''client''} \<and>
    Transport c \<in> set validTransports \<and>
    (Mode c = ''server'' \<longrightarrow> Listen c \<noteq> '''') \<and>
    (Mode c = ''client'' \<longrightarrow> (ServerURL c \<noteq> '''' \<or> Paths c \<noteq> []) \<and>
       (\<forall>p \<in> set (Paths c). trim_space (path_Addr p) \<noteq> '''')) \<and>
    smux_Version (Smux c) \<in> {1, 2} \<and> Compression c \<in> set validCompression \<and>
    smux_ok (Smux c) \<and> fragment_ok (Fragment c) \<and> padding_ok (Obfs c) \<and> list_all path_ok (Paths c)"
proof -
  obtain d where d: "c = complete_config d" "Validate c = None"
    using assms by (auto simp: LoadConfig_def go_simps Let_def split: option.splits)
  have "Mode c \<in> {''server'', ''client''} \<and> Transport c \<in> set validTransports \<and>
    (Mode c = ''server'' \<longrightarrow> Listen c \<noteq> '''') \<and>
    (Mode c = ''client'' \<longrightarrow> (ServerURL c \<noteq> '''' \<or> Paths c \<noteq> []) \<and>
       (\<forall>p \<in> set (Paths c). trim_space (path_Addr p) \<noteq> '''')) \<and>
    smux_Version (Smux c) \<in> {1, 2} \<and> Compression c \<in> set validCompression"
    using d(2) unfolding Validate_None by auto
  then show ?thesis using complete_config_ok d(1) by blast
qed

definition demo_yaml :: "bytes \<Rightarrow> Config \<Rightarrow> Config outcome" where
  "demo_yaml b c = Ok (c\<lparr>Mode := ''server'', PSK := string_of b\<rparr>)"

lemma trim_server: "trim_space ''server'' = ''server''" "trim_space '''' = ''''"
  by (simp_all add: trim_space_visible visible_def)

lemma normalize_demo:
  "normalize_fields (load_defaults\<lparr>Mode := ''server'', PSK := k\<rparr>) =
     load_defaults\<lparr>Mode := ''server'', PSK := k, Listen := ''0.0.0.0:2020'', SessionID := ''sess-default''\<rparr>"
proof -
  have "to_lower ''server'' = ''server''" "to_lower '''' = ''''"
    by (simp_all add: to_lower_def lower_char_def)
  then show ?thesis
    by (simp add: normalize_fields_def load_defaults_def zero_Config_def trim_server str_or_def)
qed

lemma demo_load:
  "\<exists>c. LoadConfig (\<lambda>_. Ok (bytes_of ''secret'')) demo_yaml ''/etc/picotun/config.yaml'' = Ok c \<and> Mode c = ''server''"
proof -
  let ?d = "load_defaults\<lparr>Mode := ''server'', PSK := ''secret'', Listen := ''0.0.0.0:2020'', SessionID := ''sess-default''\<rparr>"
  have f: "Mode (complete_config ?d) = ''server''" "Transport (complete_config ?d) = ''''"
    "Listen (complete_config ?d) = ''0.0.0.0:2020''" "Compression (complete_config ?d) = ''''"
    "smux_Version (Smux (complete_config ?d)) = 2"
    by (simp_all add: complete_config_def syncAliases_def applyProfile_def profile_defs applyBaseDefaults_def
        load_defaults_def zero_Config_def str_or_def base_smux_def pos_or_def)
  then have "Validate (complete_config ?d) = None" by (simp add: Validate_None validTransports_def validCompression_def)
  then have "LoadConfig (\<lambda>_. Ok (bytes_of ''secret'')) demo_yaml ''/etc/picotun/config.yaml'' = Ok (complete_config ?d)"
    by (simp add: LoadConfig_def demo_yaml_def normalize_demo)
  then show ?thesis using f(1) by blast
qed

theorem LoadConfig_sound_witness:
  "\<exists>c. LoadConfig (\<lambda>_. Ok (bytes_of ''secret'')) demo_yaml ''/etc/picotun/config.yaml'' = Ok c \<and>
     Mode c = ''server'' \<and> padding_ok (Obfs c)"
  using demo_load LoadConfig_sound by blast

section \<open>The passes are stable\<close>

lemma normalizePath_idem [simp]: "normalizePath (normalizePath p) = normalizePath p"
proof (cases "trim_space p = ''''")
  case True
  then show ?thesis by (simp add: normalizePath_def trim_space_visible)
next
  case False
  let ?q = "trim_space p"
  have "trim_space (''/'' @ ?q) = ''/'' @ ?q"
  proof (rule trim_space_id)
    have "\<not> has_prefix (''/'' @ ?q) w" if "w \<in> set space_runes" for w
      using space_runes_invisible [OF that] space_runes_nonempty [OF that]
      by (auto simp: has_prefix_iff visible_def Cons_eq_append_conv)
    then show "lead_space (''/'' @ ?q) = 0" by (simp add: lead_space_0)
    have "\<not> has_suffix (''/'' @ ?q) w" if w: "w \<in> set space_runes" for w
    proof
      assume "has_suffix (''/'' @ ?q) w"
      then obtain t where t: "CHR ''/'' # ?q = t @ w" by (auto simp: has_suffix_iff)
      then have "t \<noteq> []" using space_runes_invisible [OF w] by (auto simp: visible_def)
      with t obtain t' where "?q = t' @ w" by (cases t) auto
      then have "has_suffix ?q w" by (auto simp: has_suffix_iff)
      then show False using trim_space_clean(2) [of p] w by (auto simp: trail_space_0)
    qed
    then show "trail_space (''/'' @ ?q) = 0" by (simp add: trail_space_0)
  qed
  then show ?thesis using False by (auto simp: normalizePath_def Let_def has_prefix_def)
qed

lemma pos_or_idem [simp]: "pos_or (pos_or x d) d = pos_or x d"
  by (simp add: pos_or_def)

lemma str_or_idem [simp]: "str_or (str_or s d) d = str_or s d"
  by (simp add: str_or_def)

lemma bounds_idem [simp]: "at_least (at_least x lo) lo = at_least x lo" "in_or (in_or x hi) hi = in_or x hi"
  by (simp_all add: at_least_def in_or_def)

text \<open>A configuration that \<open>applyBaseDefaults\<close> leaves alone, field by field.\<close>

definition base_fixed :: "Config \<Rightarrow> bool" where
  "base_fixed c \<longleftrightarrow> Profile c \<noteq> '''' \<and> 0 < Heartbeat c \<and> 0 < NumConnections c \<and> 0 < DecoyInterval c \<and>
     (if adv_SessionTimeout (Advanced c) > 0 then cfg_SessionTimeout c = adv_SessionTimeout (Advanced c)
      else 0 < cfg_SessionTimeout c) \<and>
     smux_ok (Smux c) \<and> base_mimic (HTTPMimic c) = HTTPMimic c \<and>
     0 < oc_MinPadding (Obfuscation c) \<and> 0 < oc_MaxPadding (Obfuscation c) \<and>
     0 < adv_TCPKeepAlive (Advanced c) \<and> adv_TCPNoDelay (Advanced c) \<and>
     fragment_ok (Fragment c) \<and> (tls_transport (to_lower (Transport c)) \<longrightarrow> frag_Enabled (Fragment c))"

lemma base_fixed_id: "base_fixed c \<Longrightarrow> applyBaseDefaults c = c"
  by (auto simp: base_fixed_def applyBaseDefaults_def base_smux_def base_obfs_def base_advanced_def
      base_fragment_def ok_defs intro!: Config.equality)

lemma base_mimic_idem:
  "normalizePath (str_or (hm_FakePath h) ''/search'') \<noteq> '''' \<Longrightarrow> base_mimic (base_mimic h) = base_mimic h"
  by (simp add: base_mimic_def)

lemma applyBaseDefaults_fixed:
  assumes "normalizePath (str_or (hm_FakePath (HTTPMimic c)) ''/search'') \<noteq> ''''"
  shows "base_fixed (applyBaseDefaults c)"
  using assms
  by (simp add: base_fixed_def applyBaseDefaults_def base_smux_ok base_fragment_ok base_mimic_idem pos_or_pos
      base_obfs_def base_advanced_def) (simp add: str_or_def base_fragment_def)

lemma base_mimic_chunked: "base_mimic (h\<lparr>hm_ChunkedEncoding := b\<rparr>) = (base_mimic h)\<lparr>hm_ChunkedEncoding := b\<rparr>"
  by (simp add: base_mimic_def)

lemma applyProfile_fixed: "base_fixed c \<Longrightarrow> base_fixed (applyProfile c)"
  by (simp add: base_fixed_def applyProfile_def profile_defs base_mimic_chunked no_delay_def ok_defs bound_defs)

lemma profile_idem:
  "profile_aggressive (profile_aggressive c) = profile_aggressive c"
  "profile_stable (profile_stable c) = profile_stable c"
  "profile_latency (profile_latency c) = profile_latency c"
  "profile_default (profile_default c) = profile_default c"
proof -
  have "aggressive_path (aggressive_path p) = aggressive_path p" for p
    by (simp add: aggressive_path_def)
  then show "profile_aggressive (profile_aggressive c) = profile_aggressive c"
    by (simp add: profile_aggressive_def no_delay_def)
  have "default_path a b (default_path a b p) = default_path a b p" for a b p
    by (simp add: default_path_def)
  then show "profile_stable (profile_stable c) = profile_stable c"
    "profile_latency (profile_latency c) = profile_latency c"
    "profile_default (profile_default c) = profile_default c"
    by (simp_all add: profile_defs no_delay_def)
qed

lemma profile_name [simp]:
  "Profile (profile_aggressive c) = Profile c" "Profile (profile_stable c) = Profile c"
  "Profile (profile_latency c) = Profile c" "Profile (profile_default c) = Profile c"
  by (simp_all add: profile_defs)

lemma applyProfile_idem: "applyProfile (applyProfile c) = applyProfile c"
  by (simp add: applyProfile_def profile_idem)

definition profile_view :: "Config \<Rightarrow> _" where
  "profile_view c =
     (Profile c, Fragment c, Smux c, Advanced c, Obfuscation c, HTTPMimic c, Compression c, Paths c)"

definition with_view :: "Config \<Rightarrow> Config \<Rightarrow> Config" where
  "with_view y x = y\<lparr>Fragment := Fragment x, Smux := Smux x, Advanced := Advanced x,
     Obfuscation := Obfuscation x, HTTPMimic := HTTPMimic x, Compression := Compression x, Paths := Paths x\<rparr>"

lemma applyProfile_view:
  assumes "profile_view x = profile_view y"
  shows "applyProfile y = with_view y (applyProfile x)"
  using assms by (auto simp: profile_view_def with_view_def applyProfile_def profile_defs)

lemma applyProfile_same_view:
  "profile_view x = profile_view y \<Longrightarrow> applyProfile x = x \<Longrightarrow> applyProfile y = y"
  using applyProfile_view [of x y] by (simp add: with_view_def profile_view_def)

lemma syncAliases_idem: "syncAliases (syncAliases c) = syncAliases c"
  by (simp add: syncAliases_def sync_mimic_def sync_obfs_def)

lemma mapDagger_syncAliases: "mapDaggerToLegacy (syncAliases c) = syncAliases (mapDaggerToLegacy c)"
  by (simp add: mapDaggerToLegacy_def syncAliases_def split: prod.splits)

lemma mapDagger_idem: "mapDaggerToLegacy (mapDaggerToLegacy c) = mapDaggerToLegacy c"
  by (simp add: mapDaggerToLegacy_def split: prod.splits)

text \<open>
  C31: completing a configuration is stable: the passes of \<open>LoadConfig\<close> leave a completed configuration as
  it is.  The one exception is a \<open>http_mimic.fake_path\<close> made of white space only, which
  \<open>normalizePath\<close> turns into the empty string after the default for an empty path was applied.
\<close>

theorem complete_config_stable:
  assumes "hm_FakePath (HTTPMimic c) = '''' \<or> trim_space (hm_FakePath (HTTPMimic c)) \<noteq> ''''"
  shows "complete_config (complete_config c) = complete_config c"
proof -
  have "trim_space ''/search'' = ''/search''" by (simp add: trim_space_visible visible_def)
  with assms have "normalizePath (str_or (hm_FakePath (HTTPMimic c)) ''/search'') \<noteq> ''''"
    by (auto simp: normalizePath_def str_or_def Let_def)
  then have fx: "base_fixed (applyProfile (applyBaseDefaults c))" (is "base_fixed ?x")
    by (intro applyProfile_fixed applyBaseDefaults_fixed)
  let ?y = "syncAliases (mapDaggerToLegacy ?x)"
  have v: "profile_view ?x = profile_view ?y" by (simp add: profile_view_def syncAliases_def)
  have "base_fixed ?y"
    using fx unfolding base_fixed_def syncAliases_def mapDaggerToLegacy_def
    by (simp split: prod.splits)
  moreover have "applyProfile ?y = ?y"
    using applyProfile_same_view [OF v] applyProfile_idem by blast
  ultimately show ?thesis
    by (simp add: complete_config_def base_fixed_id mapDagger_syncAliases syncAliases_idem mapDagger_idem)
qed

theorem complete_config_stable_witness:
  "complete_config (complete_config load_defaults) = complete_config load_defaults"
  by (rule complete_config_stable) (simp add: load_defaults_def zero_Config_def)

section \<open>Mappings written by \<open>mapDaggerToLegacy\<close> are read back by \<open>SplitMap\<close>\<close>

definition map_ok :: "DaggerMap \<Rightarrow> bool" where
  "map_ok m \<longleftrightarrow> trim_space (map_Bind m) \<noteq> '''' \<and> trim_space (map_Target m) \<noteq> '''' \<and>
     CHR ''>'' \<notin> set (map_Bind m) \<and> CHR ''>'' \<notin> set (map_Target m)"

definition bind_addr :: "string \<Rightarrow> string" where
  "bind_addr b = (if CHR '':'' \<in> set (trim_space b) then trim_space b else ''0.0.0.0:'' @ trim_space b)"

lemma str_index_arrow:
  assumes "CHR ''>'' \<notin> set b"
  shows "str_index ''->'' (b @ ''->'' @ t) = Some (length b)"
  using assms
proof (induction b)
  case Nil
  then show ?case by (simp add: has_prefix_def)
next
  case (Cons c b)
  have "\<not> has_prefix ((c # b) @ ''->'' @ t) ''->''"
    using Cons.prems by (cases b) (auto simp: has_prefix_def)
  then show ?case using Cons by simp
qed

lemma str_index_no_arrow: "CHR ''>'' \<notin> set t \<Longrightarrow> str_index ''->'' t = None"
  by (auto simp: str_index_None)

lemma str_split_arrow:
  assumes "CHR ''>'' \<notin> set b" "CHR ''>'' \<notin> set t"
  shows "str_split ''->'' (b @ ''->'' @ t) = [b, t]"
  using str_index_arrow [OF assms(1), of t] str_index_no_arrow [OF assms(2)]
  by (subst str_split.simps) (simp add: str_split.simps [of "''->''" t] del: str_index.simps)

lemma trim_left_suffix: "\<exists>p. s = p @ trim_left s"
proof (induction s rule: trim_left.induct)
  case (1 s)
  then show ?case
    by (cases "lead_space s = 0") (auto simp: trim_left.simps [of s], metis append.assoc append_take_drop_id)
qed

lemma set_trim_space: "set (trim_space s) \<subseteq> set s"
proof -
  obtain p q where "s = p @ trim_left s" "trim_left s = trim_right (trim_left s) @ q"
    using trim_left_suffix trim_right_prefix by blast
  then have "s = p @ trim_space s @ q" by (simp add: trim_space_def)
  then show ?thesis by (metis Un_iff set_append subsetI)
qed

lemma SplitMap_entry:
  assumes "map_ok m"
  shows "SplitMap (trim_space (map_Bind m) @ ''->'' @ trim_space (map_Target m))
    = Some (bind_addr (map_Bind m), trim_space (map_Target m))"
proof -
  have "CHR ''>'' \<notin> set (trim_space (map_Bind m))" "CHR ''>'' \<notin> set (trim_space (map_Target m))"
    using assms set_trim_space by (auto simp: map_ok_def)
  from str_split_arrow [OF this] show ?thesis
    using assms by (simp add: SplitMap_def map_ok_def bind_addr_def Let_def)
qed

definition map_class :: "DaggerMap \<Rightarrow> string" where
  "map_class m = (let ty = to_lower (trim_space (map_Type m)) in
     if ty = ''udp'' then ''udp'' else if ty = ''both'' then ''both'' else ''tcp'')"

lemma dagger_entries_append:
  "dagger_entries ms (tcp, udp) =
     (tcp @ map (\<lambda>m. trim_space (map_Bind m) @ ''->'' @ trim_space (map_Target m))
        (filter (\<lambda>m. map_class m \<noteq> ''udp'') ms),
      udp @ map (\<lambda>m. trim_space (map_Bind m) @ ''->'' @ trim_space (map_Target m))
        (filter (\<lambda>m. map_class m \<noteq> ''tcp'') ms))"
  by (induction ms arbitrary: tcp udp) (simp_all add: map_class_def Let_def)

text \<open>
  C32: without explicit forwards, every well-formed map of the configuration becomes exactly one listener of
  its class (one TCP and one UDP listener for \<open>both\<close>), in the order of the file: what
  \<open>mapDaggerToLegacy\<close> writes, \<open>SplitMap\<close> reads back, with a bare port completed to \<open>0.0.0.0:port\<close>.
\<close>

theorem dagger_maps_roundtrip:
  assumes "ForwardTCP c = []" "ForwardUDP c = []" "list_all map_ok (Maps c)"
  defines "listener \<equiv> \<lambda>m. Some (bind_addr (map_Bind m), trim_space (map_Target m))"
  shows "map SplitMap (ForwardTCP (mapDaggerToLegacy c)) =
      map listener (filter (\<lambda>m. map_class m \<noteq> ''udp'') (Maps c)) \<and>
    map SplitMap (ForwardUDP (mapDaggerToLegacy c)) =
      map listener (filter (\<lambda>m. map_class m \<noteq> ''tcp'') (Maps c))"
  using assms(1,2,3)
  by (auto simp: mapDaggerToLegacy_def dagger_entries_append listener_def list_all_iff
      SplitMap_entry [simplified])

theorem dagger_maps_roundtrip_witness:
  "map SplitMap (ForwardTCP (mapDaggerToLegacy
     (load_defaults\<lparr>Maps := [\<lparr>map_Type = ''tcp'', map_Bind = ''8080'', map_Target = ''10.0.0.1:80''\<rparr>]\<rparr>))) =
   [Some (''0.0.0.0:8080'', ''10.0.0.1:80'')]"
proof -
  have t: "trim_space ''8080'' = ''8080''" "trim_space ''10.0.0.1:80'' = ''10.0.0.1:80''"
    "trim_space ''tcp'' = ''tcp''"
    by (simp_all add: trim_space_visible visible_def)
  let ?m = "\<lparr>map_Type = ''tcp'', map_Bind = ''8080'', map_Target = ''10.0.0.1:80''\<rparr>"
  have "map_class ?m = ''tcp''" by (simp add: map_class_def t to_lower_def lower_char_def)
  then show ?thesis
    using dagger_maps_roundtrip [of "load_defaults\<lparr>Maps := [?m]\<rparr>"] t
    by (simp add: load_defaults_def zero_Config_def map_ok_def bind_addr_def)
qed

end
