(* ===== verification/Mimic.thy ===== *)
theory Mimic
  imports Http Config
begin

text \<open>
  \<^verbatim>\<open>mimic.go\<close>: the fake WebSocket request of the client, the reading of the server's answer, and the
  connection that keeps what the reader of the answer has read ahead (\<open>bufferedConn\<close>).  Random bytes are
  arguments, None where the random reader fails.
\<close>

section \<open>Random strings\<close>

definition letters :: string where
  "letters = ''abcdefghijklmnopqrstuvwxyzABCDEFGHIJKLMNOPQRSTUVWXYZ0123456789''"

definition randAlphaNum :: "nat \<Rightarrow> bytes option \<Rightarrow> string" where
  "randAlphaNum n rnd =
     (case rnd of
        None \<Rightarrow> replicate n (CHR ''x'')
      | Some b \<Rightarrow> map (\<lambda>x. letters ! (unat x mod length letters)) b)"

definition base64_char :: "nat \<Rightarrow> char" where
  "base64_char k = (''ABCDEFGHIJKLMNOPQRSTUVWXYZabcdefghijklmnopqrstuvwxyz0123456789+/'') ! k"

fun base64_encode :: "bytes \<Rightarrow> string" where
  "base64_encode (a # b # c # rest) =
     (let n = unat a * 65536 + unat b * 256 + unat c in
      [base64_char (n div 262144), base64_char (n div 4096 mod 64), base64_char (n div 64 mod 64),
       base64_char (n mod 64)] @ base64_encode rest)"
| "base64_encode [a, b] =
     (let n = unat a * 65536 + unat b * 256 in
      [base64_char (n div 262144), base64_char (n div 4096 mod 64), base64_char (n div 64 mod 64), CHR ''=''])"
| "base64_encode [a] =
     (let n = unat a * 65536 in
      [base64_char (n div 262144), base64_char (n div 4096 mod 64), CHR ''='', CHR ''=''])"
| "base64_encode [] = []"

definition generateWebSocketKey :: "bytes option \<Rightarrow> string" where
  "generateWebSocketKey rnd =
     (case rnd of None \<Rightarrow> ''dGhlIHNhbXBsZSBub25jZQ=='' | Some b \<Rightarrow> base64_encode b)"

definition hex_encode :: "bytes \<Rightarrow> string" where
  "hex_encode b = concat (map (\<lambda>x. [''0123456789abcdef'' ! (unat x div 16), ''0123456789abcdef'' ! (unat x mod 16)]) b)"

definition generateSessionID :: "bytes option \<Rightarrow> string" where
  "generateSessionID rnd = (case rnd of None \<Rightarrow> ''0000000000000000'' | Some b \<Rightarrow> hex_encode b)"

section \<open>The request\<close>

fun str_join :: "string \<Rightarrow> string list \<Rightarrow> string" where
  "str_join sep [] = []"
| "str_join sep [x] = x"
| "str_join sep (x # y # ys) = x @ sep @ str_join sep (y # ys)"

definition ReplaceAll :: "string \<Rightarrow> string \<Rightarrow> string \<Rightarrow> string" where
  "ReplaceAll s old new = str_join new (str_split old s)"

text \<open>
  \<open>BuildURLWithFakePath\<close> for a base URL \<open>http://base\<close>; argument and result are given without the
  \<open>http://\<close>.
\<close>

definition BuildURLWithFakePath :: "bytes option \<Rightarrow> string \<Rightarrow> string \<Rightarrow> string outcome" where
  "BuildURLWithFakePath rnd base fakePath =
     (if fakePath = '''' then Ok base
      else and_then (url_Parse_http base) (\<lambda>u.
        let fp = (if str_contains fakePath ''{rand}''
                  then ReplaceAll fakePath ''{rand}'' (randAlphaNum 8 rnd) else fakePath);
            fp = (if has_prefix fp ''/'' then fp else ''/'' @ fp)
        in Ok (url_String_http (u\<lparr>u_Path := fp\<rparr>))))"

record hs_rand =
  rnd_path :: "bytes option"
  rnd_key :: "bytes option"
  rnd_sid :: "bytes option"

text \<open>The full URL; an error of \<open>BuildURLWithFakePath\<close> is ignored and leaves the empty URL.\<close>

definition handshake_request :: "bytes option \<Rightarrow> string \<Rightarrow> string \<Rightarrow> request outcome" where
  "handshake_request rnd domain path =
     (if str_contains path ''{rand}''
      then (case BuildURLWithFakePath rnd domain path of
              Ok s \<Rightarrow> NewRequest_GET s
            | _ \<Rightarrow> Ok \<lparr>req_Method = ''GET'', req_URL = empty_url, req_Host = '''', req_Header = []\<rparr>)
      else NewRequest_GET (domain @ path))"

definition add_custom :: "string \<Rightarrow> header \<Rightarrow> header" where
  "add_custom line h =
     (case str_split2 '':'' line of
        [k, v] \<Rightarrow> hdr_Set (trim_space k) (trim_space v) h
      | _ \<Rightarrow> h)"

definition AddCookie :: "string \<Rightarrow> header \<Rightarrow> header" where
  "AddCookie c h =
     (if hdr_Get h ''Cookie'' = '''' then hdr_Set ''Cookie'' c h
      else hdr_Set ''Cookie'' (hdr_Get h ''Cookie'' @ ''; '' @ c) h)"

definition base_headers :: "string \<Rightarrow> string \<Rightarrow> string \<Rightarrow> header" where
  "base_headers domain ua key =
     hdr_Set ''Accept-Language'' ''en-US,en;q=0.9'' (hdr_Set ''Accept'' ''*/*''
     (hdr_Set ''Sec-WebSocket-Version'' ''13'' (hdr_Set ''Sec-WebSocket-Key'' key
     (hdr_Set ''Upgrade'' ''websocket'' (hdr_Set ''Connection'' ''Upgrade''
     (hdr_Set ''User-Agent'' ua (hdr_Set ''Host'' domain [])))))))"

definition default_ua :: string where
  "default_ua = ''Mozilla/5.0 (Windows NT 10.0; Win64; x64) AppleWebKit/537.36''"

definition build_request :: "hs_rand \<Rightarrow> MimicConfig option \<Rightarrow> request outcome" where
  "build_request r cfg =
     (let domain = (case cfg of Some m \<Rightarrow> str_or (FakeDomain m) ''www.google.com'' | None \<Rightarrow> ''www.google.com'');
          path = (case cfg of Some m \<Rightarrow> str_or (FakePath m) ''/'' | None \<Rightarrow> ''/'');
          ua = (case cfg of Some m \<Rightarrow> str_or (UserAgent m) default_ua | None \<Rightarrow> default_ua)
      in and_then (handshake_request (rnd_path r) domain path) (\<lambda>req.
           let h = base_headers domain ua (generateWebSocketKey (rnd_key r));
               h = (case cfg of
                      None \<Rightarrow> h
                    | Some m \<Rightarrow>
                        let h = fold add_custom (CustomHeaders m) h
                        in if SessionCookie m then AddCookie (''session='' @ generateSessionID (rnd_sid r)) h else h)
           in Ok (req\<lparr>req_Header := h\<rparr>)))"

section \<open>The buffered connection\<close>

text \<open>
  \<open>bufferedConn\<close>: the connection and the unread bytes of its \<open>bufio.Reader\<close>; None is the nil pointer
  that \<open>Close\<close> leaves.
\<close>

record bufferedConn =
  bc_Conn :: conn
  bc_r :: "bytes option"

text \<open>
  \<open>io.ReadFull\<close> on it: buffered bytes come first; calling \<open>Read\<close> through the nil reader panics.  (Filling
  a slice of length 0 makes no call.)
\<close>

definition bc_ReadFull :: "bufferedConn \<Rightarrow> nat \<Rightarrow> bufferedConn \<times> bytes outcome" where
  "bc_ReadFull bc n =
     (if n = 0 then (bc, Ok [])
      else case bc_r bc of
        None \<Rightarrow> (bc, Panic NilDeref)
      | Some buf \<Rightarrow>
          if n \<le> length buf then (bc\<lparr>bc_r := Some (drop n buf)\<rparr>, Ok (take n buf))
          else (case read_full (bc_Conn bc) (n - length buf) of
                  (c, Ok b) \<Rightarrow> (bc\<lparr>bc_Conn := c, bc_r := Some []\<rparr>, Ok (buf @ b))
                | (c, Err e) \<Rightarrow>
                    (bc\<lparr>bc_Conn := c, bc_r := Some []\<rparr>,
                     Err (if e = EOF \<and> buf \<noteq> [] then UnexpectedEOF else e))
                | (c, Panic p) \<Rightarrow> (bc\<lparr>bc_Conn := c\<rparr>, Panic p)))"

definition bc_Close :: "bufferedConn \<Rightarrow> bufferedConn" where
  "bc_Close bc = bc\<lparr>bc_Conn := conn_close (bc_Conn bc), bc_r := None\<rparr>"

section \<open>The handshake\<close>

text \<open>
  \<open>ClientHandshake\<close>.  \<open>ahead\<close> is the number of bytes the \<open>bufio.Reader\<close> has pulled from the connection
  beyond what was parsed.  The first component is the connection below, which the caller no longer
  holds; on an error the returned \<open>net.Conn\<close> is nil.
\<close>

definition ClientHandshake ::
    "hs_rand \<Rightarrow> nat \<Rightarrow> conn \<Rightarrow> MimicConfig option \<Rightarrow> conn \<times> bufferedConn outcome" where
  "ClientHandshake r ahead c cfg =
     (case build_request r cfg of
        Err e \<Rightarrow> (c, Err e)
      | Panic p \<Rightarrow> (c, Panic p)
      | Ok req \<Rightarrow>
          (case conn_write c (bytes_of (DumpRequest req)) of
             (c, _, Some e) \<Rightarrow> (c, Err e)
           | (c, _, None) \<Rightarrow>
               (case read_response_head (string_of (conn_in c)) of
                  Err e \<Rightarrow> (c\<lparr>conn_in := drop ahead (conn_in c)\<rparr>, Err e)
                | Panic p \<Rightarrow> (c, Panic p)
                | Ok (resp, rest) \<Rightarrow>
                    let rest = bytes_of (close_body resp rest);
                        c = c\<lparr>conn_in := drop ahead rest\<rparr>
                    in if resp_StatusCode resp \<noteq> 101 \<and> resp_StatusCode resp \<noteq> 200
                       then (c, Err (Msg ''handshake failed: expected 101 or 200''))
                       else (c, Ok \<lparr>bc_Conn = c, bc_r = Some (take ahead rest)\<rparr>))))"

section \<open>What the handshake request carries\<close>

lemma escape_safe:
  assumes "x \<in> set (url_escape EncPath s)"
  shows "x \<noteq> CHR ''?'' \<and> x \<noteq> CHR ''#'' \<and> x \<noteq> CHR '' '' \<and> \<not> ctl_byte x"
proof -
  obtain c where c: "x \<in> set (escape_char EncPath c)" using assms by (auto simp: url_escape_def)
  define H where "H = set ''0123456789ABCDEF''"
  have hex: "hex_digit n \<in> H" if "n < 16" for n
    using that nth_mem [of n "''0123456789ABCDEF''"] by (simp add: hex_digit_def H_def)
  have "(of_char c :: nat) div 16 < 16" using of_char_less_256 [of c] by linarith
  then have "x = CHR ''%'' \<or> x \<in> H \<or> \<not> should_escape EncPath x"
    using c hex [of "of_char c div 16"] hex [of "of_char c mod 16"]
    by (auto simp: escape_char_def split: if_splits)
  moreover have "x \<in> H \<Longrightarrow> \<not> should_escape EncPath x"
    by (simp add: H_def should_escape_def unreserved_def char_classes) linarith
  moreover have "\<not> ctl_byte (CHR ''%'')" by (simp add: ctl_byte_def)
  ultimately show ?thesis using path_safe_char [of x] by auto
qed

text \<open>A fake domain is a plain host name, a fake path a slash followed by unreserved characters, slashes and braces.\<close>

definition domain_ok :: "string \<Rightarrow> bool" where
  "domain_ok d \<longleftrightarrow> d \<noteq> '''' \<and> list_all (\<lambda>c. is_alpha c \<or> is_digit c \<or> c \<in> set ''-.'') d"

definition path_char :: "char \<Rightarrow> bool" where
  "path_char c \<longleftrightarrow> unreserved c \<or> c \<in> set ''/{}''"

definition fake_path_ok :: "string \<Rightarrow> bool" where
  "fake_path_ok p \<longleftrightarrow> has_prefix p ''/'' \<and> list_all path_char p"

lemma domain_chars:
  assumes "domain_ok d" "c \<in> set d"
  shows "c \<notin> set ''/?#:[]@%'' \<and> \<not> ctl_byte c \<and> host_char c \<and> \<not> should_escape EncHost c"
proof -
  have "is_alpha c \<or> is_digit c \<or> c \<in> set ''-.''" using assms by (auto simp: domain_ok_def list_all_iff)
  then show ?thesis
    using alnum_char [of c]
    by (auto simp: host_char_def should_escape_def unreserved_def ctl_byte_def)
qed

lemma path_chars:
  assumes "fake_path_ok p" "c \<in> set p"
  shows "c \<notin> set ''?#%'' \<and> \<not> ctl_byte c"
proof -
  have "unreserved c \<or> c \<in> set ''/{}''" using assms by (auto simp: fake_path_ok_def list_all_iff path_char_def)
  then show ?thesis using unreserved_char [of c] by (auto simp: ctl_byte_def)
qed

lemma last_index_absent: "c \<notin> set s \<Longrightarrow> last_index c s = None"
  by (simp add: last_index_None)

lemma parseAuthority_domain:
  assumes "domain_ok d" shows "parseAuthority d = Ok (None, d)"
proof -
  have n: "CHR ''@'' \<notin> set d" "CHR '':'' \<notin> set d" "CHR ''%'' \<notin> set d" and pl: "list_all (plain_ok EncHost) d"
    using domain_chars [OF assms] by (auto simp: list_all_iff plain_ok_def)
  have "\<not> has_prefix d ''[''" using domain_chars [OF assms] by (cases d) (auto simp: has_prefix_def)
  then show ?thesis
    using n pl by (simp add: parseAuthority_def parseHost_def last_index_absent url_unescape_plain)
qed

lemma cut_query_none: "CHR ''?'' \<notin> set s \<Longrightarrow> cut_query s = (s, False, '''')"
proof -
  assume a: "CHR ''?'' \<notin> set s"
  then have "filter (\<lambda>c. c = CHR ''?'') s = []" by (auto simp: filter_empty_conv)
  then show ?thesis using a by (simp add: cut_query_def str_cut_def)
qed

text \<open>Parsing \<open>http://domain\<close> followed by a path without query, fragment and control characters.\<close>

lemma url_Parse_http_domain:
  assumes d: "domain_ok d" and p: "p = '''' \<or> hd p = CHR ''/''"
    and safe: "\<forall>c \<in> set p. c \<noteq> CHR ''?'' \<and> c \<noteq> CHR ''#'' \<and> \<not> ctl_byte c"
  shows "url_Parse_http (d @ p) = setPath p (empty_url\<lparr>u_Scheme := ''http'', u_Host := d\<rparr>)"
proof -
  have ctl: "\<not> list_ex ctl_byte (d @ p)" and "CHR ''#'' \<notin> set (d @ p)" "CHR ''?'' \<notin> set (d @ p)"
    using domain_chars [OF d] safe by (auto simp: list_ex_iff)
  moreover have "CHR ''/'' \<notin> set d" using domain_chars [OF d] by auto
  then have "takeWhile (\<lambda>c. c \<noteq> CHR ''/'') (d @ p) = d" "dropWhile (\<lambda>c. c \<noteq> CHR ''/'') (d @ p) = p"
    using p by (cases p; auto simp: takeWhile_append dropWhile_append)+
  ultimately show ?thesis
    using parseAuthority_domain [OF d]
    by (cases "url_unescape EncPath p")
      (simp_all add: url_Parse_http_def str_cut_def cut_query_none setPath_def empty_url_def)
qed

text \<open>The target of a request with path \<open>q\<close>, on the wire and after the server's parsing.\<close>

lemma RequestURI_escaped:
  assumes "u_Path u = q" "q \<noteq> ''*''" "q \<noteq> ''''" "u_RawPath u = '''' \<or> \<not> validEncoded (u_RawPath u)"
    "\<not> u_ForceQuery u" "u_RawQuery u = ''''"
  shows "RequestURI u = url_escape EncPath q"
proof -
  have "url_escape EncPath q \<noteq> ''''" using assms(3) by (cases q) (auto simp: url_escape_def escape_char_def)
  then show ?thesis using assms by (auto simp: RequestURI_def EscapedPath_def)
qed

lemma slash_escape: "url_escape EncPath (CHR ''/'' # q) = CHR ''/'' # url_escape EncPath q"
  by (simp add: url_escape_def escape_char_def should_escape_def unreserved_def is_alpha_def is_digit_def)

lemma has_prefix_slash: "has_prefix q ''/'' \<longleftrightarrow> (\<exists>t. q = CHR ''/'' # t)"
  by (simp add: has_prefix_iff)

lemma ParseRequestURI_escaped:
  assumes "has_prefix q ''/''"
  shows "url_ParseRequestURI (url_escape EncPath q) = Ok (empty_url\<lparr>u_Path := q\<rparr>)"
proof -
  have "\<not> list_ex ctl_byte (url_escape EncPath q)" "CHR ''?'' \<notin> set (url_escape EncPath q)"
    using escape_safe [of _ q] by (auto simp: list_ex_iff)
  moreover have "has_prefix (url_escape EncPath q) ''/''" "url_escape EncPath q \<noteq> ''''"
    using assms by (auto simp: has_prefix_slash slash_escape)
  ultimately show ?thesis
    by (simp add: url_ParseRequestURI_def cut_query_none setPath_def url_unescape_escape empty_url_def)
qed

lemma removeEmptyPort_domain:
  assumes "domain_ok d" shows "removeEmptyPort d = d"
proof -
  have "CHR '':'' \<notin> set d" using domain_chars [OF assms, of "CHR '':''"] by auto
  then show ?thesis by (simp add: removeEmptyPort_def last_index_absent)
qed

text \<open>Both ways of building the URL lead to the same kind of request.\<close>

definition plain_request :: "string \<Rightarrow> string \<Rightarrow> request \<Rightarrow> bool" where
  "plain_request d q req \<longleftrightarrow> req_Method req = ''GET'' \<and> req_Host req = d \<and>
     RequestURI (req_URL req) = url_escape EncPath q"

lemma NewRequest_domain:
  assumes d: "domain_ok d" and q: "has_prefix q ''/''" "q \<noteq> ''*''"
    and p: "hd p = CHR ''/''" "\<forall>c \<in> set p. c \<noteq> CHR ''?'' \<and> c \<noteq> CHR ''#'' \<and> \<not> ctl_byte c"
    and pq: "url_unescape EncPath p = Ok q" "p = url_escape EncPath q \<or> \<not> validEncoded p"
  shows "\<exists>req. NewRequest_GET (d @ p) = Ok req \<and> plain_request d q req"
proof -
  have e: "q \<noteq> ''''" using q(1) by (auto simp: has_prefix_slash)
  show ?thesis
    using url_Parse_http_domain [OF d disjI2 [OF p(1)] p(2)] removeEmptyPort_domain [OF d] pq e q(2)
    by (auto simp: NewRequest_GET_def setPath_def plain_request_def empty_url_def RequestURI_escaped)
qed

lemma validEncoded_braces:
  assumes "list_all path_char p" "p \<noteq> url_escape EncPath p"
  shows "\<not> validEncoded p"
proof
  assume v: "validEncoded p"
  have "\<not> should_escape EncPath c" if "c \<in> set p" for c
  proof -
    have pc: "unreserved c \<or> c = CHR ''/'' \<or> c = CHR ''{'' \<or> c = CHR ''}''"
      using that assms(1) by (auto simp: list_all_iff path_char_def)
    have vc: "c \<in> set ''!$&'()*+,;=:@[]%'' \<or> \<not> should_escape EncPath c"
      using that v by (simp only: validEncoded_def list_all_iff)
    from pc show ?thesis
    proof (elim disjE)
      assume "unreserved c"
      then show ?thesis by (simp add: should_escape_def)
    next
      assume "c = CHR ''/''"
      then show ?thesis by (simp add: should_escape_def)
    qed (use vc in simp_all)
  qed
  then have "url_escape EncPath p = p" by (intro url_escape_plain) (auto simp: list_all_iff)
  then show False using assms(2) by simp
qed

lemma str_join_head:
  "xs \<noteq> [] \<Longrightarrow> \<exists>t. str_join sep xs = hd xs @ t"
  by (induction sep xs rule: str_join.induct) auto

lemma str_join_chars:
  "set (str_join sep xs) \<subseteq> (\<Union>x \<in> set xs. set x) \<union> set sep"
  by (induction sep xs rule: str_join.induct) auto

lemma str_split_chars: "x \<in> set (str_split sep s) \<Longrightarrow> set x \<subseteq> set s"
proof (induction sep s rule: str_split.induct)
  case (1 sep s)
  show ?case
  proof (cases "sep = []")
    case True
    then show ?thesis using "1.prems" by (subst (asm) str_split.simps) auto
  next
    case False
    show ?thesis
    proof (cases "str_index sep s")
      case None
      then show ?thesis using "1.prems" False by (subst (asm) str_split.simps) simp
    next
      case (Some i)
      then have "x = take i s \<or> x \<in> set (str_split sep (drop (i + length sep) s))"
        using "1.prems" False by (subst (asm) str_split.simps) simp
      then show ?thesis
        using "1.IH" [OF False Some] set_take_subset [of i s] set_drop_subset [of "i + length sep" s] by blast
    qed
  qed
qed

text \<open>What precedes the first brace of a template survives the replacement.\<close>

lemma hd_split_brace:
  assumes "str_contains p ''{rand}''"
  shows "\<exists>t. hd (str_split ''{rand}'' p) = takeWhile (\<lambda>c. c \<noteq> CHR ''{'') p @ t"
proof -
  obtain i where i: "str_index ''{rand}'' p = Some i" using assms by (auto simp: str_contains_def)
  then have "p ! i = CHR ''{''" "i < length p" 
    using str_index_Some [OF i] by (auto simp: take_Suc_conv_app_nth drop_Suc nth_via_drop hd_drop_conv_nth)
  then have "length (takeWhile (\<lambda>c. c \<noteq> CHR ''{'') p) \<le> i"
    by (metis (mono_tags, lifting) linorder_not_less nth_mem set_takeWhileD takeWhile_nth)
  then have "take i p = takeWhile (\<lambda>c. c \<noteq> CHR ''{'') p @ drop (length (takeWhile (\<lambda>c. c \<noteq> CHR ''{'') p)) (take i p)"
    by (metis append_take_drop_id min.absorb1 take_take takeWhile_eq_take)
  moreover have "hd (str_split ''{rand}'' p) = take i p" using i by (subst str_split.simps) simp
  ultimately show ?thesis by auto
qed

lemma escape_head: "has_prefix q ''/'' \<Longrightarrow> hd (url_escape EncPath q) = CHR ''/'' \<and> url_escape EncPath q \<noteq> ''''"
  by (auto simp: has_prefix_slash slash_escape)

lemma BuildURL_domain:
  assumes d: "domain_ok d" and p: "str_contains p ''{rand}''" "p \<noteq> ''''"
    and q: "q = ReplaceAll p ''{rand}'' (randAlphaNum 8 rnd)" "has_prefix q ''/''"
  shows "BuildURLWithFakePath rnd d p = Ok (d @ url_escape EncPath q)"
proof -
  have "url_Parse_http (d @ '''') = setPath '''' (empty_url\<lparr>u_Scheme := ''http'', u_Host := d\<rparr>)"
    by (rule url_Parse_http_domain [OF d]) simp_all
  then have "url_Parse_http d = Ok (empty_url\<lparr>u_Scheme := ''http'', u_Host := d\<rparr>)"
    by (simp add: setPath_def url_escape_def empty_url_def)
  moreover have "url_escape EncHost d = d"
    using domain_chars [OF d] by (intro url_escape_plain) (simp add: list_all_iff)
  moreover have "q \<noteq> ''*''" using q(2) by (auto simp: has_prefix_slash)
  ultimately show ?thesis
    using p q escape_head [OF q(2)]
    by (simp add: BuildURLWithFakePath_def url_String_http_def EscapedPath_def empty_url_def Let_def)
qed

lemma fake_prefix_slash: "fake_path_ok p \<Longrightarrow> has_prefix (takeWhile (\<lambda>c. c \<noteq> CHR ''{'') p) ''/''"
  by (auto simp: fake_path_ok_def has_prefix_slash)

lemma has_prefix_trans: "has_prefix a b \<Longrightarrow> has_prefix b c \<Longrightarrow> has_prefix a c"
  by (auto simp: has_prefix_iff)

lemma has_prefix_takeWhile: "has_prefix p (takeWhile P p)"
  by (metis has_prefix_iff takeWhile_dropWhile_id)

definition handshake_path :: "bytes option \<Rightarrow> string \<Rightarrow> string" where
  "handshake_path rnd p =
     (if str_contains p ''{rand}'' then ReplaceAll p ''{rand}'' (randAlphaNum 8 rnd) else p)"

lemma handshake_path_prefix: "has_prefix (handshake_path rnd p) (takeWhile (\<lambda>c. c \<noteq> CHR ''{'') p)"
proof (cases "str_contains p ''{rand}''")
  case True
  obtain t where "hd (str_split ''{rand}'' p) = takeWhile (\<lambda>c. c \<noteq> CHR ''{'') p @ t"
    using hd_split_brace [OF True] by blast
  moreover obtain t' where
    "str_join (randAlphaNum 8 rnd) (str_split ''{rand}'' p) = hd (str_split ''{rand}'' p) @ t'"
    using str_join_head [OF str_split_nonempty] by blast
  ultimately show ?thesis using True by (simp add: handshake_path_def ReplaceAll_def has_prefix_iff)
qed (simp add: handshake_path_def has_prefix_takeWhile)

lemma handshake_request_ok:
  assumes d: "domain_ok d" and p: "fake_path_ok p"
  shows "\<exists>req. handshake_request rnd d p = Ok req \<and> plain_request d (handshake_path rnd p) req"
proof -
  let ?q = "handshake_path rnd p"
  have q: "has_prefix ?q ''/''"
    using handshake_path_prefix fake_prefix_slash [OF p] has_prefix_trans by blast
  then have star: "?q \<noteq> ''*''" by (auto simp: has_prefix_slash)
  show ?thesis
  proof (cases "str_contains p ''{rand}''")
    case True
    have b: "BuildURLWithFakePath rnd d p = Ok (d @ url_escape EncPath ?q)"
      using True p q by (intro BuildURL_domain [OF d]) (auto simp: handshake_path_def fake_path_ok_def has_prefix_def)
    have "\<exists>req. NewRequest_GET (d @ url_escape EncPath ?q) = Ok req \<and> plain_request d ?q req"
      using escape_head [OF q] escape_safe [of _ ?q]
      by (intro NewRequest_domain [OF d q star]) (auto simp: url_unescape_escape)
    then show ?thesis using True b by (simp add: handshake_request_def)
  next
    case False
    then have qp: "?q = p" by (simp add: handshake_path_def)
    have "CHR ''%'' \<notin> set p" using path_chars [OF p] by auto
    then have un: "url_unescape EncPath p = Ok p"
      by (intro url_unescape_plain) (simp_all add: plain_ok_def list_all_iff)
    have "\<exists>req. NewRequest_GET (d @ p) = Ok req \<and> plain_request d ?q req"
    proof (rule NewRequest_domain [OF d q star])
      show "hd p = CHR ''/''" using p by (auto simp: fake_path_ok_def has_prefix_slash)
      show "\<forall>c \<in> set p. c \<noteq> CHR ''?'' \<and> c \<noteq> CHR ''#'' \<and> \<not> ctl_byte c"
        using path_chars [OF p] by auto
      show "url_unescape EncPath p = Ok ?q" using un qp by simp
      show "p = url_escape EncPath ?q \<or> \<not> validEncoded p"
        using validEncoded_braces [of p] p qp by (auto simp: fake_path_ok_def)
    qed
    then show ?thesis using False by (simp add: handshake_request_def)
  qed
qed

section \<open>Headers of the handshake request\<close>

text \<open>
  A custom header is harmless when it does not replace the two headers the server looks at and has a
  printable value.
\<close>

definition custom_ok :: "string \<Rightarrow> bool" where
  "custom_ok line =
     (case str_split2 '':'' line of
        [k, v] \<Rightarrow> CanonicalHeaderKey (trim_space k) \<noteq> ''Connection'' \<and>
                  CanonicalHeaderKey (trim_space k) \<noteq> ''Upgrade'' \<and> field_value_ok (trim_space v)
      | _ \<Rightarrow> True)"

definition values_ok :: "header \<Rightarrow> bool" where
  "values_ok h = list_all (\<lambda>(_, v). field_value_ok v) h"

definition upgrade_headers :: "header \<Rightarrow> bool" where
  "upgrade_headers h \<longleftrightarrow> header_ok h \<and> values_ok h \<and>
     map_of h ''Connection'' = Some ''Upgrade'' \<and> map_of h ''Upgrade'' = Some ''websocket''"

lemma values_ok_Set: "values_ok h \<Longrightarrow> field_value_ok v \<Longrightarrow> values_ok (hdr_Set k v h)"
  by (auto simp: values_ok_def hdr_Set_def list_all_iff)

lemma upgrade_headers_Set:
  assumes "upgrade_headers h" "field_value_ok v"
    "CanonicalHeaderKey k \<noteq> ''Connection''" "CanonicalHeaderKey k \<noteq> ''Upgrade''"
  shows "upgrade_headers (hdr_Set k v h)"
  using assms by (simp add: upgrade_headers_def values_ok_Set)

lemma upgrade_headers_custom:
  assumes "upgrade_headers h" "custom_ok line" shows "upgrade_headers (add_custom line h)"
  using assms
  by (auto simp: add_custom_def custom_ok_def str_split2_def upgrade_headers_Set split: option.splits)

lemma upgrade_headers_customs:
  "upgrade_headers h \<Longrightarrow> list_all custom_ok ls \<Longrightarrow> upgrade_headers (fold add_custom ls h)"
  by (induction ls arbitrary: h) (auto simp: upgrade_headers_custom)

lemma field_value_ok_append [simp]: "field_value_ok (a @ b) \<longleftrightarrow> field_value_ok a \<and> field_value_ok b"
  by (simp add: field_value_ok_def)

lemma hdr_Get_ok: "values_ok h \<Longrightarrow> field_value_ok (hdr_Get h k)"
  by (cases "map_of h (CanonicalHeaderKey k)")
    (auto simp: hdr_Get_def values_ok_def list_all_iff field_value_ok_def dest: map_of_SomeD)

lemma canonical_keys:
  "CanonicalHeaderKey ''Host'' = ''Host''" "CanonicalHeaderKey ''User-Agent'' = ''User-Agent''"
  "CanonicalHeaderKey ''Connection'' = ''Connection''" "CanonicalHeaderKey ''Upgrade'' = ''Upgrade''"
  "CanonicalHeaderKey ''Sec-WebSocket-Key'' = ''Sec-Websocket-Key''"
  "CanonicalHeaderKey ''Sec-WebSocket-Version'' = ''Sec-Websocket-Version''"
  "CanonicalHeaderKey ''Accept'' = ''Accept''" "CanonicalHeaderKey ''Accept-Language'' = ''Accept-Language''"
  "CanonicalHeaderKey ''Cookie'' = ''Cookie''"
  by (simp_all add: CanonicalHeaderKey_def token_char_def is_alpha_def is_digit_def upper_char_def lower_char_def)
    (simp_all add: char_nat)

lemma upgrade_headers_base:
  assumes "field_value_ok d" "field_value_ok ua" "field_value_ok key"
  shows "upgrade_headers (base_headers d ua key)"
proof -
  have "field_value_ok ''en-US,en;q=0.9''" "field_value_ok ''*/*''" "field_value_ok ''13''"
    "field_value_ok ''websocket''" "field_value_ok ''Upgrade''"
    by (simp_all add: field_value_ok_def ctl_byte_def)
  then have "values_ok (base_headers d ua key)"
    unfolding base_headers_def using assms by (intro values_ok_Set) (simp_all add: values_ok_def)
  then show ?thesis by (simp add: upgrade_headers_def) (simp add: base_headers_def canonical_keys)
qed

lemma list_all_nth_ok: "list_all P xs \<Longrightarrow> n < length xs \<Longrightarrow> P (xs ! n)"
  by (simp add: list_all_length)

lemma base64_char_ok: "k < 64 \<Longrightarrow> field_value_ok [base64_char k]"
proof -
  let ?a = "''ABCDEFGHIJKLMNOPQRSTUVWXYZabcdefghijklmnopqrstuvwxyz0123456789+/''"
  have "list_all (\<lambda>c. \<not> ctl_byte c) ?a" by (simp add: ctl_byte_def)
  then show "k < 64 \<Longrightarrow> ?thesis"
    using list_all_nth_ok [of "\<lambda>c. \<not> ctl_byte c" ?a k] by (simp add: base64_char_def field_value_ok_def)
qed

lemma field_value_ok_Cons: "field_value_ok (c # cs) \<longleftrightarrow> field_value_ok [c] \<and> field_value_ok cs"
  by (simp add: field_value_ok_def)

lemma unat_byte: "unat (x :: byte) < 256"
  by (rule order.strict_trans2 [OF unsigned_less]) simp

lemma base64_encode_ok: "field_value_ok (base64_encode b)"
proof (induction b rule: base64_encode.induct)
  case (1 a b c rest)
  have "unat a * 65536 + unat b * 256 + unat c < 64 * 262144"
    using unat_byte [of a] unat_byte [of b] unat_byte [of c] by linarith
  then have "(unat a * 65536 + unat b * 256 + unat c) div 262144 < 64"
    by (simp add: less_mult_imp_div_less)
  then show ?case
    using 1 by (simp add: Let_def field_value_ok_Cons [of _ "_ # _"] field_value_ok_Cons [of _ "base64_encode rest"]
        base64_char_ok)
next
  case (2 a b)
  have "unat a * 65536 + unat b * 256 < 64 * 262144"
    using unat_byte [of a] unat_byte [of b] by linarith
  then have "(unat a * 65536 + unat b * 256) div 262144 < 64"
    by (simp add: less_mult_imp_div_less)
  moreover have "field_value_ok ''=''" by (simp add: field_value_ok_def ctl_byte_def)
  ultimately show ?case by (simp add: Let_def field_value_ok_Cons [of _ "_ # _"] base64_char_ok)
next
  case (3 a)
  have "unat a * 65536 < 64 * 262144" using unat_byte [of a] by linarith
  then have "unat a * 65536 div 262144 < 64" by (simp add: less_mult_imp_div_less)
  moreover have "field_value_ok ''=''" by (simp add: field_value_ok_def ctl_byte_def)
  ultimately show ?case by (simp add: Let_def field_value_ok_Cons [of _ "_ # _"] base64_char_ok)
qed (simp add: field_value_ok_def)

lemma generated_ok: "field_value_ok (generateWebSocketKey k)" "field_value_ok (generateSessionID s)"
proof -
  have "field_value_ok ''dGhlIHNhbXBsZSBub25jZQ==''" "field_value_ok ''0000000000000000''"
    by (simp_all add: field_value_ok_def ctl_byte_def)
  moreover have "field_value_ok (hex_encode b)" for b
  proof -
    let ?a = "''0123456789abcdef''"
    have "list_all (\<lambda>c. \<not> ctl_byte c) ?a" by (simp add: ctl_byte_def)
    then have "\<not> ctl_byte (?a ! n)" if "n < 16" for n
      using list_all_nth_ok [of "\<lambda>c. \<not> ctl_byte c" ?a n] that by simp
    moreover have "unat x div 16 < 16" for x :: byte using unat_byte [of x] by linarith
    ultimately show ?thesis by (auto simp: hex_encode_def field_value_ok_def list_all_iff)
  qed
  ultimately show "field_value_ok (generateWebSocketKey k)" "field_value_ok (generateSessionID s)"
    by (simp_all add: generateWebSocketKey_def generateSessionID_def base64_encode_ok split: option.split)
qed

text \<open>A mimicry configuration with which the handshake works.\<close>

definition mimic_ok :: "MimicConfig \<Rightarrow> bool" where
  "mimic_ok m \<longleftrightarrow> domain_ok (FakeDomain m) \<and> fake_path_ok (FakePath m) \<and> field_value_ok (UserAgent m) \<and>
     list_all custom_ok (CustomHeaders m)"

lemma domain_value_ok: "domain_ok d \<Longrightarrow> field_value_ok d \<and> list_all host_char d \<and> d \<noteq> ''''"
  using domain_chars [of d] by (auto simp: field_value_ok_def list_all_iff domain_ok_def)

lemma default_ua_ok: "field_value_ok default_ua"
  by (simp add: default_ua_def field_value_ok_def ctl_byte_def)

lemma build_request_ok:
  assumes "mimic_ok m"
  shows "\<exists>req. build_request r (Some m) = Ok req \<and> plain_request (FakeDomain m) (handshake_path (rnd_path r) (FakePath m)) req \<and>
    upgrade_headers (req_Header req)"
proof -
  let ?d = "FakeDomain m" and ?p = "FakePath m"
  have ok: "domain_ok ?d" "fake_path_ok ?p" "list_all custom_ok (CustomHeaders m)" "field_value_ok (UserAgent m)"
    using assms by (auto simp: mimic_ok_def)
  have ne: "?d \<noteq> ''''" "?p \<noteq> ''''"
    using ok by (auto simp: domain_ok_def fake_path_ok_def has_prefix_def)
  obtain req where req: "handshake_request (rnd_path r) ?d ?p = Ok req"
      "plain_request ?d (handshake_path (rnd_path r) ?p) req"
    using handshake_request_ok [OF ok(1,2)] by blast
  have "field_value_ok (str_or (UserAgent m) default_ua)"
    using ok(4) default_ua_ok by (simp add: str_or_def)
  then have h: "upgrade_headers (fold add_custom (CustomHeaders m)
      (base_headers ?d (str_or (UserAgent m) default_ua) (generateWebSocketKey (rnd_key r))))"
    using domain_value_ok [OF ok(1)] generated_ok(1) ok(3)
    by (intro upgrade_headers_customs upgrade_headers_base) simp_all
  have "field_value_ok (''session='' @ generateSessionID (rnd_sid r))" "field_value_ok ''; ''"
    using generated_ok(2) [of "rnd_sid r"] by (simp_all add: field_value_ok_def ctl_byte_def)
  then have "upgrade_headers (AddCookie (''session='' @ generateSessionID (rnd_sid r)) h')"
    if "upgrade_headers h'" for h'
    using that hdr_Get_ok [of h' "''Cookie''"] unfolding AddCookie_def
    by (simp add: upgrade_headers_Set canonical_keys upgrade_headers_def [of h'] del: append.simps append_Cons)
  then show ?thesis
    using h req ne by (auto simp: build_request_def Let_def plain_request_def)
qed

section \<open>The buffered connection refines the connection\<close>

text \<open>What a reader of the buffered connection still gets: the buffered bytes, then those of the connection.\<close>

definition bc_view :: "bufferedConn \<Rightarrow> conn" where
  "bc_view bc = (bc_Conn bc)\<lparr>conn_in := (case bc_r bc of None \<Rightarrow> [] | Some b \<Rightarrow> b) @ conn_in (bc_Conn bc)\<rparr>"

lemma bytes_of_string_of [simp]: "bytes_of (string_of b) = b"
  by (simp add: bytes_of_def string_of_def comp_def map_idI unat_byte)

text \<open>
  C21: \<open>bufferedConn\<close> refines the plain connection: while it is open, \<open>io.ReadFull\<close> through it returns what
  \<open>io.ReadFull\<close> returns on a connection whose unread bytes are the buffered ones followed by those still
  in the network, and leaves the same bytes unread.  After \<open>Close\<close>, any non-empty read dereferences the
  nil reader and panics, where a closed \<open>net.Conn\<close> returns an error.
\<close>

theorem bufferedConn_refines:
  assumes "bc_r bc = Some buf" "\<not> conn_closed (bc_Conn bc)"
  shows "read_full (bc_view bc) n = (bc_view (fst (bc_ReadFull bc n)), snd (bc_ReadFull bc n)) \<and>
    bc_r (fst (bc_ReadFull bc n)) \<noteq> None \<and>
    (n \<noteq> 0 \<longrightarrow> snd (bc_ReadFull (bc_Close bc) n) = Panic NilDeref \<and>
       snd (read_full (conn_close (bc_view bc)) n) = Err (NetErr ''use of closed network connection''))"
proof -
  have "read_full (bc_view bc) n = (bc_view (fst (bc_ReadFull bc n)), snd (bc_ReadFull bc n)) \<and>
    bc_r (fst (bc_ReadFull bc n)) \<noteq> None"
  proof (cases "n \<le> length buf")
    case True
    then show ?thesis using assms by (auto simp: bc_ReadFull_def bc_view_def read_full_def)
  next
    case False
    then show ?thesis
      using assms by (cases "n - length buf \<le> length (conn_in (bc_Conn bc))")
        (auto simp: bc_ReadFull_def bc_view_def read_full_def)
  qed
  then show ?thesis by (simp add: bc_ReadFull_def bc_Close_def read_full_def conn_close_def)
qed

definition demo_bc :: bufferedConn where
  "demo_bc = \<lparr>bc_Conn = \<lparr>conn_in = [3, 4], conn_out = [], conn_room = None, conn_closed = False\<rparr>, bc_r = Some [1, 2]\<rparr>"

theorem bufferedConn_refines_witness:
  "snd (bc_ReadFull demo_bc 3) = Ok [1, 2, 3] \<and> snd (bc_ReadFull (bc_Close demo_bc) 1) = Panic NilDeref"
  using bufferedConn_refines [of demo_bc "[1, 2]" 3] bufferedConn_refines [of demo_bc "[1, 2]" 1]
  by (simp add: demo_bc_def bc_view_def read_full_def)

end
