(* ===== verification/Stats.thy ===== *)
theory Stats
  imports Go_Prelude
begin

text \<open>
  \<^verbatim>\<open>stats.go\<close>: the counters shared by all goroutines.  Every access is one atomic 64-bit operation; an
  addition wraps around.  The contract that clients of a counter rely on is the locale \<open>gauge\<close>: paired
  increments and decrements cancel, and additions commute, so the order in which goroutines get to the
  counter does not matter.
\<close>

record Stats =
  ActiveConns :: int
  TotalConns :: int
  BytesSent :: int
  BytesRecv :: int
  Reconnects :: int
  FailedDials :: int
  ActiveSessions :: int
  StartedAt :: int

definition init_Stats :: "int \<Rightarrow> Stats" where
  "init_Stats now = \<lparr>ActiveConns = 0, TotalConns = 0, BytesSent = 0, BytesRecv = 0, Reconnects = 0,
     FailedDials = 0, ActiveSessions = 0, StartedAt = now\<rparr>"

text \<open>
  \<open>Snapshot\<close> loads field by field and other goroutines run between the loads: \<open>h n\<close> is the state of the
  counters at the \<open>n\<close>-th load.
\<close>

definition Snapshot :: "(nat \<Rightarrow> Stats) \<Rightarrow> Stats" where
  "Snapshot h = \<lparr>ActiveConns = ActiveConns (h 0), TotalConns = TotalConns (h 1), BytesSent = BytesSent (h 2),
     BytesRecv = BytesRecv (h 3), Reconnects = Reconnects (h 4), FailedDials = FailedDials (h 5),
     ActiveSessions = ActiveSessions (h 6), StartedAt = StartedAt (h 7)\<rparr>"

definition atomic_add :: "int \<Rightarrow> int \<Rightarrow> int" where
  "atomic_add x d = wrap64 (x + d)"

section \<open>Counters as gauges\<close>

locale gauge =
  fixes add :: "int \<Rightarrow> int \<Rightarrow> int" and range :: "int \<Rightarrow> bool"
  assumes add_add: "add (add x a) b = add x (a + b)"
    and add_zero: "range x \<Longrightarrow> add x 0 = x"
    and add_exact: "range (x + a) \<Longrightarrow> add x a = x + a"
begin

lemma add_commute: "add (add x a) b = add (add x b) a"
  by (simp add: add_add add.commute)

lemma add_cancel: "range x \<Longrightarrow> add (add x a) (- a) = x"
  by (simp add: add_add add_zero)

lemma fold_add: "range x \<Longrightarrow> fold (\<lambda>d y. add y d) ds x = add x (sum_list ds)"
  by (induction ds rule: rev_induct) (auto simp: add_add add_zero)

lemma fold_add_perm:
  "range x \<Longrightarrow> sum_list ds = sum_list es \<Longrightarrow> fold (\<lambda>d y. add y d) ds x = fold (\<lambda>d y. add y d) es x"
  by (simp add: fold_add)

end

lemma wrap64_add_left: "wrap64 (wrap64 a + b) = wrap64 (a + b)"
proof -
  have "(wrap64 a + b + 2 ^ 63) mod 2 ^ 64 = (a + b + 2 ^ 63) mod 2 ^ 64"
    by (simp add: wrap64_def mod_add_left_eq algebra_simps mod_simps)
  then show ?thesis by (simp add: wrap64_def [of "wrap64 a + b"] wrap64_def [of "a + b"])
qed

lemma wrap64_diff_left: "wrap64 (wrap64 a - b) = wrap64 (a - b)"
  using wrap64_add_left [of a "- b"] by simp

interpretation counter: gauge atomic_add int64_range
  by unfold_locales (simp_all add: atomic_add_def wrap64_add_left wrap64_id add.assoc)

section \<open>The periodic log line\<close>

text \<open>Go's integer division truncates towards zero; \<open>Round\<close> rounds half away from zero.\<close>

definition go_div :: "int \<Rightarrow> int \<Rightarrow> int" where
  "go_div a b = sgn a * sgn b * (\<bar>a\<bar> div \<bar>b\<bar>)"

definition duration_round :: "int \<Rightarrow> int \<Rightarrow> int" where
  "duration_round d m =
     (if m \<le> 0 then d
      else sgn d * (let r = \<bar>d\<bar> mod m in if 2 * r < m then \<bar>d\<bar> - r else \<bar>d\<bar> - r + m))"

record log_line =
  log_uptime :: int
  log_active :: int
  log_total :: int
  log_sessions :: int
  log_sentMB :: int
  log_recvMB :: int
  log_reconnects :: int
  log_fails :: int

definition LogStats :: "int \<Rightarrow> (nat \<Rightarrow> Stats) \<Rightarrow> log_line" where
  "LogStats now h =
     (let snap = Snapshot h in
      \<lparr>log_uptime = duration_round (now - StartedAt snap * second) second,
       log_active = ActiveConns snap, log_total = TotalConns snap,
       log_sessions = ActiveSessions snap,
       log_sentMB = go_div (BytesSent snap) (1024 * 1024),
       log_recvMB = go_div (BytesRecv snap) (1024 * 1024),
       log_reconnects = Reconnects snap, log_fails = FailedDials snap\<rparr>)"

definition StartStatsLogger_interval :: "int \<Rightarrow> int" where
  "StartStatsLogger_interval interval = (if interval \<le> 0 then 60 * second else interval)"

lemma LogStats_megabytes:
  "0 \<le> BytesSent (h 2) \<Longrightarrow> log_sentMB (LogStats now h) = BytesSent (h 2) div 1048576"
  by (cases "BytesSent (h 2) = 0") (simp_all add: LogStats_def Snapshot_def Let_def go_div_def)

end
