(* ===== verification/Relay.thy ===== *)
theory Relay
  imports Go_Net Stats
begin

text \<open>
  The shared helpers of \<^verbatim>\<open>server.go\<close>: the target header that opens a stream (\<open>sendTarget\<close>, the readers
  in \<open>handleForwardStream\<close> and \<open>handleReverseStream\<close>, \<open>splitTarget\<close>) and the bidirectional copy
  \<open>relay\<close> with its \<open>MeasuredReader\<close>, as a step relation over the interleavings of its two goroutines.
\<close>

section \<open>Stream targets\<close>

definition splitTarget :: "string \<Rightarrow> string \<times> string" where
  "splitTarget s =
     (if has_prefix s ''udp://'' then (''udp'', trim_prefix s ''udp://'')
      else (''tcp'', trim_prefix s ''tcp://''))"

definition sendTarget :: "conn \<Rightarrow> string \<Rightarrow> conn \<times> goerror option" where
  "sendTarget w target =
     (let b = bytes_of target; hdr = put_uint16 (word_of_nat (length b)) in
      case conn_write w hdr of
        (w, _, Some e) \<Rightarrow> (w, Some e)
      | (w, _, None) \<Rightarrow> (case conn_write w b of (w, _, r) \<Rightarrow> (w, r)))"

text \<open>Reading the header: None is an early return, after which the deferred \<open>stream.Close\<close> runs.\<close>

definition read_target :: "conn \<Rightarrow> conn \<times> string option" where
  "read_target s =
     (case read_full s 2 of
        (s, Ok hdr) \<Rightarrow>
          (case uint16_be hdr of
             Ok tLen \<Rightarrow>
               if tLen = 0 \<or> unat tLen > 4096 then (s, None)
               else (case read_full s (unat tLen) of
                       (s, Ok tBuf) \<Rightarrow> (s, Some (string_of tBuf))
                     | (s, _) \<Rightarrow> (s, None))
           | _ \<Rightarrow> (s, None))
      | (s, _) \<Rightarrow> (s, None))"

text \<open>
  The stream handlers.  The result says what became of the stream: closed before or at the dial, or handed
  to \<open>relay\<close> together with the connection that the dialler (an argument) opened.
\<close>

datatype 'r stream_result = Dropped | DialFailed string string | Relayed string string 'r

definition handleForwardStream :: "(string \<Rightarrow> string \<Rightarrow> 'r option) \<Rightarrow> conn \<Rightarrow> conn \<times> 'r stream_result" where
  "handleForwardStream dial stream =
     (case read_target stream of
        (s, None) \<Rightarrow> (conn_close s, Dropped)
      | (s, Some target) \<Rightarrow>
          (case splitTarget target of
             (network, addr) \<Rightarrow>
               (case dial network addr of
                  None \<Rightarrow> (conn_close s, DialFailed network addr)
                | Some remote \<Rightarrow> (s, Relayed network addr remote))))"

definition handleReverseStream :: "(string \<Rightarrow> string \<Rightarrow> 'r option) \<Rightarrow> conn \<Rightarrow> conn \<times> 'r stream_result" where
  "handleReverseStream dial stream =
     (case read_target stream of
        (s, None) \<Rightarrow> (conn_close s, Dropped)
      | (s, Some target) \<Rightarrow>
          (case splitTarget target of
             (network, addr) \<Rightarrow>
               (case dial network addr of
                  None \<Rightarrow> (conn_close s, DialFailed network addr)
                | Some remote \<Rightarrow> (s, Relayed network addr remote))))"

lemma splitTarget_scheme [simp]:
  "splitTarget (''tcp://'' @ a) = (''tcp'', a)" "splitTarget (''udp://'' @ a) = (''udp'', a)"
  by (simp_all add: splitTarget_def has_prefix_def trim_prefix_def)

lemma sendTarget_ok:
  assumes "\<not> conn_closed w" "conn_room w = None"
  shows "sendTarget w target =
    (w\<lparr>conn_out := conn_out w @ put_uint16 (word_of_nat (length target)) @ bytes_of target\<rparr>, None)"
  using assms by (simp add: sendTarget_def Let_def conn_write_unlimited)

lemma read_target_header:
  assumes "\<not> conn_closed s" "conn_in s = put_uint16 v @ rest"
  shows "read_target s =
    (if v = 0 \<or> 4096 < unat v then (s\<lparr>conn_in := rest\<rparr>, None)
     else if unat v \<le> length rest
       then (s\<lparr>conn_in := drop (unat v) rest\<rparr>, Some (string_of (take (unat v) rest)))
     else (s\<lparr>conn_in := []\<rparr>, None))"
proof -
  have r: "read_full s 2 = (s\<lparr>conn_in := rest\<rparr>, Ok (put_uint16 v))"
    using assms by (intro read_full_append) auto
  have "read_full (s\<lparr>conn_in := rest\<rparr>) (unat v) =
      (if unat v \<le> length rest then (s\<lparr>conn_in := drop (unat v) rest\<rparr>, Ok (take (unat v) rest))
       else (s\<lparr>conn_in := []\<rparr>, Err (if rest = [] then EOF else UnexpectedEOF)))" if "v \<noteq> 0"
    using assms(1) that by (simp add: read_full_def unat_eq_0)
  then show ?thesis by (simp add: read_target_def r wire_simps)
qed

text \<open>What the receiver makes of a target of any length: its length is taken modulo 65536.\<close>

lemma read_target_sent:
  assumes "\<not> conn_closed s" "conn_in s = put_uint16 (word_of_nat (length target)) @ bytes_of target @ rest"
    and "k = length target mod 65536" "0 < k" "k \<le> 4096"
  shows "read_target s = (s\<lparr>conn_in := drop k (bytes_of target) @ rest\<rparr>, Some (take k target))"
proof -
  let ?v = "word_of_nat (length target) :: 16 word"
  have v: "unat ?v = k" using assms(3) by (simp add: unat_len)
  then have "?v \<noteq> 0" using assms(4) by (metis less_numeral_extra(3) unat_0)
  moreover have "k \<le> length target" using assms(3) by simp
  moreover have "string_of (take k (bytes_of target)) = take k target"
    by (simp add: string_of_take)
  ultimately show ?thesis
    using read_target_header [OF assms(1,2)] v assms(5) by simp
qed

section \<open>The bidirectional copy\<close>

text \<open>
  One copier reads chunks of at most 131072 bytes from \<open>src\<close> through a \<open>MeasuredReader\<close>, which adds
  every chunk to a counter, and writes them to \<open>dst\<close>.  It finishes, closing \<open>dst\<close>, when a write fails or
  when \<open>src\<close> has reached its end or has been closed under it; it waits while \<open>src\<close> is open, has
  delivered everything and is not at its end.  The flag says whether the end of \<open>src\<close> follows its data; a
  \<open>Read\<close> that fails for another reason ends the copy in the same way (\<open>io.CopyBuffer\<close> returns and its error is
  dropped), so that the data of \<open>src\<close> is what it delivers before its end or such an error.
\<close>

datatype copier = Copying | Finished

definition relayBufSize :: nat where
  "relayBufSize = 128 * 1024"

definition MeasuredReader_Read :: "int \<Rightarrow> bytes \<Rightarrow> int" where
  "MeasuredReader_Read counter chunk =
     (if 0 < length chunk then atomic_add counter (int (length chunk)) else counter)"

inductive cp_step :: "bool \<Rightarrow> conn \<times> conn \<times> int \<times> copier \<Rightarrow> conn \<times> conn \<times> int \<times> copier \<Rightarrow> bool"
  for eof where
  cp_chunk: "conn_in src = chunk @ rest \<Longrightarrow> 0 < length chunk \<Longrightarrow> length chunk \<le> relayBufSize \<Longrightarrow>
     conn_write dst chunk = (dst', k, None) \<Longrightarrow>
     cp_step eof (src, dst, n, Copying)
       (src\<lparr>conn_in := rest\<rparr>, dst', MeasuredReader_Read n chunk, Copying)"
| cp_write_error: "conn_in src = chunk @ rest \<Longrightarrow> 0 < length chunk \<Longrightarrow> length chunk \<le> relayBufSize \<Longrightarrow>
     conn_write dst chunk = (dst', k, Some e) \<Longrightarrow>
     cp_step eof (src, dst, n, Copying)
       (src\<lparr>conn_in := rest\<rparr>, conn_close dst', MeasuredReader_Read n chunk, Finished)"
| cp_read_end: "conn_closed src \<or> conn_in src = [] \<and> eof \<Longrightarrow>
     cp_step eof (src, dst, n, Copying) (src, conn_close dst, n, Finished)"


record relay =
  end_a :: conn
  end_b :: conn
  eof_a :: bool
  eof_b :: bool
  cp_to_a :: copier
  cp_to_b :: copier
  rl_stats :: Stats

definition relay_start :: "conn \<Rightarrow> conn \<Rightarrow> bool \<Rightarrow> bool \<Rightarrow> Stats \<Rightarrow> relay" where
  "relay_start a b ea eb st = \<lparr>end_a = a, end_b = b, eof_a = ea, eof_b = eb,
     cp_to_a = Copying, cp_to_b = Copying,
     rl_stats = st\<lparr>ActiveConns := atomic_add (ActiveConns st) 1, TotalConns := atomic_add (TotalConns st) 1\<rparr>\<rparr>"

inductive relay_step :: "relay \<Rightarrow> relay \<Rightarrow> bool" where
  to_a: "cp_step (eof_b s) (end_b s, end_a s, BytesSent (rl_stats s), cp_to_a s) (b, a, n, c) \<Longrightarrow>
     relay_step s (s\<lparr>end_a := a, end_b := b, cp_to_a := c, rl_stats := (rl_stats s)\<lparr>BytesSent := n\<rparr>\<rparr>)"
| to_b: "cp_step (eof_a s) (end_a s, end_b s, BytesRecv (rl_stats s), cp_to_b s) (a, b, n, c) \<Longrightarrow>
     relay_step s (s\<lparr>end_a := a, end_b := b, cp_to_b := c, rl_stats := (rl_stats s)\<lparr>BytesRecv := n\<rparr>\<rparr>)"


subsection \<open>Invariant\<close>

text \<open>
  One direction: \<open>x\<close> is what has been read of the source's data so far; it has been counted, a prefix of
  it has been written, all of it while the copier runs, and a finished copier has closed its destination.
\<close>

definition flow_inv :: "conn \<Rightarrow> conn \<Rightarrow> int \<Rightarrow> conn \<Rightarrow> conn \<Rightarrow> int \<Rightarrow> copier \<Rightarrow> bool" where
  "flow_inv src0 dst0 n0 src dst n c \<longleftrightarrow>
     (\<exists>x k. conn_in src0 = x @ conn_in src \<and> n = atomic_add n0 (int (length x)) \<and>
        conn_out dst = conn_out dst0 @ take k x \<and> (c = Copying \<longrightarrow> length x \<le> k) \<and>
        (c = Finished \<longrightarrow> conn_closed dst))"

lemma conn_close_simps [simp]:
  "conn_in (conn_close c) = conn_in c" "conn_out (conn_close c) = conn_out c" "conn_closed (conn_close c)"
  by (simp_all add: conn_close_def)

lemma conn_write_closed [simp]: "conn_closed (fst (conn_write c b)) = conn_closed c"
  by (auto simp: conn_write_def split: option.splits)

lemma flow_inv_step:
  assumes "cp_step eof (src, dst, n, c) (src', dst', n', c')" "flow_inv src0 dst0 n0 src dst n c"
  shows "flow_inv src0 dst0 n0 src' dst' n' c'"
  using assms(1)
proof (cases rule: cp_step.cases)
  case (cp_chunk chunk rest k)
  then obtain x where x: "conn_in src0 = x @ conn_in src" "n = atomic_add n0 (int (length x))"
    "conn_out dst = conn_out dst0 @ x"
    using assms(2) by (auto simp: flow_inv_def)
  have "conn_out dst' = conn_out dst @ chunk" using conn_write_ok cp_chunk by blast
  then show ?thesis
    using cp_chunk x unfolding flow_inv_def MeasuredReader_Read_def
    by (intro exI [of _ "x @ chunk"] exI [of _ "length (x @ chunk)"]) (auto simp: counter.add_add)
next
  case (cp_write_error chunk rest dst1 k e)
  then obtain x where x: "conn_in src0 = x @ conn_in src" "n = atomic_add n0 (int (length x))"
    "conn_out dst = conn_out dst0 @ x"
    using assms(2) by (auto simp: flow_inv_def)
  obtain j where "conn_out dst1 = conn_out dst @ take j chunk" "j \<le> length chunk"
    using conn_write_prefix [of chunk dst] cp_write_error by auto
  then show ?thesis
    using cp_write_error x unfolding flow_inv_def MeasuredReader_Read_def
    by (intro exI [of _ "x @ chunk"] exI [of _ "length x + j"]) (auto simp: counter.add_add)
next
  case cp_read_end
  then show ?thesis using assms(2) by (auto simp: flow_inv_def)
qed

text \<open>A step of the other direction changes only the parts of the endpoints this direction does not use.\<close>

lemma flow_inv_frame:
  assumes "cp_step eof (dst, src, m, d) (dst', src', m', d')" "flow_inv src0 dst0 n0 src dst n c"
  shows "flow_inv src0 dst0 n0 src' dst' n c"
proof -
  have "conn_in src' = conn_in src \<and> conn_out dst' = conn_out dst \<and> (conn_closed dst \<longrightarrow> conn_closed dst')"
    using assms(1)
  proof (cases rule: cp_step.cases)
    case (cp_chunk chunk rest k)
    then show ?thesis using conn_write_in [of src chunk] by auto
  next
    case (cp_write_error chunk rest dst1 k e)
    then show ?thesis using conn_write_in [of src chunk] by auto
  qed auto
  then show ?thesis using assms(2) by (auto simp: flow_inv_def)
qed

definition relay_inv :: "conn \<Rightarrow> conn \<Rightarrow> Stats \<Rightarrow> relay \<Rightarrow> bool" where
  "relay_inv a b st s \<longleftrightarrow>
     flow_inv b a (BytesSent st) (end_b s) (end_a s) (BytesSent (rl_stats s)) (cp_to_a s) \<and>
     flow_inv a b (BytesRecv st) (end_a s) (end_b s) (BytesRecv (rl_stats s)) (cp_to_b s) \<and>
     ActiveConns (rl_stats s) = atomic_add (ActiveConns st) 1 \<and>
     TotalConns (rl_stats s) = atomic_add (TotalConns st) 1"

lemma relay_inv_start:
  "int64_range (BytesSent st) \<Longrightarrow> int64_range (BytesRecv st) \<Longrightarrow> relay_inv a b st (relay_start a b ea eb st)"
  by (simp add: relay_inv_def relay_start_def flow_inv_def counter.add_zero)

lemma relay_inv_step: "relay_step s t \<Longrightarrow> relay_inv a b st s \<Longrightarrow> relay_inv a b st t"
  by (cases rule: relay_step.cases) (auto simp: relay_inv_def dest: flow_inv_step flow_inv_frame)

lemma relay_inv_reach: "relay_step\<^sup>*\<^sup>* s t \<Longrightarrow> relay_inv a b st s \<Longrightarrow> relay_inv a b st t"
  by (induction rule: rtranclp_induct) (auto dest: relay_inv_step)

subsection \<open>Termination and progress\<close>








lemma relay_flows:
  assumes "int64_range (BytesSent st)" "int64_range (BytesRecv st)"
    and "relay_step\<^sup>*\<^sup>* (relay_start a b ea eb st) s"
  shows "flow_inv a b (BytesRecv st) (end_a s) (end_b s) (BytesRecv (rl_stats s)) (cp_to_b s)"
    and "flow_inv b a (BytesSent st) (end_b s) (end_a s) (BytesSent (rl_stats s)) (cp_to_a s)"
  using relay_inv_reach [OF assms(3)] relay_inv_start [OF assms(1,2)] by (auto simp: relay_inv_def)

text \<open>Two relays in a row: what the first has written is what the second reads, after \<open>pre\<close>.\<close>

lemma flow_chain:
  assumes "flow_inv src mid n0 src' mid' n c" "flow_inv mid2 dst m0 mid2' dst' m d"
    and "conn_out mid' = conn_out mid @ conn_in mid2"
  shows "\<exists>k. conn_out dst' = conn_out dst @ take k (conn_in src) \<and>
    (c = Copying \<and> conn_in src' = [] \<and> d = Copying \<and> conn_in mid2' = [] \<longrightarrow> take k (conn_in src) = conn_in src)"
proof -
  obtain x k where x: "conn_in src = x @ conn_in src'" "conn_out mid' = conn_out mid @ take k x" "c = Copying \<longrightarrow> length x \<le> k"
    using assms(1) by (auto simp: flow_inv_def)
  obtain y j where y: "conn_in mid2 = y @ conn_in mid2'" "conn_out dst' = conn_out dst @ take j y" "d = Copying \<longrightarrow> length y \<le> j"
    using assms(2) by (auto simp: flow_inv_def)
  have xy: "take k x = y @ conn_in mid2'" using x(2) y(1) assms(3) by simp
  have "y = take (length y) (take k x)" by (simp add: xy)
  then have "take j y = take (min j (min (length y) k)) x" by (metis min.commute take_take)
  also have "\<dots> = take (min (length x) (min j (min (length y) k))) (conn_in src)" by (simp add: x(1) min_def)
  finally have t: "take j y = take (min (length x) (min j (min (length y) k))) (conn_in src)" .
  moreover have "take j y = conn_in src" if "c = Copying" "conn_in src' = []" "d = Copying" "conn_in mid2' = []"
    using x y xy that by simp
  ultimately show ?thesis using y(2) by metis
qed

section \<open>Properties\<close>

text \<open>
  A target of 1 to 4096 bytes sent with \<open>sendTarget\<close> is the target the other end's handler dials,
  with the network taken from its scheme, in the forward direction (server handler) and in the reverse
  direction (client handler) alike; the bytes after the header are left for the relay.
\<close>

theorem sendTarget_dialled:
  assumes "\<not> conn_closed w" "conn_room w = None" "conn_out w = []"
    and "0 < length target" "length target \<le> 4096"
    and "\<not> conn_closed s" "conn_in s = conn_out (fst (sendTarget w target)) @ rest"
    and "splitTarget target = (network, addr)" "dial network addr = Some remote"
  shows "snd (sendTarget w target) = None \<and>
    handleForwardStream dial s = (s\<lparr>conn_in := rest\<rparr>, Relayed network addr remote) \<and>
    handleReverseStream dial s = (s\<lparr>conn_in := rest\<rparr>, Relayed network addr remote)"
proof -
  have "conn_in s = put_uint16 (word_of_nat (length target)) @ bytes_of target @ rest"
    using sendTarget_ok [OF assms(1,2), of target] assms(3,7) by simp
  then have "read_target s = (s\<lparr>conn_in := rest\<rparr>, Some target)"
    using read_target_sent [OF assms(6), of target rest "length target"] assms(4,5) by simp
  then show ?thesis
    using sendTarget_ok [OF assms(1,2)] assms(8,9)
    by (simp add: handleForwardStream_def handleReverseStream_def)
qed

definition demo_stream :: conn where
  "demo_stream = \<lparr>conn_in = [], conn_out = [], conn_room = None, conn_closed = False\<rparr>"

theorem sendTarget_dialled_witness:
  "snd (handleReverseStream (\<lambda>net addr. Some (net, addr))
      (demo_stream\<lparr>conn_in := conn_out (fst (sendTarget demo_stream ''udp://8.8.8.8:53'')) @ [1, 2]\<rparr>)) =
   Relayed ''udp'' ''8.8.8.8:53'' (''udp'', ''8.8.8.8:53'')"
proof -
  have "splitTarget ''udp://8.8.8.8:53'' = (''udp'', ''8.8.8.8:53'')"
    using splitTarget_scheme(2) [of "''8.8.8.8:53''"] by simp
  then show ?thesis
    using sendTarget_dialled [of demo_stream "''udp://8.8.8.8:53''"
      "demo_stream\<lparr>conn_in := conn_out (fst (sendTarget demo_stream ''udp://8.8.8.8:53'')) @ [1, 2]\<rparr>"
      "[1, 2]" "''udp''" "''8.8.8.8:53''" "\<lambda>net addr. Some (net, addr)"]
    by (simp add: demo_stream_def)
qed

text \<open>
  the length of a target is sent modulo 65536.  A target whose length reduces to 0 or to more than
  4096 is sent without error and dropped by the receiver; a longer one whose length reduces to
  \<open>k \<le> 4096\<close> is dialled as its first \<open>k\<close> bytes, the rest of it becoming the start of the relayed data.
\<close>

theorem sendTarget_length_wraps:
  assumes "\<not> conn_closed w" "conn_room w = None" "conn_out w = []"
    and "\<not> conn_closed s" "conn_in s = conn_out (fst (sendTarget w target))"
  shows "snd (sendTarget w target) = None \<and>
    (let k = length target mod 65536 in
      (k = 0 \<or> 4096 < k \<longrightarrow> snd (handleForwardStream dial s) = Dropped) \<and>
      (0 < k \<and> k \<le> 4096 \<longrightarrow>
         read_target s = (s\<lparr>conn_in := drop k (bytes_of target)\<rparr>, Some (take k target))))"
proof -
  let ?v = "word_of_nat (length target) :: 16 word"
  have i: "conn_in s = put_uint16 ?v @ bytes_of target @ []"
    using sendTarget_ok [OF assms(1,2), of target] assms(3,5) by simp
  have v: "unat ?v = length target mod 65536" by (simp add: unat_len)
  have "snd (handleForwardStream dial s) = Dropped" if "unat ?v = 0 \<or> 4096 < unat ?v"
    using that read_target_header [OF assms(4) i]
    by (auto simp: handleForwardStream_def unat_eq_0)
  then show ?thesis
    using sendTarget_ok [OF assms(1,2)] read_target_sent [OF assms(4) i] v by (simp add: Let_def)
qed

theorem sendTarget_length_wraps_witness:
  "snd (handleForwardStream (\<lambda>_ _. Some ())
     (demo_stream\<lparr>conn_in := conn_out (fst (sendTarget demo_stream (replicate 5000 CHR ''x'')))\<rparr>)) = Dropped"
  using sendTarget_length_wraps [of demo_stream
      "demo_stream\<lparr>conn_in := conn_out (fst (sendTarget demo_stream (replicate 5000 CHR ''x'')))\<rparr>"
      "replicate 5000 CHR ''x''" "\<lambda>_ _. Some ()"]
  by (simp add: demo_stream_def)

text \<open>
  C4: safety of \<open>relay\<close> under every interleaving of its two copiers.  What has been written to an end is
  a prefix of what has been read from the other, and all of it while that direction still runs; the byte
  counters have grown by exactly the number of bytes read; an end whose incoming direction has finished
  is closed.
\<close>

theorem relay_safe:
  assumes "int64_range (BytesSent st)" "int64_range (BytesRecv st)"
    and "relay_step\<^sup>*\<^sup>* (relay_start a b ea eb st) s"
  shows "\<exists>x y k j. conn_in a = x @ conn_in (end_a s) \<and> conn_in b = y @ conn_in (end_b s) \<and>
    conn_out (end_b s) = conn_out b @ take k x \<and> conn_out (end_a s) = conn_out a @ take j y \<and>
    (cp_to_b s = Copying \<longrightarrow> length x \<le> k) \<and> (cp_to_a s = Copying \<longrightarrow> length y \<le> j) \<and>
    (cp_to_b s = Finished \<longrightarrow> conn_closed (end_b s)) \<and> (cp_to_a s = Finished \<longrightarrow> conn_closed (end_a s)) \<and>
    BytesRecv (rl_stats s) = atomic_add (BytesRecv st) (int (length x)) \<and>
    BytesSent (rl_stats s) = atomic_add (BytesSent st) (int (length y))"
proof -
  have "relay_inv a b st s"
    using relay_inv_reach [OF assms(3)] relay_inv_start [OF assms(1,2)] by blast
  then show ?thesis unfolding relay_inv_def flow_inv_def by blast
qed

lemma relay_demo_step:
  "relay_step (relay_start (demo_stream\<lparr>conn_in := [7, 8]\<rparr>) demo_stream True False (init_Stats 0))
     ((relay_start (demo_stream\<lparr>conn_in := []\<rparr>) (demo_stream\<lparr>conn_out := [7, 8]\<rparr>) True False (init_Stats 0))
        \<lparr>rl_stats := (init_Stats 0)\<lparr>ActiveConns := 1, TotalConns := 1, BytesRecv := 2\<rparr>\<rparr>)"
proof -
  let ?s = "relay_start (demo_stream\<lparr>conn_in := [7, 8]\<rparr>) demo_stream True False (init_Stats 0)"
  have "cp_step (eof_a ?s) (end_a ?s, end_b ?s, BytesRecv (rl_stats ?s), cp_to_b ?s)
      (demo_stream\<lparr>conn_in := []\<rparr>, demo_stream\<lparr>conn_out := [7, 8]\<rparr>, 2, Copying)"
    using cp_chunk [of "demo_stream\<lparr>conn_in := [7, 8]\<rparr>" "[7, 8]" "[]" demo_stream
        "demo_stream\<lparr>conn_out := [7, 8]\<rparr>" 2 True 0]
    by (simp add: relay_start_def relayBufSize_def conn_write_def demo_stream_def init_Stats_def
        MeasuredReader_Read_def atomic_add_def wrap64_def)
  from to_b [OF this] show ?thesis
    by (simp add: relay_start_def init_Stats_def atomic_add_def wrap64_def)
qed

theorem relay_safe_witness:
  "\<exists>s. relay_step\<^sup>*\<^sup>* (relay_start (demo_stream\<lparr>conn_in := [7, 8]\<rparr>) demo_stream True False (init_Stats 0)) s \<and>
     conn_out (end_b s) = [7, 8] \<and> BytesRecv (rl_stats s) = atomic_add 0 2"
proof -
  let ?t = "(relay_start (demo_stream\<lparr>conn_in := []\<rparr>) (demo_stream\<lparr>conn_out := [7, 8]\<rparr>) True False (init_Stats 0))
        \<lparr>rl_stats := (init_Stats 0)\<lparr>ActiveConns := 1, TotalConns := 1, BytesRecv := 2\<rparr>\<rparr>"
  have r: "relay_step\<^sup>*\<^sup>* (relay_start (demo_stream\<lparr>conn_in := [7, 8]\<rparr>) demo_stream True False (init_Stats 0)) ?t"
    using relay_demo_step by (rule r_into_rtranclp)
  from relay_safe [OF _ _ r] obtain x k where
    "[7, 8] = x @ conn_in (end_a ?t)" "conn_out (end_b ?t) = take k x" "length x \<le> k"
    "BytesRecv (rl_stats ?t) = atomic_add 0 (int (length x))"
    by (auto simp: init_Stats_def int64_range_def demo_stream_def relay_start_def)
  moreover have "conn_in (end_a ?t) = []" by (simp add: relay_start_def)
  ultimately have "conn_out (end_b ?t) = [7, 8] \<and> BytesRecv (rl_stats ?t) = atomic_add 0 2" by auto
  with r show ?thesis by blast
qed





end
