(* ===== verification/Server_Sessions.thy ===== *)
theory Server_Sessions
  imports Relay Config
begin

text \<open>
  The session table of \<^verbatim>\<open>server.go\<close>: \<open>setSession\<close>, \<open>clearSession\<close>, \<open>openStream\<close> and one tick of
  \<open>cleanupSessions\<close>, with their locking.  A smux session is a third-party object; here it is a number,
  fresh for every \<open>smux.Server\<close> call, with what the code asks of it (\<open>IsClosed\<close>, \<open>NumStreams\<close>) in the
  state and the result of \<open>OpenStream\<close> as an argument.  Sessions may die and streams may come and go
  between any two operations (the environment step).
\<close>

type_synonym sid = nat

record Server =
  srv_Config :: Config
  srv_Mimic :: MimicConfig
  srv_Obfs :: ObfsConfig
  srv_PSK :: string
  srv_Verbose :: bool
  sessions :: "string \<rightharpoonup> sid"
  sessionCreated :: "string \<rightharpoonup> int"
  srv_active :: int                 \<comment> \<open>GlobalStats.ActiveSessions\<close>
  IsClosed :: "sid \<Rightarrow> bool"
  NumStreams :: "sid \<Rightarrow> nat"
  next_sid :: sid

definition NewServer :: "Config \<Rightarrow> Server" where
  "NewServer cfg = \<lparr>srv_Config = cfg, srv_Mimic = Mimic cfg, srv_Obfs = Obfs cfg, srv_PSK = PSK cfg,
     srv_Verbose = Verbose cfg, sessions = Map.empty, sessionCreated = Map.empty, srv_active = 0,
     IsClosed = (\<lambda>_. False), NumStreams = (\<lambda>_. 0), next_sid = 0\<rparr>"

definition sess_close :: "sid \<Rightarrow> Server \<Rightarrow> Server" where
  "sess_close i s = s\<lparr>IsClosed := (IsClosed s)(i := True)\<rparr>"

text \<open>
  \<open>setSession\<close> releases the lock between the map update and the counter updates, so it is two steps:
  the locked one, which returns the session it replaced, and the rest.  The rest adds to the counter twice, atomically
  each time; it is one step here because nothing decides by the counter in between.
\<close>

definition setSession_locked :: "string \<Rightarrow> sid \<Rightarrow> int \<Rightarrow> Server \<Rightarrow> Server \<times> sid option" where
  "setSession_locked key sess now s =
     (s\<lparr>sessions := (sessions s)(key \<mapsto> sess), sessionCreated := (sessionCreated s)(key \<mapsto> now)\<rparr>,
      sessions s key)"

definition setSession_rest :: "sid option \<Rightarrow> sid \<Rightarrow> Server \<Rightarrow> Server" where
  "setSession_rest old sess s =
     (let s = s\<lparr>srv_active := atomic_add (srv_active s) 1\<rparr>
      in case old of
           Some o' \<Rightarrow> if o' \<noteq> sess then sess_close o' (s\<lparr>srv_active := atomic_add (srv_active s) (- 1)\<rparr>) else s
         | None \<Rightarrow> s)"

definition setSession :: "string \<Rightarrow> sid \<Rightarrow> int \<Rightarrow> Server \<Rightarrow> Server" where
  "setSession key sess now s =
     (case setSession_locked key sess now s of (s, old) \<Rightarrow> setSession_rest old sess s)"

definition drop_session :: "string \<Rightarrow> Server \<Rightarrow> Server" where
  "drop_session key s = s\<lparr>sessions := (sessions s)(key := None), sessionCreated := (sessionCreated s)(key := None),
     srv_active := atomic_add (srv_active s) (- 1)\<rparr>"

definition clearSession :: "string \<Rightarrow> sid \<Rightarrow> Server \<Rightarrow> Server" where
  "clearSession key sess s = (if sessions s key = Some sess then drop_session key s else s)"

text \<open>\<open>openStream\<close> ranges over the map in an unspecified order: \<open>order\<close> lists its keys.\<close>

fun openStream_loop ::
    "(sid \<Rightarrow> goerror + 'st) \<Rightarrow> string list \<Rightarrow> goerror option \<Rightarrow> Server \<Rightarrow> Server \<times> 'st outcome" where
  "openStream_loop opn [] lastErr s =
     (s, case lastErr of
           Some e \<Rightarrow> Err (Wrapped ''all sessions failed: '' e)
         | None \<Rightarrow> Err (Msg ''no active client session''))"
| "openStream_loop opn (k # ks) lastErr s =
     (case sessions s k of
        None \<Rightarrow> openStream_loop opn ks lastErr s
      | Some sess \<Rightarrow>
          if IsClosed s sess then openStream_loop opn ks lastErr s
          else if NumStreams s sess > 200 then openStream_loop opn ks lastErr s
          else (case opn sess of
                  Inr stream \<Rightarrow> (s, Ok stream)
                | Inl e \<Rightarrow> openStream_loop opn ks (Some e) (sess_close sess s)))"

definition openStream :: "(sid \<Rightarrow> goerror + 'st) \<Rightarrow> string list \<Rightarrow> Server \<Rightarrow> Server \<times> 'st outcome" where
  "openStream opn order s = openStream_loop opn order None s"

text \<open>One tick of \<open>cleanupSessions\<close> at time \<open>now\<close> (nanoseconds), again in the order of the range loop.\<close>

definition zombie :: "int \<Rightarrow> string \<Rightarrow> sid \<Rightarrow> Server \<Rightarrow> bool" where
  "zombie now key sess s \<longleftrightarrow>
     (case sessionCreated s key of
        Some created \<Rightarrow> NumStreams s sess = 0 \<and> now - created > 3 * minute
      | None \<Rightarrow> False)"

definition cleanup_key :: "int \<Rightarrow> string \<Rightarrow> Server \<Rightarrow> Server" where
  "cleanup_key now key s =
     (case sessions s key of
        None \<Rightarrow> s
      | Some sess \<Rightarrow>
          if IsClosed s sess then drop_session key s
          else if zombie now key sess s then drop_session key (sess_close sess s)
          else s)"

definition cleanupSessions :: "int \<Rightarrow> string list \<Rightarrow> Server \<Rightarrow> Server" where
  "cleanupSessions now order s = fold (cleanup_key now) order s"

text \<open>
  \<open>upgrade\<close> after its handshake: \<open>smux.Server\<close> returns a new session, open and without streams, which is
  registered under the remote address.
\<close>

definition smux_Server :: "Server \<Rightarrow> Server \<times> sid" where
  "smux_Server s = (let i = next_sid s in
     (s\<lparr>next_sid := Suc i, IsClosed := (IsClosed s)(i := False), NumStreams := (NumStreams s)(i := 0)\<rparr>, i))"

definition upgrade_register :: "string \<Rightarrow> int \<Rightarrow> Server \<Rightarrow> Server \<times> sid" where
  "upgrade_register key now s = (case smux_Server s of (s, i) \<Rightarrow> (setSession key i now s, i))"

section \<open>Steps and reachable states\<close>

text \<open>
  A state is the server and the \<open>setSession\<close> calls that have released the lock but not yet updated the
  counter, in any order; the goroutines' steps interleave freely.
\<close>

type_synonym srv_state = "Server \<times> (sid option \<times> sid) list"

definition map_order :: "string list \<Rightarrow> Server \<Rightarrow> bool" where
  "map_order order s \<longleftrightarrow> distinct order \<and> set order = dom (sessions s)"

inductive srv_step :: "srv_state \<Rightarrow> srv_state \<Rightarrow> bool" where
  registered: "smux_Server s = (s', i) \<Longrightarrow> setSession_locked key i now s' = (t, old) \<Longrightarrow>
    srv_step (s, ps) (t, (old, i) # ps)"
| counted: "srv_step (s, ps @ (old, i) # qs) (setSession_rest old i s, ps @ qs)"
| session_ended: "i < next_sid s \<Longrightarrow> srv_step (s, ps) (clearSession key i s, ps)"
| stream_opened: "map_order order s \<Longrightarrow>
    srv_step (s, ps) (fst (openStream (opn :: sid \<Rightarrow> goerror + nat) order s), ps)"
| cleaned: "map_order order s \<Longrightarrow> srv_step (s, ps) (cleanupSessions now order s, ps)"
| environment: "(\<And>i. IsClosed s i \<Longrightarrow> c i) \<Longrightarrow> srv_step (s, ps) (s\<lparr>IsClosed := c, NumStreams := n\<rparr>, ps)"

inductive srv_reachable :: "Config \<Rightarrow> srv_state \<Rightarrow> bool" for cfg where
  srv_init: "srv_reachable cfg (NewServer cfg, [])"
| srv_next: "srv_reachable cfg s \<Longrightarrow> srv_step s t \<Longrightarrow> srv_reachable cfg t"

section \<open>Invariant\<close>

text \<open>
  The two maps have the same keys, the counter together with the \<open>d\<close> increments still to come counts
  them, every registered session has been created and no two keys share one.
\<close>

definition srv_inv :: "int \<Rightarrow> Server \<Rightarrow> bool" where
  "srv_inv d s \<longleftrightarrow> finite (dom (sessions s)) \<and> dom (sessionCreated s) = dom (sessions s) \<and>
     srv_active s = wrap64 (int (card (dom (sessions s))) - d) \<and>
     ran (sessions s) \<subseteq> {..<next_sid s} \<and> inj_on (sessions s) (dom (sessions s))"

fun pending_delta :: "sid option \<times> sid \<Rightarrow> int" where
  "pending_delta (None, i) = 1"
| "pending_delta (Some j, i) = (if j = i then 1 else 0)"

definition pending :: "(sid option \<times> sid) list \<Rightarrow> int" where
  "pending ps = sum_list (map pending_delta ps)"

lemma sess_close_frame [simp]:
  "sessions (sess_close i s) = sessions s" "sessionCreated (sess_close i s) = sessionCreated s"
  "srv_active (sess_close i s) = srv_active s" "next_sid (sess_close i s) = next_sid s"
  "NumStreams (sess_close i s) = NumStreams s"
  by (simp_all add: sess_close_def)

lemma srv_inv_cong:
  assumes "sessions t = sessions s" "sessionCreated t = sessionCreated s" "srv_active t = srv_active s"
    "next_sid t = next_sid s"
  shows "srv_inv d t \<longleftrightarrow> srv_inv d s"
  using assms by (simp add: srv_inv_def)

lemma srv_inv_sess_close [simp]: "srv_inv d (sess_close i s) \<longleftrightarrow> srv_inv d s"
  by (rule srv_inv_cong) simp_all

lemma srv_inv_drop:
  assumes "srv_inv d s" "sessions s key = Some i"
  shows "srv_inv d (drop_session key s)"
proof -
  have f: "finite (dom (sessions s))" "key \<in> dom (sessions s)"
    using assms by (auto simp: srv_inv_def)
  then have c: "int (card (dom (sessions s))) - d - 1 = int (card (dom (sessions s) - {key})) - d"
    using card_Suc_Diff1 [OF f] by linarith
  have "atomic_add (srv_active s) (- 1) = wrap64 (int (card (dom (sessions s))) - d - 1)"
    using assms(1) by (simp add: srv_inv_def atomic_add_def wrap64_diff_left)
  then have "atomic_add (srv_active s) (- 1) = wrap64 (int (card (dom (sessions s) - {key})) - d)"
    by (simp only: c)
  moreover have "ran ((sessions s)(key := None)) \<subseteq> ran (sessions s)"
    by (auto simp: ran_def)
  moreover have "inj_on ((sessions s)(key := None)) (dom (sessions s) - {key})"
    using assms(1) by (auto simp: srv_inv_def inj_on_def)
  ultimately show ?thesis
    using assms(1) f(1) by (auto simp: srv_inv_def drop_session_def)
qed

lemma srv_inv_register:
  assumes "srv_inv d s" "smux_Server s = (s', i)" "setSession_locked key i now s' = (t, old)"
  shows "srv_inv (d + pending_delta (old, i)) t"
proof -
  let ?d = "dom (sessions s)"
  have f: "finite ?d" and fresh: "next_sid s \<notin> ran (sessions s)"
    using assms by (auto simp: srv_inv_def)
  have ran: "ran ((sessions s)(key \<mapsto> next_sid s)) \<subseteq> {..<Suc (next_sid s)}"
    using assms(1) by (auto simp: srv_inv_def ran_def split: if_splits)
  have inj: "inj_on ((sessions s)(key \<mapsto> next_sid s)) (insert key ?d)"
    using assms(1) fresh by (auto simp: srv_inv_def inj_on_def ran_def)
  have "int (card (insert key ?d)) = int (card ?d) + pending_delta (sessions s key, next_sid s)"
  proof (cases "sessions s key")
    case None
    then show ?thesis using f by (simp add: domIff)
  next
    case (Some old)
    then have "insert key ?d = ?d" "old \<noteq> next_sid s" using fresh by (auto simp: ran_def)
    then show ?thesis using Some by simp
  qed
  moreover have "dom ((sessionCreated s)(key \<mapsto> now)) = insert key ?d"
    using assms(1) by (simp add: srv_inv_def)
  moreover have "dom ((sessions s)(key \<mapsto> next_sid s)) = insert key ?d" by simp
  ultimately show ?thesis using assms ran inj f
    by (clarsimp simp del: dom_fun_upd inj_on_insert simp: smux_Server_def setSession_locked_def Let_def srv_inv_def)
      (metis fun_upd_apply fresh ranI)
qed

lemma setSession_rest_frame [simp]:
  "sessions (setSession_rest old i s) = sessions s" "sessionCreated (setSession_rest old i s) = sessionCreated s"
  "next_sid (setSession_rest old i s) = next_sid s" "NumStreams (setSession_rest old i s) = NumStreams s"
  by (simp_all add: setSession_rest_def Let_def split: option.split)

lemma setSession_rest_active:
  assumes "int64_range (srv_active s)"
  shows "srv_active (setSession_rest old i s) = atomic_add (srv_active s) (pending_delta (old, i))"
  using counter.add_cancel [OF assms, of 1] assms
  by (cases old) (auto simp: setSession_rest_def Let_def counter.add_zero)

lemma srv_inv_rest:
  assumes "srv_inv (pending_delta (old, i) + d) s"
  shows "srv_inv d (setSession_rest old i s)"
proof -
  have "int64_range (srv_active s)" using assms by (simp add: srv_inv_def wrap64_range)
  then have "srv_active (setSession_rest old i s) = wrap64 (int (card (dom (sessions s))) - d)"
    using assms by (simp add: setSession_rest_active srv_inv_def atomic_add_def wrap64_add_left)
  then show ?thesis using assms by (simp add: srv_inv_def)
qed

lemma srv_inv_clear: "srv_inv d s \<Longrightarrow> srv_inv d (clearSession key i s)"
  by (simp add: clearSession_def srv_inv_drop)

lemma openStream_loop_frame:
  "sessions (fst (openStream_loop opn ks e s)) = sessions s \<and>
   sessionCreated (fst (openStream_loop opn ks e s)) = sessionCreated s \<and>
   srv_active (fst (openStream_loop opn ks e s)) = srv_active s \<and>
   next_sid (fst (openStream_loop opn ks e s)) = next_sid s"
  by (induction opn ks e s rule: openStream_loop.induct) (auto split: option.splits sum.splits)

lemma srv_inv_openStream: "srv_inv d s \<Longrightarrow> srv_inv d (fst (openStream opn order s))"
  using srv_inv_cong [of "fst (openStream opn order s)" s] openStream_loop_frame [of opn order None s]
  by (simp add: openStream_def)

lemma srv_inv_cleanup_key: "srv_inv d s \<Longrightarrow> srv_inv d (cleanup_key now key s)"
  by (auto simp: cleanup_key_def srv_inv_drop split: option.splits)

lemma srv_inv_cleanup: "srv_inv d s \<Longrightarrow> srv_inv d (cleanupSessions now order s)"
  unfolding cleanupSessions_def by (induction order arbitrary: s) (auto simp: srv_inv_cleanup_key)

lemma srv_inv_step: "srv_step s t \<Longrightarrow> srv_inv (pending (snd s)) (fst s) \<Longrightarrow> srv_inv (pending (snd t)) (fst t)"
proof (induction rule: srv_step.induct)
  case (registered s s' i key now t old ps)
  then show ?case using srv_inv_register [of "pending ps" s s' i key now t old]
    by (simp add: pending_def add.commute)
next
  case (counted s ps old i qs)
  then show ?case using srv_inv_rest [of old i "pending (ps @ qs)" s]
    by (simp add: pending_def algebra_simps)
next
  case (environment s c ps n)
  then show ?case by (simp add: srv_inv_def)
qed (simp_all add: srv_inv_clear srv_inv_openStream srv_inv_cleanup)

lemma srv_reachable_inv: "srv_reachable cfg s \<Longrightarrow> srv_inv (pending (snd s)) (fst s)"
proof (induction rule: srv_reachable.induct)
  case srv_init
  then show ?case by (simp add: NewServer_def srv_inv_def wrap64_def pending_def)
next
  case (srv_next s t)
  then show ?case by (blast intro: srv_inv_step)
qed

section \<open>One cleanup tick\<close>

definition doomed :: "int \<Rightarrow> Server \<Rightarrow> string \<Rightarrow> bool" where
  "doomed now s key \<longleftrightarrow>
     (case sessions s key of None \<Rightarrow> False | Some i \<Rightarrow> IsClosed s i \<or> zombie now key i s)"

text \<open>
  Abstract specification of a tick: every doomed key goes at once, the sessions of zombies are closed.
  It does not depend on the order in which the map is visited.
\<close>

definition cleanup_spec :: "int \<Rightarrow> string set \<Rightarrow> Server \<Rightarrow> Server" where
  "cleanup_spec now ks s = s\<lparr>
     sessions := (\<lambda>k. if k \<in> ks \<and> doomed now s k then None else sessions s k),
     sessionCreated := (\<lambda>k. if k \<in> ks \<and> doomed now s k then None else sessionCreated s k),
     srv_active := atomic_add (srv_active s) (- int (card {k \<in> ks. doomed now s k})),
     IsClosed := (\<lambda>i. IsClosed s i \<or> (\<exists>k \<in> ks. sessions s k = Some i \<and> zombie now k i s))\<rparr>"

lemma cleanup_spec_sel:
  "sessions (cleanup_spec now ks s) k = (if k \<in> ks \<and> doomed now s k then None else sessions s k)"
  "sessionCreated (cleanup_spec now ks s) k = (if k \<in> ks \<and> doomed now s k then None else sessionCreated s k)"
  "NumStreams (cleanup_spec now ks s) = NumStreams s"
  "IsClosed (cleanup_spec now ks s) i =
     (IsClosed s i \<or> (\<exists>k \<in> ks. sessions s k = Some i \<and> zombie now k i s))"
  by (simp_all add: cleanup_spec_def)

lemma cleanup_spec_empty: "int64_range (srv_active s) \<Longrightarrow> cleanup_spec now {} s = s"
  by (simp add: cleanup_spec_def counter.add_zero)

lemma cleanup_spec_spared:
  assumes "\<not> doomed now s k"
  shows "cleanup_spec now (insert k ks) s = cleanup_spec now ks s"
proof -
  have "{l \<in> insert k ks. doomed now s l} = {l \<in> ks. doomed now s l}"
    and "\<And>i. \<not> (sessions s k = Some i \<and> zombie now k i s)"
    and "\<And>l. (l \<in> insert k ks \<and> doomed now s l) = (l \<in> ks \<and> doomed now s l)"
    using assms by (auto simp: doomed_def)
  then show ?thesis by (simp only: cleanup_spec_def bex_simps simp_thms)
qed

lemma cleanup_spec_doomed:
  assumes "sessions s k = Some i" "doomed now s k" "k \<notin> ks" "finite ks"
  shows "cleanup_spec now (insert k ks) s =
    drop_session k (if zombie now k i s then sess_close i (cleanup_spec now ks s) else cleanup_spec now ks s)"
proof -
  have "{l \<in> insert k ks. doomed now s l} = insert k {l \<in> ks. doomed now s l}" using assms by auto
  then have c: "atomic_add (atomic_add (srv_active s) (- int (card {l \<in> ks. doomed now s l}))) (- 1) =
      atomic_add (srv_active s) (- int (card {l \<in> insert k ks. doomed now s l}))"
    using assms(3,4) by (simp add: counter.add_add algebra_simps)
  have m: "(\<lambda>l. if l \<in> insert k ks \<and> doomed now s l then None else f l) =
      (\<lambda>l. if l \<in> ks \<and> doomed now s l then None else f l)(k := None)" for f :: "string \<rightharpoonup> 'a"
    using assms by (auto simp: fun_eq_iff)
  have z: "(\<lambda>j. IsClosed s j \<or> (\<exists>l \<in> insert k ks. sessions s l = Some j \<and> zombie now l j s)) =
      (if zombie now k i s
       then (\<lambda>j. IsClosed s j \<or> (\<exists>l \<in> ks. sessions s l = Some j \<and> zombie now l j s))(i := True)
       else (\<lambda>j. IsClosed s j \<or> (\<exists>l \<in> ks. sessions s l = Some j \<and> zombie now l j s)))"
    using assms(1) by (auto simp: fun_eq_iff)
  show ?thesis
    by (simp add: drop_session_def sess_close_def cleanup_spec_def c m z del: insert_iff bex_simps)
qed

text \<open>Handling one more key: the other keys' sessions are other sessions, so its fate is unchanged.\<close>

lemma spec_other:
  assumes "srv_inv d s" "k \<notin> ks" "sessions s k = Some i"
  shows "IsClosed (cleanup_spec now ks s) i = IsClosed s i"
    "zombie now k i (cleanup_spec now ks s) = zombie now k i s"
proof -
  show "zombie now k i (cleanup_spec now ks s) = zombie now k i s"
    using assms(2) by (simp add: zombie_def cleanup_spec_sel split: option.split)
  have "sessions s l \<noteq> Some i" if "l \<in> ks" for l
    using that assms unfolding srv_inv_def inj_on_def by (metis domI)
  then show "IsClosed (cleanup_spec now ks s) i = IsClosed s i"
    by (simp add: cleanup_spec_sel)
qed

lemma cleanup_key_spec:
  assumes "srv_inv d s" "k \<notin> ks" "finite ks"
  shows "cleanup_key now k (cleanup_spec now ks s) = cleanup_spec now (insert k ks) s"
proof (cases "sessions s k")
  case None
  then have "\<not> doomed now s k" by (simp add: doomed_def)
  then show ?thesis using None by (simp add: cleanup_spec_spared cleanup_key_def cleanup_spec_sel)
next
  case (Some i)
  have o: "sessions (cleanup_spec now ks s) k = Some i" using Some assms(2) by (simp add: cleanup_spec_sel)
  have key: "cleanup_key now k (cleanup_spec now ks s) =
      (if IsClosed s i then drop_session k (cleanup_spec now ks s)
       else if zombie now k i s then drop_session k (sess_close i (cleanup_spec now ks s))
       else cleanup_spec now ks s)"
    using spec_other [OF assms(1,2) Some] by (simp add: cleanup_key_def o)
  have closed: "sess_close i (cleanup_spec now ks s) = cleanup_spec now ks s" if "IsClosed s i"
    using that by (simp add: sess_close_def cleanup_spec_sel fun_upd_idem)
  show ?thesis
  proof (cases "doomed now s k")
    case False
    then have "\<not> IsClosed s i \<and> \<not> zombie now k i s" using Some by (simp add: doomed_def)
    then show ?thesis using False by (simp add: key cleanup_spec_spared)
  next
    case True
    then have "IsClosed s i \<or> zombie now k i s" using Some by (simp add: doomed_def)
    then show ?thesis using closed by (auto simp: key cleanup_spec_doomed [OF Some True assms(2,3)])
  qed
qed

lemma cleanupSessions_spec:
  assumes "srv_inv d s" "distinct order"
  shows "cleanupSessions now order s = cleanup_spec now (set order) s"
  using assms(2)
proof (induction order rule: rev_induct)
  case Nil
  then show ?case
    using assms(1) by (simp add: cleanupSessions_def cleanup_spec_empty srv_inv_def wrap64_range)
next
  case (snoc k ks)
  then have "cleanupSessions now (ks @ [k]) s = cleanup_key now k (cleanup_spec now (set ks) s)"
    by (simp add: cleanupSessions_def)
  then show ?case using cleanup_key_spec [OF assms(1), of k "set ks" now] snoc.prems by simp
qed

section \<open>Opening a stream\<close>

definition usable :: "Server \<Rightarrow> string \<Rightarrow> sid \<Rightarrow> bool" where
  "usable s k i \<longleftrightarrow> sessions s k = Some i \<and> \<not> IsClosed s i \<and> NumStreams s i \<le> 200"

lemma usable_sess_close:
  "usable (sess_close j s) k i \<longleftrightarrow> usable s k i \<and> i \<noteq> j"
  by (auto simp: usable_def sess_close_def)

lemma openStream_loop_cons:
  "openStream_loop opn (k # ks) e s =
     (case sessions s k of
        Some i \<Rightarrow> if usable s k i
                  then (case opn i of Inr st \<Rightarrow> (s, Ok st) | Inl e' \<Rightarrow> openStream_loop opn ks (Some e') (sess_close i s))
                  else openStream_loop opn ks e s
      | None \<Rightarrow> openStream_loop opn ks e s)"
  by (simp add: usable_def split: option.split sum.split)

text \<open>
  The loop succeeds exactly when some usable session opens a stream, and then with such a session's
  stream; the sessions it closes are usable ones whose \<open>OpenStream\<close> failed.
\<close>

lemma openStream_loop_Ok:
  "snd (openStream_loop opn ks e s) = Ok st \<Longrightarrow> \<exists>k \<in> set ks. \<exists>i. usable s k i \<and> opn i = Inr st"
proof (induction ks arbitrary: e s)
  case (Cons k ks)
  have rest: ?case if "snd (openStream_loop opn ks f t) = Ok st" "\<And>l i. usable t l i \<Longrightarrow> usable s l i" for f t
    using Cons.IH [OF that(1)] that(2) by auto
  show ?case
  proof (cases "sessions s k")
    case None
    then show ?thesis using Cons.prems rest [of e s] by simp
  next
    case (Some i)
    show ?thesis
    proof (cases "usable s k i")
      case True
      then show ?thesis
        using Cons.prems Some rest [of _ "sess_close i s"]
        by (auto simp: openStream_loop_cons usable_sess_close simp del: openStream_loop.simps split: sum.splits)
    next
      case False
      then show ?thesis
        using Cons.prems Some rest [of e s] by (simp add: openStream_loop_cons del: openStream_loop.simps)
    qed
  qed
qed (simp split: option.splits)

lemma openStream_loop_finds:
  "k \<in> set ks \<Longrightarrow> usable s k i \<Longrightarrow> opn i = Inr st \<Longrightarrow> \<exists>st. snd (openStream_loop opn ks e s) = Ok st"
proof (induction ks arbitrary: e s)
  case (Cons l ks)
  have *: "usable (sess_close j s) k i" if "opn j = Inl x" for j x
    using that Cons.prems by (auto simp: usable_sess_close)
  show ?case
  proof (cases "l = k")
    case True
    have "sessions s k = Some i" using Cons.prems(2) by (simp add: usable_def)
    then show ?thesis using True Cons.prems(2,3) by (simp add: openStream_loop_cons del: openStream_loop.simps)
  next
    case False
    then have "k \<in> set ks" using Cons.prems(1) by simp
    then show ?thesis
      using Cons.IH Cons.prems(2,3) *
      by (simp add: openStream_loop_cons del: openStream_loop.simps split: option.split sum.split)
  qed
qed simp

lemma openStream_loop_closes:
  "IsClosed (fst (openStream_loop opn ks e s)) i \<Longrightarrow> \<not> IsClosed s i \<Longrightarrow>
     (\<exists>k \<in> set ks. usable s k i) \<and> isl (opn i)"
proof (induction ks arbitrary: e s)
  case (Cons k ks)
  note IH = Cons.IH [of _ s, OF _ Cons.prems(2)]
  show ?case
  proof (cases "\<exists>j. sessions s k = Some j \<and> usable s k j")
    case False
    then have "openStream_loop opn (k # ks) e s = openStream_loop opn ks e s"
      by (simp add: openStream_loop_cons del: openStream_loop.simps split: option.split)
    then show ?thesis using Cons.prems(1) IH [of e] by simp
  next
    case True
    then obtain j where j: "sessions s k = Some j" "usable s k j" by blast
    show ?thesis
    proof (cases "opn j")
      case (Inl x)
      have l: "openStream_loop opn (k # ks) e s = openStream_loop opn ks (Some x) (sess_close j s)"
        using j Inl by (simp add: openStream_loop_cons del: openStream_loop.simps)
      show ?thesis
      proof (cases "i = j")
        case True
        then show ?thesis using j Inl by auto
      next
        case False
        then have "\<not> IsClosed (sess_close j s) i" using Cons.prems(2) by (simp add: sess_close_def)
        from Cons.IH [OF _ this] Cons.prems(1) show ?thesis by (auto simp: l usable_sess_close simp del: openStream_loop.simps)
      qed
    next
      case (Inr st)
      then show ?thesis using j Cons.prems by (simp add: openStream_loop_cons del: openStream_loop.simps)
    qed
  qed
qed simp

text \<open>The error says whether any session was tried at all.\<close>

lemma openStream_loop_error:
  "snd (openStream_loop opn ks e s) = Err (Msg ''no active client session'') \<longleftrightarrow>
     e = None \<and> (\<forall>k \<in> set ks. \<forall>i. \<not> usable s k i)"
proof (induction ks arbitrary: e s)
  case Nil
  then show ?case by (simp split: option.split)
next
  case (Cons k ks)
  show ?case
  proof (cases "\<exists>i. usable s k i")
    case True
    then obtain i where i: "usable s k i" by blast
    then have "sessions s k = Some i" by (simp add: usable_def)
    then show ?thesis
      using i Cons.IH by (auto simp: openStream_loop_cons simp del: openStream_loop.simps split: sum.split)
  next
    case False
    then show ?thesis
      using Cons.IH by (auto simp: openStream_loop_cons simp del: openStream_loop.simps split: option.split)
  qed
qed

section \<open>Properties\<close>

text \<open>
  C6: In every interleaving of the server's goroutines (registrations, each split where \<open>setSession\<close>
  releases the lock, ending sessions, stream openings, cleanup ticks, sessions dying at any time), the
  session map and the creation-time map have the same keys, no session is registered twice, and
  \<open>GlobalStats.ActiveSessions\<close> is the number of registered sessions minus the registrations whose counter
  update is still to come; so it is exactly that number whenever no registration is half done.
\<close>

theorem sessions_accounted:
  assumes "srv_reachable cfg (s, ps)"
  shows "dom (sessionCreated s) = dom (sessions s) \<and> inj_on (sessions s) (dom (sessions s)) \<and>
    srv_active s = wrap64 (int (card (dom (sessions s))) - pending ps) \<and>
    (ps = [] \<and> card (dom (sessions s)) < 2 ^ 63 \<longrightarrow> srv_active s = int (card (dom (sessions s))))"
proof -
  have inv: "srv_inv (pending ps) s" using srv_reachable_inv [OF assms] by simp
  moreover have "wrap64 (int (card (dom (sessions s)))) = int (card (dom (sessions s)))"
    if "card (dom (sessions s)) < 2 ^ 63"
  proof -
    have "int (card (dom (sessions s))) < 2 ^ 63" using that by (metis of_nat_less_iff of_nat_numeral of_nat_power)
    then show ?thesis by (simp add: wrap64_id int64_range_def)
  qed
  ultimately show ?thesis by (auto simp: srv_inv_def pending_def)
qed

text \<open>One client registered: first half done, then complete.\<close>

definition half_registered :: srv_state where
  "half_registered = (case setSession_locked ''1.2.3.4:5'' 0 7 (fst (smux_Server (NewServer zero_Config))) of
     (s, old) \<Rightarrow> (s, [(old, 0)]))"

definition one_session :: Server where
  "one_session = setSession ''1.2.3.4:5'' 0 7 (fst (smux_Server (NewServer zero_Config)))"

lemma half_registered_reachable: "srv_reachable zero_Config half_registered"
proof -
  have "srv_step (NewServer zero_Config, []) half_registered"
    using registered [of "NewServer zero_Config" "fst (smux_Server (NewServer zero_Config))" 0 "''1.2.3.4:5''" 7]
    by (simp add: half_registered_def smux_Server_def NewServer_def setSession_locked_def Let_def)
  then show ?thesis using srv_init srv_next by blast
qed

lemma one_session_reachable: "srv_reachable zero_Config (one_session, [])"
proof -
  have "srv_step half_registered (one_session, [])"
    using counted [of "fst half_registered" "[]" None 0 "[]"]
    by (simp add: half_registered_def one_session_def setSession_def smux_Server_def NewServer_def
        setSession_locked_def Let_def)
  then show ?thesis using half_registered_reachable srv_next by blast
qed

lemma one_session_sel:
  "sessions one_session = [''1.2.3.4:5'' \<mapsto> 0]" "sessionCreated one_session = [''1.2.3.4:5'' \<mapsto> 7]"
  "IsClosed one_session i = False" "NumStreams one_session i = 0"
  by (simp_all add: one_session_def setSession_def smux_Server_def NewServer_def setSession_locked_def
      setSession_rest_def Let_def)

theorem sessions_accounted_witness:
  "srv_active one_session = 1 \<and> dom (sessionCreated one_session) = {''1.2.3.4:5''}"
  using sessions_accounted [OF one_session_reachable] by (simp add: one_session_sel)

text \<open>
  C12: One tick of \<open>cleanupSessions\<close> refines its abstract specification whatever order the map is visited
  in: exactly the keys whose session is closed, or has no stream and was created more than three minutes
  ago, disappear, the latter sessions being closed; every session that stays is open, and has a stream
  or is at most three minutes old.
\<close>

theorem cleanup_tick:
  assumes "srv_reachable cfg (s, ps)" "map_order order s"
  shows "cleanupSessions now order s = cleanup_spec now (dom (sessions s)) s \<and>
    (\<forall>k i. sessions (cleanupSessions now order s) k = Some i \<longrightarrow>
       sessions s k = Some i \<and> \<not> IsClosed (cleanupSessions now order s) i \<and>
       (\<exists>c. sessionCreated s k = Some c \<and> (0 < NumStreams s i \<or> now - c \<le> 3 * minute)))"
proof -
  have inv: "srv_inv (pending ps) s" using srv_reachable_inv [OF assms(1)] by simp
  have spec: "cleanupSessions now order s = cleanup_spec now (dom (sessions s)) s"
    using cleanupSessions_spec [OF inv] assms(2) by (simp add: map_order_def)
  have "sessions s k = Some i \<and> \<not> IsClosed (cleanup_spec now (dom (sessions s)) s) i \<and>
      (\<exists>c. sessionCreated s k = Some c \<and> (0 < NumStreams s i \<or> now - c \<le> 3 * minute))"
    if stays: "sessions (cleanup_spec now (dom (sessions s)) s) k = Some i" for k i
  proof -
    have k: "sessions s k = Some i" and nd: "\<not> doomed now s k"
      using stays by (auto simp: cleanup_spec_sel split: if_splits)
    obtain c where c: "sessionCreated s k = Some c"
      using k inv by (metis srv_inv_def domD domI)
    have only: "l = k" if "sessions s l = Some i" for l
      using that k inv unfolding srv_inv_def inj_on_def by (metis domI)
    have alive: "\<not> IsClosed s i" "\<not> zombie now k i s"
      using k nd by (simp_all add: doomed_def)
    then have "\<not> (\<exists>l \<in> dom (sessions s). sessions s l = Some i \<and> zombie now l i s)"
      using only by blast
    then have "\<not> IsClosed (cleanup_spec now (dom (sessions s)) s) i"
      using alive by (simp only: cleanup_spec_sel simp_thms)
    then show ?thesis using k alive(2) c by (auto simp: zombie_def)
  qed
  then show ?thesis unfolding spec by blast
qed

theorem cleanup_tick_witness:
  "sessions (cleanupSessions (4 * minute) [''1.2.3.4:5''] one_session) = Map.empty \<and>
   sessions (cleanupSessions (2 * minute) [''1.2.3.4:5''] one_session) = [''1.2.3.4:5'' \<mapsto> 0]"
proof -
  have order: "map_order [''1.2.3.4:5''] one_session" by (simp add: map_order_def one_session_sel)
  have doomed: "doomed now one_session ''1.2.3.4:5'' \<longleftrightarrow> 3 * minute < now - 7" for now
    by (simp add: doomed_def zombie_def one_session_sel)
  have "cleanupSessions now [''1.2.3.4:5''] one_session = cleanup_spec now {''1.2.3.4:5''} one_session" for now
    using cleanup_tick [OF one_session_reachable order, of now] by (simp add: one_session_sel)
  then show ?thesis
    by (simp add: cleanup_spec_def doomed one_session_sel fun_eq_iff minute_def second_def)
qed

text \<open>
  C26: \<open>openStream\<close>, whatever order the map is visited in, returns a stream exactly when some registered
  session that is open and has at most 200 streams opens one, and the stream is of such a session; the
  error \<open>no active client session\<close> is returned exactly when there is no such session to try; and the
  only sessions it closes are those that failed to open a stream.
\<close>

theorem openStream_complete:
  assumes "map_order order s"
  shows "(\<exists>st. snd (openStream opn order s) = Ok st) = (\<exists>k i st. usable s k i \<and> opn i = Inr st) \<and>
    (\<forall>st. snd (openStream opn order s) = Ok st \<longrightarrow> (\<exists>k i. usable s k i \<and> opn i = Inr st)) \<and>
    (snd (openStream opn order s) = Err (Msg ''no active client session'')) = (\<forall>k i. \<not> usable s k i) \<and>
    (\<forall>i. IsClosed (fst (openStream opn order s)) i \<and> \<not> IsClosed s i \<longrightarrow> (\<exists>k. usable s k i) \<and> isl (opn i))"
proof -
  have o: "k \<in> set order" if "usable s k i" for k i
    using that assms by (auto simp: usable_def map_order_def)
  show ?thesis
    unfolding openStream_def
    using openStream_loop_Ok [of opn order None s] openStream_loop_finds [of _ order s _ opn _ None]
      openStream_loop_error [of opn order None s] openStream_loop_closes [of opn order None s] o
    by (intro conjI) blast+
qed

theorem openStream_complete_witness:
  "snd (openStream (\<lambda>i. Inr (5 :: nat)) [''1.2.3.4:5''] one_session) = Ok 5 \<and>
   snd (openStream (\<lambda>i. Inl EOF :: goerror + nat) [] (NewServer zero_Config)) = Err (Msg ''no active client session'')"
proof -
  have m: "map_order [''1.2.3.4:5''] one_session" "map_order [] (NewServer zero_Config)"
    by (simp_all add: map_order_def one_session_sel NewServer_def)
  have u: "usable one_session ''1.2.3.4:5'' 0" "\<not> usable (NewServer zero_Config) k i" for k i
    by (simp_all add: usable_def one_session_sel NewServer_def)
  obtain st where st: "snd (openStream (\<lambda>i. Inr (5 :: nat)) [''1.2.3.4:5''] one_session) = Ok st"
    using openStream_complete [OF m(1), of "\<lambda>i. Inr (5 :: nat)"] u(1) by blast
  moreover have "st = 5"
    using openStream_complete [OF m(1), of "\<lambda>i. Inr (5 :: nat)"] st by blast
  moreover have "snd (openStream (\<lambda>i. Inl EOF :: goerror + nat) [] (NewServer zero_Config)) =
      Err (Msg ''no active client session'')"
    using openStream_complete [OF m(2), of "\<lambda>i. Inl EOF :: goerror + nat"] u(2) by blast
  ultimately show ?thesis by simp
qed

text \<open>
  A client that reconnects from the same address: \<open>setSession\<close> installs the new session, closes the
  replaced one and leaves the counter where it was, and when the replaced session's accept loop ends
  later, its \<open>clearSession\<close> does not remove its successor.
\<close>

theorem replaced_session:
  assumes "sessions s key = Some i" "i \<noteq> j" "int64_range (srv_active s)" "t = setSession key j now s"
  shows "sessions t key = Some j \<and> IsClosed t i \<and> srv_active t = srv_active s \<and> clearSession key i t = t \<and>
    sessions (clearSession key j t) key = None"
  using assms setSession_rest_active [OF assms(3), of "Some i" j]
  by (simp add: setSession_def setSession_locked_def setSession_rest_def Let_def clearSession_def
      drop_session_def sess_close_def counter.add_cancel)

theorem replaced_session_witness:
  "sessions (setSession ''1.2.3.4:5'' 1 9 one_session) ''1.2.3.4:5'' = Some 1 \<and>
   IsClosed (setSession ''1.2.3.4:5'' 1 9 one_session) 0"
proof -
  have "srv_active one_session = 1"
    by (simp add: one_session_def setSession_def smux_Server_def NewServer_def setSession_locked_def
        setSession_rest_def Let_def atomic_add_def wrap64_def)
  then have "int64_range (srv_active one_session)" by (simp add: int64_range_def)
  from replaced_session [OF _ _ this refl, of "''1.2.3.4:5''" 0 1 9] show ?thesis by (simp add: one_session_sel)
qed

end
