(* ===== verification/Server_Http.thy ===== *)
theory Server_Http
  imports Mimic Server_Sessions
begin

text \<open>
  The HTTP front of \<^verbatim>\<open>server.go\<close>: route registration in \<open>Start\<close>, the handlers, \<open>validate\<close>, the decoy
  responses, \<open>upgrade\<close>, and the helpers \<open>buildSmuxConfig\<close> and \<open>mimicPath\<close>.
\<close>

section \<open>\<open>net.ParseIP\<close>\<close>

definition v4_field :: "string \<Rightarrow> bool" where
  "v4_field f \<longleftrightarrow> f \<noteq> '''' \<and> length f \<le> 3 \<and> (length f > 1 \<longrightarrow> hd f \<noteq> CHR ''0'') \<and>
     (case digits_value 0 f of Some n \<Rightarrow> n \<le> 255 | None \<Rightarrow> False)"

definition is_IPv4 :: "string \<Rightarrow> bool" where
  "is_IPv4 s = (let fs = str_split ''.'' s in length fs = 4 \<and> list_all v4_field fs)"

definition is_hex :: "char \<Rightarrow> bool" where
  "is_hex c \<longleftrightarrow> unhex c \<noteq> None"

text \<open>The groups of an IPv6 address: \<open>i\<close> bytes are filled, \<open>ell\<close> tells whether \<open>::\<close> was seen.\<close>

function v6_groups :: "nat \<Rightarrow> bool \<Rightarrow> string \<Rightarrow> bool" where
  "v6_groups i ell s =
     (if 16 \<le> i then s = '''' \<and> \<not> ell
      else
        let d = takeWhile is_hex s; r = dropWhile is_hex s in
        if d = '''' \<or> length d > 4 then False
        else if r = '''' then (if i + 2 < 16 then ell else \<not> ell)
        else if hd r = CHR ''.'' then (ell \<or> i = 12) \<and> i + 4 \<le> 16 \<and> is_IPv4 s \<and> (ell \<longleftrightarrow> i + 4 < 16)
        else if hd r \<noteq> CHR '':'' \<or> tl r = '''' then False
        else if hd (tl r) = CHR '':'' then
          (if ell then False else if tl (tl r) = '''' then i + 2 < 16 else v6_groups (i + 2) True (tl (tl r)))
        else v6_groups (i + 2) ell (tl r))"
  by pat_completeness auto
termination by (relation "measure (\<lambda>(i, _, _). 16 - i)") auto

declare v6_groups.simps [simp del]

definition is_IPv6 :: "string \<Rightarrow> bool" where
  "is_IPv6 s = (if has_prefix s ''::'' then length s = 2 \<or> v6_groups 0 True (drop 2 s) else v6_groups 0 False s)"

definition ParseIP_ok :: "string \<Rightarrow> bool" where
  "ParseIP_ok s =
     (case find (\<lambda>c. c \<in> set ''.:%'') s of
        Some c \<Rightarrow> if c = CHR ''.'' then is_IPv4 s else if c = CHR '':'' then is_IPv6 s else False
      | None \<Rightarrow> False)"

section \<open>\<open>http.ServeMux\<close> with literal patterns\<close>

definition path_unescape :: "string \<Rightarrow> string" where
  "path_unescape s = (case url_unescape EncPath s of Ok t \<Rightarrow> t | _ \<Rightarrow> s)"

definition mux_segs :: "string \<Rightarrow> string list" where
  "mux_segs p = map path_unescape (str_split ''/'' (tl p))"

definition mux_matches :: "string \<Rightarrow> string \<Rightarrow> bool" where
  "mux_matches pat p =
     (let ps = mux_segs pat; qs = mux_segs p in
      if last ps = '''' then take (length ps - 1) qs = butlast ps \<and> length ps \<le> length qs else ps = qs)"

text \<open>\<open>HandleFunc\<close> panics on a pattern with white space or one that is registered already.\<close>

fun mux_register :: "(string \<times> 'h) list \<Rightarrow> (string \<times> 'h) list \<Rightarrow> (string \<times> 'h) list outcome" where
  "mux_register reg [] = Ok reg"
| "mux_register reg ((p, h) # rest) =
     (if (\<exists>c \<in> set p. blank c) \<or> mux_segs p \<in> set (map (mux_segs \<circ> fst) reg) then Panic DuplicatePattern
      else mux_register (reg @ [(p, h)]) rest)"

text \<open>\<open>cleanPath\<close>: no empty, dot or dot-dot segments; a trailing slash is kept.\<close>

fun clean_segs :: "string list \<Rightarrow> string list \<Rightarrow> string list" where
  "clean_segs acc [] = rev acc"
| "clean_segs acc (x # xs) =
     (if x = '''' \<or> x = ''.'' then clean_segs acc xs
      else if x = ''..'' then clean_segs (tl acc) xs else clean_segs (x # acc) xs)"

definition cleanPath :: "string \<Rightarrow> string" where
  "cleanPath p =
     (if p = '''' then ''/''
      else let q = (if hd p = CHR ''/'' then p else CHR ''/'' # p);
               np = CHR ''/'' # str_join ''/'' (clean_segs [] (str_split ''/'' q))
           in if last q = CHR ''/'' \<and> np \<noteq> ''/'' then np @ ''/'' else np)"

datatype 'h routed = Handler 'h | Redirect string | NotFound

text \<open>The more literal segments, the more specific is a pattern.\<close>

definition mux_literals :: "string \<Rightarrow> nat" where
  "mux_literals pat = (let ps = mux_segs pat in if last ps = '''' then length ps - 1 else length ps)"

definition better_match :: "string \<Rightarrow> string \<times> 'h \<Rightarrow> (string \<times> 'h) option \<Rightarrow> (string \<times> 'h) option" where
  "better_match p x best =
     (if mux_matches (fst x) p \<and> (case best of None \<Rightarrow> True | Some b \<Rightarrow> mux_literals (fst b) < mux_literals (fst x))
      then Some x else best)"

definition longest_match :: "(string \<times> 'h) list \<Rightarrow> string \<Rightarrow> (string \<times> 'h) option" where
  "longest_match reg p = fold (better_match p) reg None"

text \<open>
  \<open>findHandler\<close>: the clean path is matched; a path that lacks the final slash of a pattern, or is not
  clean, is redirected.
\<close>

definition mux_route :: "(string \<times> 'h) list \<Rightarrow> url \<Rightarrow> 'h routed" where
  "mux_route reg u =
     (let e = EscapedPath u; p = cleanPath e in
      case longest_match reg p of
        None \<Rightarrow> NotFound
      | Some (pat, h) \<Rightarrow>
          if mux_segs pat \<noteq> mux_segs p \<and> \<not> has_suffix p ''/'' \<and>
             mux_segs (p @ ''/'') \<in> set (map (mux_segs \<circ> fst) reg)
          then Redirect (p @ ''/'')
          else if p \<noteq> e then Redirect p
          else Handler h)"

section \<open>Paths and routes\<close>

definition mimicPath :: "MimicConfig option \<Rightarrow> string" where
  "mimicPath m =
     (let p = (case m of Some m \<Rightarrow> str_or (FakePath m) ''/tunnel'' | None \<Rightarrow> ''/tunnel'')
      in if has_prefix p ''/'' then p else ''/'' @ p)"

datatype handler = HandleTunnel | HandleDecoy

definition tunnel_prefix :: "MimicConfig option \<Rightarrow> string" where
  "tunnel_prefix m = hd (str_split ''{'' (mimicPath m))"

text \<open>The registrations of \<open>Start\<close>.\<close>

definition start_routes :: "MimicConfig option \<Rightarrow> (string \<times> handler) list outcome" where
  "start_routes m =
     mux_register [] ([(tunnel_prefix m, HandleTunnel)] @
       (if tunnel_prefix m \<noteq> ''/tunnel'' then [(''/tunnel'', HandleTunnel)] else []) @ [(''/'', HandleDecoy)])"

section \<open>Validation\<close>

definition validate :: "MimicConfig option \<Rightarrow> request \<Rightarrow> bool \<times> string" where
  "validate mimic r =
     (if req_Method r \<noteq> ''GET'' then (False, ''method'')
      else if (case mimic of
                 None \<Rightarrow> False
               | Some m \<Rightarrow>
                   FakeDomain m \<noteq> '''' \<and>
                   (let host = (case SplitHostPort (req_Host r) of Ok (h, _) \<Rightarrow> h | _ \<Rightarrow> req_Host r) in
                    host \<noteq> FakeDomain m \<and> \<not> has_suffix host (''.'' @ FakeDomain m) \<and> \<not> ParseIP_ok host))
        then (False, ''host'')
      else if hdr_Get (req_Header r) ''Upgrade'' = '''' \<or>
              \<not> str_contains (to_lower (hdr_Get (req_Header r) ''Connection'')) ''upgrade''
        then (False, ''no upgrade'')
      else
        let expected = (case mimic of
              Some m \<Rightarrow> if FakePath m \<noteq> '''' then hd (str_split ''{'' (FakePath m)) else ''/tunnel''
            | None \<Rightarrow> ''/tunnel'')
        in if \<not> has_prefix (u_Path (req_URL r)) expected then (False, ''path'') else (True, ''''))"

section \<open>Decoy responses\<close>

record response =
  rsp_status :: nat
  rsp_header :: header
  rsp_body :: string

definition decoy_html :: string where
  "decoy_html = ''<!DOCTYPE html><html><head><title>Welcome to nginx!</title>'' @
     ''<style>body{width:35em;margin:0 auto;font-family:Tahoma,Verdana,Arial,sans-serif}</style>'' @
     ''</head><body><h1>Welcome to nginx!</h1>'' @
     ''<p>If you see this page, the nginx web server is successfully installed.</p>'' @
     ''</body></html>''"

fun nat_digits :: "nat \<Rightarrow> string" where
  "nat_digits n = (if n < 10 then [char_of (48 + n)] else nat_digits (n div 10) @ [char_of (48 + n mod 10)])"

declare nat_digits.simps [simp del]

definition quote :: string where
  "quote = [CHR 0x22]"

definition buildDecoyBody :: "nat \<Rightarrow> string \<Rightarrow> string" where
  "buildDecoyBody ts path =
     (if str_contains path ''api'' \<or> str_contains path ''json''
      then ''{'' @ quote @ ''status'' @ quote @ '':'' @ quote @ ''error'' @ quote @ '','' @
           quote @ ''code'' @ quote @ '':404,'' @ quote @ ''ts'' @ quote @ '':'' @ nat_digits ts @ ''}''
      else decoy_html)"

text \<open>\<open>ts\<close> is the clock in seconds, \<open>date\<close> its rendering in \<open>http.TimeFormat\<close>.\<close>

definition writeDecoy :: "nat \<Rightarrow> string \<Rightarrow> request \<Rightarrow> response" where
  "writeDecoy ts date r =
     \<lparr>rsp_status = (if u_Path (req_URL r) = ''/'' \<or> u_Path (req_URL r) = ''/index.html'' then 200 else 404),
      rsp_header = hdr_Set ''X-Frame-Options'' ''SAMEORIGIN'' (hdr_Set ''Connection'' ''keep-alive''
        (hdr_Set ''Date'' date (hdr_Set ''Server'' ''nginx/1.18.0'' []))),
      rsp_body = buildDecoyBody ts (u_Path (req_URL r))\<rparr>"

section \<open>smux configuration\<close>

record smux_Config =
  sc_Version :: int
  KeepAliveInterval :: int
  KeepAliveTimeout :: int
  MaxReceiveBuffer :: int
  MaxStreamBuffer :: int
  MaxFrameSize :: int

text \<open>\<open>sc\<close> is \<open>smux.DefaultConfig()\<close>.\<close>

definition buildSmuxConfig :: "smux_Config \<Rightarrow> Config \<Rightarrow> smux_Config" where
  "buildSmuxConfig sc cfg =
     (let v = smux_Version (Smux cfg); k = wrap64 (smux_KeepAlive (Smux cfg) * second);
          interval = (if k \<le> 0 then 10 * second else k);
          timeout = wrap64 (interval * 6)
      in \<lparr>sc_Version = (if v < 1 then 2 else v),
          KeepAliveInterval = interval,
          KeepAliveTimeout = (if timeout < 30 * second then 30 * second else timeout),
          MaxReceiveBuffer = (if smux_MaxRecv (Smux cfg) > 0 then smux_MaxRecv (Smux cfg) else MaxReceiveBuffer sc),
          MaxStreamBuffer = (if smux_MaxStream (Smux cfg) > 0 then smux_MaxStream (Smux cfg) else MaxStreamBuffer sc),
          MaxFrameSize = (if smux_FrameSize (Smux cfg) > 0 then smux_FrameSize (Smux cfg) else MaxFrameSize sc)\<rparr>)"

section \<open>Upgrade\<close>

definition upgrade_sockopts :: "AdvancedConfig \<Rightarrow> sockopt list" where
  "upgrade_sockopts a =
     [NoDelay True, KeepAlive True, KeepAlivePeriod (15 * second),
      ReadBuffer (if adv_TCPReadBuffer a > 0 then adv_TCPReadBuffer a else 8388608),
      WriteBuffer (if adv_TCPWriteBuffer a > 0 then adv_TCPWriteBuffer a else 8388608)]"

definition switchResp :: string where
  "switchResp = ''HTTP/1.1 101 Switching Protocols'' @ crlf @ ''Upgrade: websocket'' @ crlf @
     ''Connection: Upgrade'' @ crlf @ ''Sec-WebSocket-Accept: s3pPLMBiTxaQ9kYGzzhZRbK+xOo='' @ crlf @ crlf"

definition compression_on :: "Config \<Rightarrow> bool" where
  "compression_on cfg \<longleftrightarrow> Compression cfg \<noteq> '''' \<and> Compression cfg \<noteq> ''none''"

text \<open>
  What the world answers during an upgrade: whether the response writer can be hijacked and the error of
  hijacking, whether the connection is a TCP connection, the error of \<open>smux.Server\<close>, the remote address
  and the clock.
\<close>

record upgrade_env =
  ue_hijacker :: bool
  ue_hijack_err :: "goerror option"
  ue_tcp :: bool
  ue_smux_err :: "goerror option"
  ue_remote :: string
  ue_now :: int

datatype upgraded =
    HttpError nat goerror
  | Aborted
  | Crashed panic
  | Serving sid EncryptedConn bool "sockopt list"   \<comment> \<open>session, connection, compressed?\<close>

text \<open>
  \<open>upgrade\<close> up to its accept loop: the server, the hijacked connection and what became of the request.  The
  reader that \<open>Hijack\<close> returns is discarded, with what it has read ahead of the request; a client of this program
  sends nothing between its request and the answer, so \<open>conn_in\<close> is what arrives after the request.
\<close>

definition upgrade :: "upgrade_env \<Rightarrow> conn \<Rightarrow> Server \<Rightarrow> Server \<times> conn \<times> upgraded" where
  "upgrade env c s =
     (if \<not> ue_hijacker env then (s, c, HttpError 500 (Msg ''hijack not supported''))
      else case ue_hijack_err env of
        Some e \<Rightarrow> (s, c, HttpError 500 e)
      | None \<Rightarrow>
          let opts = (if ue_tcp env then upgrade_sockopts (Advanced (srv_Config s)) else []) in
          (case conn_write c (bytes_of switchResp) of
             (c, _, Some e) \<Rightarrow> (s, conn_close c, Aborted)
           | (c, _, None) \<Rightarrow>
               (case NewEncryptedConn c (srv_PSK s) (Some (srv_Obfs s)) of
                  Err e \<Rightarrow> (s, conn_close c, Aborted)
                | Panic p \<Rightarrow> (s, c, Crashed p)
                | Ok ec \<Rightarrow>
                    (case ue_smux_err env of
                       Some e \<Rightarrow> (s, conn_close c, Aborted)
                     | None \<Rightarrow>
                         (case upgrade_register (ue_remote env) (ue_now env) s of
                            (s, i) \<Rightarrow> (s, c, Serving i ec (compression_on (srv_Config s)) opts))))))"

text \<open>When \<open>AcceptStream\<close> fails the loop ends.\<close>

definition upgrade_ended :: "string \<Rightarrow> sid \<Rightarrow> Server \<Rightarrow> Server" where
  "upgrade_ended key i s = clearSession key i s"

section \<open>Handlers\<close>

datatype served = Responded response | Upgraded upgraded

definition handleDecoy :: "nat \<Rightarrow> string \<Rightarrow> request \<Rightarrow> response" where
  "handleDecoy ts date r = writeDecoy ts date r"

definition handleTunnel ::
    "upgrade_env \<Rightarrow> nat \<Rightarrow> string \<Rightarrow> request \<Rightarrow> conn \<Rightarrow> Server \<Rightarrow> Server \<times> conn \<times> served" where
  "handleTunnel env ts date r c s =
     (if \<not> fst (validate (Some (srv_Mimic s)) r) then (s, c, Responded (writeDecoy ts date r))
      else case upgrade env c s of (s, c, u) \<Rightarrow> (s, c, Upgraded u))"

text \<open>One request on the server: what the registered routes make of it.\<close>

definition serve_request ::
    "(string \<times> handler) list \<Rightarrow> upgrade_env \<Rightarrow> nat \<Rightarrow> string \<Rightarrow> request \<Rightarrow> conn \<Rightarrow> Server \<Rightarrow>
     Server \<times> conn \<times> served routed" where
  "serve_request routes env ts date r c s =
     (case mux_route routes (req_URL r) of
        Handler HandleTunnel \<Rightarrow> (case handleTunnel env ts date r c s of (s, c, x) \<Rightarrow> (s, c, Handler x))
      | Handler HandleDecoy \<Rightarrow> (s, c, Handler (Responded (handleDecoy ts date r)))
      | Redirect p \<Rightarrow> (s, c, Redirect p)
      | NotFound \<Rightarrow> (s, c, NotFound))"

section \<open>Routing\<close>

lemma str_split_append:
  "str_split [c] (a @ c # b) = str_split [c] a @ str_split [c] b"
proof (induction "[c]" a rule: str_split.induct)
  case (1 a)
  show ?case
  proof (cases "c \<in> set a")
    case True
    let ?i = "length (takeWhile (\<lambda>x. x \<noteq> c) a)"
    have i: "str_index [c] a = Some ?i" using True by (simp add: str_index_char)
    have tw: "takeWhile (\<lambda>x. x \<noteq> c) (a @ c # b) = takeWhile (\<lambda>x. x \<noteq> c) a"
      using True by (simp add: takeWhile_append1)
    have le: "Suc ?i \<le> length a"
      using str_index_Some [OF i] by simp
    then have "drop (Suc ?i) (a @ c # b) = drop (Suc ?i) a @ c # b" "take ?i (a @ c # b) = take ?i a" by simp_all
    then have "str_split [c] (a @ c # b) = take ?i a # str_split [c] (drop (Suc ?i) a @ c # b)"
      by (subst str_split.simps) (simp add: str_index_char tw)
    moreover have "str_split [c] a = take ?i a # str_split [c] (drop (Suc ?i) a)"
      using True by (subst str_split.simps) (simp add: str_index_char)
    ultimately show ?thesis using "1.hyps" [OF _ i] by simp
  next
    case False
    then have "takeWhile (\<lambda>x. x \<noteq> c) (a @ c # b) = a" by (auto simp: takeWhile_append)
    then have "str_split [c] (a @ c # b) = a # str_split [c] b"
      by (subst str_split.simps) (simp add: str_index_char)
    then show ?thesis using False by (simp add: str_split_absent)
  qed
qed

lemma url_escape_append: "url_escape md (a @ b) = url_escape md a @ url_escape md b"
  by (simp add: url_escape_def)

lemma slash_in_escape: "CHR ''/'' \<notin> set a \<Longrightarrow> CHR ''/'' \<notin> set (url_escape EncPath a)"
proof
  assume n: "CHR ''/'' \<notin> set a" and "CHR ''/'' \<in> set (url_escape EncPath a)"
  then obtain c where c: "c \<in> set a" "CHR ''/'' \<in> set (escape_char EncPath c)" by (auto simp: url_escape_def)
  have hex: "hex_digit k \<noteq> CHR ''/''" if "k < 16" for k
    using that nth_mem [of k "''0123456789ABCDEF''"] by (auto simp: hex_digit_def)
  have "(of_char c :: nat) div 16 < 16" using of_char_less_256 [of c] by linarith
  then have "c = CHR ''/''"
    using c(2) hex [of "of_char c div 16"] hex [of "of_char c mod 16"]
    by (auto simp: escape_char_def split: if_splits)
  then show False using c(1) n by simp
qed

lemma path_unescape_escape [simp]: "path_unescape (url_escape EncPath s) = s"
  by (simp add: path_unescape_def url_unescape_escape)

lemma split_escape: "map path_unescape (str_split ''/'' (url_escape EncPath t)) = str_split ''/'' t"
proof (induction "length t" arbitrary: t rule: less_induct)
  case less
  show ?case
  proof (cases "CHR ''/'' \<in> set t")
    case False
    then show ?thesis using slash_in_escape [OF False] by (simp add: str_split_absent)
  next
    case True
    then obtain a b where t: "t = a @ CHR ''/'' # b" "CHR ''/'' \<notin> set a"
      by (meson split_list_first)
    then show ?thesis
      using less [of a] less [of b]
      by (simp add: url_escape_append slash_escape str_split_append)
  qed
qed

lemma mux_segs_escape: "has_prefix q ''/'' \<Longrightarrow> mux_segs (url_escape EncPath q) = str_split ''/'' (tl q)"
  by (auto simp: has_prefix_slash slash_escape mux_segs_def split_escape)

lemma mux_segs_plain:
  assumes "has_prefix q ''/''" "list_all (\<lambda>c. \<not> should_escape EncPath c) q"
  shows "mux_segs q = str_split ''/'' (tl q)"
  using mux_segs_escape [OF assms(1)] url_escape_plain [OF assms(2)] by simp

lemma str_split_slash_end: "str_split [c] (a @ [c]) = str_split [c] a @ ['''']"
  using str_split_append [of c a "[]"] str_split_absent [of "[c]" "[]"] by simp

lemma root_segs: "mux_segs ''/'' = ['''']" "mux_segs ''/tunnel'' = [''tunnel'']"
  by (simp_all add: mux_segs_def str_split_absent path_unescape_def)

text \<open>A pattern matches itself, and one that ends with a slash everything below it.\<close>

lemma mux_matches_below:
  assumes "has_prefix pre ''/''" "list_all (\<lambda>c. \<not> should_escape EncPath c) pre"
    and "q = pre \<or> has_suffix pre ''/'' \<and> has_prefix q pre"
  shows "mux_matches pre (url_escape EncPath q)"
proof -
  have q: "has_prefix q ''/''" using assms(1,3) by (auto simp: has_prefix_iff)
  show ?thesis
  proof (cases "q = pre")
    case True
    then show ?thesis using assms(2) url_escape_plain [of EncPath pre]
      by (simp add: mux_matches_def Let_def butlast_conv_take)
  next
    case False
    then obtain a t where pre: "pre = a @ ''/''" and t: "q = pre @ t"
      using assms(3) unfolding has_prefix_iff has_suffix_iff by blast
    have ps: "mux_segs pre = str_split ''/'' (tl pre)" by (rule mux_segs_plain [OF assms(1,2)])
    have qs: "mux_segs (url_escape EncPath q) = str_split ''/'' (tl q)" by (rule mux_segs_escape [OF q])
    show ?thesis
    proof (cases a)
      case Nil
      have "str_split ''/'' (tl q) \<noteq> []" by (rule str_split_nonempty) simp
      then show ?thesis
        using Nil pre by (simp add: mux_matches_def root_segs qs Let_def Suc_le_eq)
    next
      case (Cons c b)
      then have "tl pre = b @ [CHR ''/'']" "tl q = b @ CHR ''/'' # t" using pre t by simp_all
      moreover have "str_split ''/'' t \<noteq> []" by (rule str_split_nonempty) simp
      ultimately show ?thesis
        by (simp add: mux_matches_def ps qs str_split_append str_split_absent [of "''/''" "''''"] Let_def Suc_le_eq)
    qed
  qed
qed

text \<open>The routes of \<open>Start\<close>: the tunnel handler wins wherever its pattern matches.\<close>

lemma mux_register_Ok: "mux_register reg ps = Ok routes \<Longrightarrow> routes = reg @ ps"
  by (induction reg ps rule: mux_register.induct) (auto split: if_splits)

lemma better_match_tunnel:
  assumes "mux_matches pre p" "mid = [] \<or> mid = [(''/tunnel'', HandleTunnel)]"
  shows "\<exists>pat. longest_match ([(pre, HandleTunnel)] @ mid @ [(''/'', HandleDecoy)]) p = Some (pat, HandleTunnel) \<and>
    (mux_literals pat = mux_literals pre \<longrightarrow> pat = pre)"
proof -
  have root: "mux_literals ''/'' = 0"
    by (simp add: mux_literals_def mux_segs_def str_split_absent path_unescape_def)
  from assms(2) show ?thesis
    using assms(1) root by (elim disjE) (auto simp: longest_match_def better_match_def)
qed

definition tunnel_mid :: "MimicConfig option \<Rightarrow> (string \<times> handler) list" where
  "tunnel_mid m = (if tunnel_prefix m \<noteq> ''/tunnel'' then [(''/tunnel'', HandleTunnel)] else [])"

lemma start_routes_Ok:
  "start_routes m = Ok routes \<Longrightarrow> routes = [(tunnel_prefix m, HandleTunnel)] @ tunnel_mid m @ [(''/'', HandleDecoy)]"
  unfolding start_routes_def tunnel_mid_def by (drule mux_register_Ok) simp

text \<open>No path below the tunnel prefix is one slash short of a registered pattern.\<close>

lemma no_slash_redirect:
  assumes pre: "has_prefix pre ''/''" "list_all (\<lambda>c. \<not> should_escape EncPath c) pre"
    and below: "q = pre \<or> has_suffix pre ''/'' \<and> has_prefix q pre"
  shows "mux_segs (url_escape EncPath q @ ''/'') \<notin> {mux_segs pre, mux_segs ''/tunnel'', mux_segs ''/''}"
proof -
  have q: "has_prefix q ''/''" using pre(1) below has_prefix_trans by blast
  then have q': "has_prefix (q @ ''/'') ''/''" "tl (q @ ''/'') = tl q @ ''/''"
    by (auto simp: has_prefix_slash)
  have "url_escape EncPath ''/'' = ''/''" using slash_escape [of "''''"] by (simp add: url_escape_def)
  then have segs: "mux_segs (url_escape EncPath q @ ''/'') = str_split ''/'' (tl q) @ ['''']"
    using mux_segs_escape [OF q'(1)] q'(2) by (simp add: url_escape_append str_split_slash_end)
  have m: "mux_matches pre (url_escape EncPath q)" by (rule mux_matches_below [OF pre below])
  then have "length (mux_segs pre) \<le> length (str_split ''/'' (tl q))"
    by (auto simp: mux_matches_def mux_segs_escape [OF q] Let_def split: if_splits)
  moreover have "str_split ''/'' (tl q) \<noteq> []" by (rule str_split_nonempty) simp
  ultimately show ?thesis by (auto simp: segs root_segs dest: arg_cong [of _ _ length])
qed

text \<open>The client's path, as the server sees it, goes to the tunnel handler.\<close>

lemma fake_prefix_chars:
  assumes "fake_path_ok p"
  shows "list_all (\<lambda>c. \<not> should_escape EncPath c) (takeWhile (\<lambda>c. c \<noteq> CHR ''{'') p) \<or> CHR ''}'' \<in> set (takeWhile (\<lambda>c. c \<noteq> CHR ''{'') p)"
proof -
  have "\<not> should_escape EncPath c" if "path_char c" "c \<noteq> CHR ''{''" "c \<noteq> CHR ''}''" for c
    using that by (auto simp: path_char_def should_escape_def)
  moreover have "path_char c \<and> c \<noteq> CHR ''{''" if "c \<in> set (takeWhile (\<lambda>c. c \<noteq> CHR ''{'') p)" for c
    using that assms by (auto simp: fake_path_ok_def list_all_iff dest: set_takeWhileD)
  ultimately show ?thesis by (auto simp: list_all_iff)
qed

text \<open>
  A fake path whose requests reach the tunnel route: the part before the first brace has no closing
  brace, and is the whole path or ends with a slash.
\<close>

definition routable :: "string \<Rightarrow> bool" where
  "routable p \<longleftrightarrow> CHR ''}'' \<notin> set (takeWhile (\<lambda>c. c \<noteq> CHR ''{'') p) \<and>
     (CHR ''{'' \<notin> set p \<or> has_suffix (takeWhile (\<lambda>c. c \<noteq> CHR ''{'') p) ''/'')"

lemma tunnel_prefix_fake:
  "fake_path_ok (FakePath m) \<Longrightarrow> tunnel_prefix (Some m) = takeWhile (\<lambda>c. c \<noteq> CHR ''{'') (FakePath m)"
  by (auto simp: tunnel_prefix_def mimicPath_def str_or_def fake_path_ok_def hd_str_split_char has_prefix_def)

lemma handshake_path_plain: "CHR ''{'' \<notin> set p \<Longrightarrow> handshake_path rnd p = p"
proof -
  assume a: "CHR ''{'' \<notin> set p"
  have "\<not> str_contains p ''{rand}''"
  proof
    assume "str_contains p ''{rand}''"
    then obtain x y where "p = x @ ''{rand}'' @ y" by (auto simp: str_contains_iff)
    then show False using a by simp
  qed
  then show ?thesis by (simp add: handshake_path_def)
qed

lemma route_handshake:
  assumes ok: "fake_path_ok (FakePath m)" "routable (FakePath m)"
    and routes: "start_routes (Some m) = Ok routes"
    and q: "q = handshake_path rnd (FakePath m)"
    and clean: "cleanPath (url_escape EncPath q) = url_escape EncPath q"
  shows "mux_route routes (empty_url\<lparr>u_Path := q\<rparr>) = Handler HandleTunnel"
proof -
  let ?pre = "takeWhile (\<lambda>c. c \<noteq> CHR ''{'') (FakePath m)" and ?p = "url_escape EncPath q"
  have pre: "has_prefix ?pre ''/''" "list_all (\<lambda>c. \<not> should_escape EncPath c) ?pre"
    using fake_prefix_slash [OF ok(1)] fake_prefix_chars [OF ok(1)] ok(2) by (auto simp: routable_def)
  have below: "q = ?pre \<or> has_suffix ?pre ''/'' \<and> has_prefix q ?pre"
    using ok(2) handshake_path_prefix [of rnd "FakePath m"] handshake_path_plain [of "FakePath m" rnd]
    by (auto simp: q routable_def intro: takeWhile_eq_all_conv [THEN iffD2, symmetric])
  have qs: "has_prefix q ''/''" using below pre(1) has_prefix_trans by blast
  have e: "EscapedPath (empty_url\<lparr>u_Path := q\<rparr>) = ?p"
    using qs by (auto simp: EscapedPath_def empty_url_def has_prefix_slash)
  have r: "routes = [(?pre, HandleTunnel)] @ tunnel_mid (Some m) @ [(''/'', HandleDecoy)]"
    using start_routes_Ok [OF routes] tunnel_prefix_fake [OF ok(1)] by simp
  obtain pat where pat: "longest_match routes ?p = Some (pat, HandleTunnel)"
  proof -
    have "tunnel_mid (Some m) = [] \<or> tunnel_mid (Some m) = [(''/tunnel'', HandleTunnel)]"
      by (simp add: tunnel_mid_def)
    from better_match_tunnel [OF mux_matches_below [OF pre below] this] show ?thesis
      using that unfolding r by blast
  qed
  have "set (map (mux_segs \<circ> fst) routes) \<subseteq> {mux_segs ?pre, mux_segs ''/tunnel'', mux_segs ''/''}"
    by (auto simp: r tunnel_mid_def)
  then have "mux_segs (?p @ ''/'') \<notin> set (map (mux_segs \<circ> fst) routes)"
    using no_slash_redirect [OF pre below] by blast
  then show ?thesis using pat clean by (simp add: mux_route_def e Let_def)
qed

section \<open>Properties\<close>

lemma map_of_cleaned: "map_of (map (map_prod id clean_value) h) k = map_option clean_value (map_of h k)"
  by (induction h) auto

lemma clean_words: "clean_value ''Upgrade'' = ''Upgrade''" "clean_value ''websocket'' = ''websocket''"
  by (simp_all add: clean_host host_char_def is_alpha_def)

text \<open>The request the server reads has what \<open>validate\<close> asks for.\<close>

lemma received_request:
  assumes m: "mimic_ok m"
  shows "\<exists>req req'. build_request r (Some m) = Ok req \<and> read_request (DumpRequest req @ rest) = Some (req', rest) \<and>
    req_Method req' = ''GET'' \<and> req_Host req' = FakeDomain m \<and>
    req_URL req' = empty_url\<lparr>u_Path := handshake_path (rnd_path r) (FakePath m)\<rparr> \<and>
    hdr_Get (req_Header req') ''Upgrade'' = ''websocket'' \<and> hdr_Get (req_Header req') ''Connection'' = ''Upgrade''"
proof -
  let ?q = "handshake_path (rnd_path r) (FakePath m)"
  have ok: "domain_ok (FakeDomain m)" "fake_path_ok (FakePath m)" using m by (simp_all add: mimic_ok_def)
  obtain req where b: "build_request r (Some m) = Ok req" and p: "plain_request (FakeDomain m) ?q req"
    and h: "upgrade_headers (req_Header req)"
    using build_request_ok [OF m] by blast
  have q: "has_prefix ?q ''/''"
    using handshake_path_prefix fake_prefix_slash [OF ok(2)] has_prefix_trans by blast
  have hok: "header_ok (req_Header req)" "list_all (\<lambda>(_, v). field_value_ok v) (req_Header req)"
    using h by (simp_all add: upgrade_headers_def values_ok_def)
  have uri: "uri_ok (RequestURI (req_URL req))"
      "url_ParseRequestURI (RequestURI (req_URL req)) = Ok (empty_url\<lparr>u_Path := ?q\<rparr>)"
    using p escape_safe [of _ ?q] ParseRequestURI_escaped [OF q]
    by (auto simp: plain_request_def uri_ok_def list_all_iff)
  have host: "req_Host req \<noteq> ''''" "list_all host_char (req_Host req)" "req_Method req = ''GET''" "req_Host req = FakeDomain m"
    using p domain_value_ok [OF ok(1)] by (auto simp: plain_request_def)
  have "valid_field_name ''Connection'' \<and> valid_field_name ''Upgrade''"
    by (simp add: valid_field_name_def token_char_def is_alpha_def)
  then have "map_of (dumped (req_Header req)) ''Connection'' = Some ''Upgrade''"
    "map_of (dumped (req_Header req)) ''Upgrade'' = Some ''websocket''"
    using h map_of_dumped [OF hok(1)] by (simp_all add: upgrade_headers_def dump_excluded_def)
  then show ?thesis
    using b read_request_DumpRequest [OF host(3) hok host(1,2) uri] host(4)
    by (simp add: hdr_Get_def canonical_keys map_of_cleaned clean_words)
qed

lemma validate_received:
  assumes m: "mimic_ok m" and "req_Method r = ''GET''" "req_Host r = FakeDomain m"
    "req_URL r = empty_url\<lparr>u_Path := handshake_path rnd (FakePath m)\<rparr>"
    "hdr_Get (req_Header r) ''Upgrade'' = ''websocket''" "hdr_Get (req_Header r) ''Connection'' = ''Upgrade''"
  shows "validate (Some m) r = (True, '''')"
proof -
  have d: "domain_ok (FakeDomain m)" "fake_path_ok (FakePath m)" using m by (simp_all add: mimic_ok_def)
  have "CHR '':'' \<notin> set (FakeDomain m)" using domain_chars [OF d(1), of "CHR '':''"] by auto
  then have "SplitHostPort (FakeDomain m) = addr_err ''missing port in address''"
    by (simp add: SplitHostPort_def last_index_absent)
  moreover have "str_contains (to_lower ''Upgrade'') ''upgrade''"
    by (simp add: to_lower_def lower_char_def str_contains_def has_prefix_def) (simp add: char_nat)
  moreover have "FakePath m \<noteq> ''''" using d(2) by (auto simp: fake_path_ok_def has_prefix_def)
  ultimately show ?thesis
    using assms(2-) handshake_path_prefix [of rnd "FakePath m"]
    by (simp add: validate_def addr_err_def Let_def hd_str_split_char)
qed

text \<open>
  The two ends of the handshake agree: with a plain host name as fake domain, a routable fake path
  (with or without \<open>{rand}\<close>) and custom headers that leave \<open>Connection\<close> and \<open>Upgrade\<close> alone, the bytes
  that \<open>ClientHandshake\<close> writes are parsed by the server, routed to \<open>handleTunnel\<close>, accepted by \<open>validate\<close>
  and lead to \<open>upgrade\<close>, whatever the random bytes.
\<close>

lemma handshake_served:
  assumes "mimic_ok m" "routable (FakePath m)" "start_routes (Some m) = Ok routes"
    and "cleanPath (url_escape EncPath (handshake_path (rnd_path r) (FakePath m))) =
      url_escape EncPath (handshake_path (rnd_path r) (FakePath m))"
    and "srv_Mimic s = m"
  shows "\<exists>req req'. build_request r (Some m) = Ok req \<and>
    read_request (DumpRequest req @ rest) = Some (req', rest) \<and> validate (Some m) req' = (True, '''') \<and>
    serve_request routes env ts date req' c s =
      (case upgrade env c s of (s', c', u) \<Rightarrow> (s', c', Handler (Upgraded u)))"
proof -
  obtain req req' where r: "build_request r (Some m) = Ok req" "read_request (DumpRequest req @ rest) = Some (req', rest)"
    and v: "req_Method req' = ''GET''" "req_Host req' = FakeDomain m"
    "req_URL req' = empty_url\<lparr>u_Path := handshake_path (rnd_path r) (FakePath m)\<rparr>"
    "hdr_Get (req_Header req') ''Upgrade'' = ''websocket''" "hdr_Get (req_Header req') ''Connection'' = ''Upgrade''"
    using received_request [OF assms(1)] by blast
  have "fake_path_ok (FakePath m)" using assms(1) by (simp add: mimic_ok_def)
  from route_handshake [OF this assms(2,3) refl assms(4)]
  have "mux_route routes (req_URL req') = Handler HandleTunnel" by (simp add: v)
  moreover have "validate (Some m) req' = (True, '''')" by (rule validate_received [OF assms(1) v])
  ultimately show ?thesis
    using r assms(5) by (auto simp: serve_request_def handleTunnel_def split: prod.split)
qed

definition demo_mimic :: MimicConfig where
  "demo_mimic = \<lparr>FakeDomain = ''www.google.com'', FakePath = ''/s/{rand}'', UserAgent = '''', CustomHeaders = [],
     SessionCookie = True, Chunked = False\<rparr>"

definition demo_rand :: hs_rand where
  "demo_rand = \<lparr>rnd_path = None, rnd_key = None, rnd_sid = None\<rparr>"

definition demo_server :: Server where
  "demo_server = NewServer (zero_Config\<lparr>Mimic := demo_mimic\<rparr>)"

definition demo_env :: upgrade_env where
  "demo_env = \<lparr>ue_hijacker = True, ue_hijack_err = None, ue_tcp = False, ue_smux_err = None,
     ue_remote = ''10.0.0.9:4000'', ue_now = 7\<rparr>"

lemma demo_path: "handshake_path None ''/s/{rand}'' = ''/s/xxxxxxxx''"
  by code_simp

lemma demo_clean: "cleanPath (url_escape EncPath ''/s/xxxxxxxx'') = url_escape EncPath ''/s/xxxxxxxx''"
  by code_simp

lemma demo_routes: "start_routes (Some demo_mimic) =
   Ok [(''/s/'', HandleTunnel), (''/tunnel'', HandleTunnel), (''/'', HandleDecoy)]"
  by code_simp

lemma demo_mimic_ok: "mimic_ok demo_mimic"
  by (simp add: mimic_ok_def demo_mimic_def domain_ok_def fake_path_ok_def path_char_def unreserved_def is_alpha_def
      is_digit_def has_prefix_def field_value_ok_def)

lemma demo_routable: "routable ''/s/{rand}''"
  by code_simp

definition host_allowed :: "MimicConfig \<Rightarrow> string \<Rightarrow> bool" where
  "host_allowed m h \<longleftrightarrow> FakeDomain m = '''' \<or> h = FakeDomain m \<or> has_suffix h (''.'' @ FakeDomain m) \<or> ParseIP_ok h"

lemma validate_True:
  assumes "fst (validate (Some m) r)"
  shows "req_Method r = ''GET'' \<and>
    host_allowed m (case SplitHostPort (req_Host r) of Ok (h, _) \<Rightarrow> h | _ \<Rightarrow> req_Host r) \<and>
    hdr_Get (req_Header r) ''Upgrade'' \<noteq> '''' \<and>
    str_contains (to_lower (hdr_Get (req_Header r) ''Connection'')) ''upgrade'' \<and>
    has_prefix (u_Path (req_URL r)) (hd (str_split ''{'' (str_or (FakePath m) ''/tunnel'')))"
proof -
  have "hd (str_split ''{'' ''/tunnel'') = ''/tunnel''" by (simp add: hd_str_split_char)
  then show ?thesis
    using assms by (auto simp: validate_def Let_def host_allowed_def str_or_def split: if_splits)
qed

text \<open>
  C5: Only a validated request touches the server: if serving a request changes the session table or
  writes to the connection, the request was routed to \<open>handleTunnel\<close>, is a GET whose path begins with the
  expected prefix and whose headers ask for an upgrade, and its host is the fake domain, a subdomain of
  it, or an IP address.  Every other request leaves both untouched and is answered with the decoy page,
  status 200 only for the two index paths, or a redirect.
\<close>

theorem only_validated_upgrade:
  assumes "serve_request routes env ts date r c s = (s', c', x)" "s' \<noteq> s \<or> c' \<noteq> c"
  shows "mux_route routes (req_URL r) = Handler HandleTunnel \<and> req_Method r = ''GET'' \<and>
    host_allowed (srv_Mimic s) (case SplitHostPort (req_Host r) of Ok (h, _) \<Rightarrow> h | _ \<Rightarrow> req_Host r) \<and>
    hdr_Get (req_Header r) ''Upgrade'' \<noteq> '''' \<and>
    str_contains (to_lower (hdr_Get (req_Header r) ''Connection'')) ''upgrade'' \<and>
    has_prefix (u_Path (req_URL r)) (hd (str_split ''{'' (str_or (FakePath (srv_Mimic s)) ''/tunnel'')))"
proof -
  have "mux_route routes (req_URL r) = Handler HandleTunnel \<and> fst (validate (Some (srv_Mimic s)) r)"
    using assms by (auto simp: serve_request_def handleTunnel_def split: routed.splits handler.splits if_splits)
  then show ?thesis using validate_True by blast
qed









definition demo_request :: request where
  "demo_request = \<lparr>req_Method = ''GET'', req_URL = empty_url\<lparr>u_Path := ''/tunnel''\<rparr>, req_Host = ''10.0.0.1:80'',
     req_Header = [(''Upgrade'', ''websocket''), (''Connection'', ''keep-alive, Upgrade'')]\<rparr>"

lemma demo_request_route:
  "mux_route [(''/tunnel'', HandleTunnel), (''/'', HandleDecoy)] (req_URL demo_request) = Handler HandleTunnel"
  by code_simp

lemma demo_request_valid:
  "validate (Some ((Mimic zero_Config)\<lparr>FakeDomain := ''example.org''\<rparr>)) demo_request = (True, '''')"
  by code_simp

definition ip_server :: Server where
  "ip_server = NewServer (zero_Config\<lparr>Mimic := (Mimic zero_Config)\<lparr>FakeDomain := ''example.org''\<rparr>\<rparr>)"

theorem only_validated_upgrade_witness:
  "mux_route [(''/tunnel'', HandleTunnel), (''/'', HandleDecoy)] (req_URL demo_request) = Handler HandleTunnel \<and>
   host_allowed (srv_Mimic ip_server) ''10.0.0.1''"
proof -
  let ?routes = "[(''/tunnel'', HandleTunnel), (''/'', HandleDecoy)]"
  let ?c = "\<lparr>conn_in = [], conn_out = [], conn_room = None, conn_closed = False\<rparr>"
  have "fst (validate (Some (srv_Mimic ip_server)) demo_request)"
    using demo_request_valid by (simp add: ip_server_def NewServer_def)
  then have "serve_request ?routes demo_env 0 '''' demo_request ?c ip_server =
      (case upgrade demo_env ?c ip_server of (s, c, u) \<Rightarrow> (s, c, Handler (Upgraded u)))"
    using demo_request_route by (simp add: serve_request_def handleTunnel_def split: prod.split)
  moreover have "conn_out (fst (snd (upgrade demo_env ?c ip_server))) = bytes_of switchResp"
    by (simp add: upgrade_def demo_env_def ip_server_def NewServer_def conn_write_def NewEncryptedConn_def
        upgrade_register_def smux_Server_def Let_def zero_Config_def split: prod.split)
  moreover have "bytes_of switchResp \<noteq> []" by (simp add: switchResp_def bytes_of_def)
  moreover obtain s' c' u where "upgrade demo_env ?c ip_server = (s', c', u)"
    by (cases "upgrade demo_env ?c ip_server")
  ultimately have "serve_request ?routes demo_env 0 '''' demo_request ?c ip_server = (s', c', Handler (Upgraded u))"
    and "c' \<noteq> ?c" by auto
  then have "mux_route ?routes (req_URL demo_request) = Handler HandleTunnel"
    "host_allowed (srv_Mimic ip_server) (case SplitHostPort (req_Host demo_request) of Ok (h, _) \<Rightarrow> h | _ \<Rightarrow> req_Host demo_request)"
    using only_validated_upgrade by blast+
  moreover have "SplitHostPort (req_Host demo_request) = Ok (''10.0.0.1'', ''80'')" by code_simp
  ultimately show ?thesis by simp
qed

section \<open>The client's side of the answer\<close>

lemma clean_plain: "list_all host_char v \<Longrightarrow> clean_value v = v"
  by (rule clean_host)

lemma switch_fields:
  "switchResp @ x = ''HTTP/1.1 101 Switching Protocols'' @ crlf @
     (header_line (''Upgrade'', ''websocket'') @ header_line (''Connection'', ''Upgrade'') @
      header_line (''Sec-WebSocket-Accept'', ''s3pPLMBiTxaQ9kYGzzhZRbK+xOo='') @ crlf @ x)"
proof -
  have "clean_value ''s3pPLMBiTxaQ9kYGzzhZRbK+xOo='' = ''s3pPLMBiTxaQ9kYGzzhZRbK+xOo=''"
    by (rule clean_plain) (simp add: host_char_def is_alpha_def is_digit_def)
  then show ?thesis by (simp add: switchResp_def header_line_def clean_words)
qed

lemma parse_switch_status: "parse_status ''HTTP/1.1 101 Switching Protocols'' = Some (''HTTP/1.1'', 101)"
  by (simp add: parse_status_def str_cut_def is_digit_def)

lemma read_switchResp:
  "\<exists>h. read_response_head (switchResp @ x) =
     Ok (\<lparr>resp_Proto = ''HTTP/1.1'', resp_StatusCode = 101, resp_Header = h\<rparr>, x)"
proof -
  have v: "valid_field_name ''Upgrade''" "valid_field_name ''Connection''" "valid_field_name ''Sec-WebSocket-Accept''"
    by (simp_all add: valid_field_name_def token_char_def is_alpha_def is_digit_def)
  have "read_line (switchResp @ x) = Some (''HTTP/1.1 101 Switching Protocols'',
      header_line (''Upgrade'', ''websocket'') @ header_line (''Connection'', ''Upgrade'') @
      header_line (''Sec-WebSocket-Accept'', ''s3pPLMBiTxaQ9kYGzzhZRbK+xOo='') @ crlf @ x)"
    unfolding switch_fields by (rule read_line_crlf) simp
  moreover have "\<exists>h. parse_headers (header_line (''Upgrade'', ''websocket'') @ header_line (''Connection'', ''Upgrade'') @
      header_line (''Sec-WebSocket-Accept'', ''s3pPLMBiTxaQ9kYGzzhZRbK+xOo='') @ crlf @ x) = Some (h, x)"
    using v by (simp add: parse_headers_line parse_headers_empty)
  ultimately show ?thesis by (auto simp: read_response_head_def parse_switch_status)
qed

text \<open>
  When the server answers with its \<open>101\<close> response and goes on sending, the client's handshake succeeds
  and not one byte after the response is lost, however much of it the response reader had already
  pulled in: the returned connection delivers exactly those bytes, and what the client sent is its
  request.
\<close>

lemma client_handshake_101:
  assumes "mimic_ok m" "\<not> conn_closed c" "conn_room c = None" "conn_in c = bytes_of switchResp @ data"
  shows "\<exists>req c' bc. build_request r (Some m) = Ok req \<and> ClientHandshake r ahead c (Some m) = (c', Ok bc) \<and>
    bc_view bc = c\<lparr>conn_in := data, conn_out := conn_out c @ bytes_of (DumpRequest req)\<rparr> \<and>
    bc_r bc = Some (take ahead data)"
proof -
  obtain req where b: "build_request r (Some m) = Ok req" using build_request_ok [OF assms(1)] by blast
  have "string_of (bytes_of switchResp @ data) = switchResp @ string_of data"
    by (simp add: string_of_append)
  moreover obtain h where "read_response_head (switchResp @ string_of data) =
      Ok (\<lparr>resp_Proto = ''HTTP/1.1'', resp_StatusCode = 101, resp_Header = h\<rparr>, string_of data)"
    using read_switchResp by blast
  ultimately show ?thesis
    using b assms(2-)
    by (simp add: ClientHandshake_def conn_write_unlimited close_body_def body_allowed_def bc_view_def Let_def)
qed

section \<open>A template without a slash before its brace\<close>

lemma str_index_first: "sub \<noteq> [] \<Longrightarrow> hd sub \<notin> set a \<Longrightarrow> str_index sub (a @ sub) = Some (length a)"
proof (induction a)
  case Nil
  then show ?case by (cases sub) (auto simp: has_prefix_def)
next
  case (Cons c a)
  then have "\<not> has_prefix (c # a @ sub) sub" by (cases sub) (auto simp: has_prefix_def)
  then show ?case using Cons by simp
qed

lemma letters_alnum: "n < 62 \<Longrightarrow> is_alpha (letters ! n) \<or> is_digit (letters ! n)"
proof -
  have "list_all (\<lambda>c. is_alpha c \<or> is_digit c) letters" by (simp add: letters_def is_alpha_def is_digit_def)
  moreover have "length letters = 62" by (simp add: letters_def)
  ultimately show "n < 62 \<Longrightarrow> ?thesis" using list_all_nth_ok [of _ letters n] by simp
qed

lemma randAlphaNum_unreserved: "list_all unreserved (randAlphaNum n rnd)"
proof -
  have "is_alpha (letters ! (unat x mod length letters)) \<or> is_digit (letters ! (unat x mod length letters))" for x :: byte
    by (rule letters_alnum) (simp add: letters_def)
  moreover have "is_alpha (CHR ''x'')" by (simp add: is_alpha_def)
  ultimately show ?thesis
    by (auto simp: randAlphaNum_def list_all_iff unreserved_def split: option.split)
qed

lemma handshake_path_suffix:
  assumes "CHR ''{'' \<notin> set a"
  shows "handshake_path rnd (a @ ''{rand}'') = a @ randAlphaNum 8 rnd"
proof -
  have i: "str_index ''{rand}'' (a @ ''{rand}'') = Some (length a)"
    using str_index_first [of "''{rand}''" a] assms by simp
  then have "str_split ''{rand}'' (a @ ''{rand}'') = [a, '''']"
    by (subst str_split.simps) (simp add: str_split_absent str_contains_def)
  then show ?thesis using i by (simp add: handshake_path_def str_contains_def ReplaceAll_def)
qed

lemma cleanPath_one:
  assumes "CHR ''/'' \<notin> set x" "x \<notin> {'''', ''.'', ''..''}"
  shows "cleanPath (CHR ''/'' # x) = CHR ''/'' # x"
proof -
  have "str_split ''/'' (CHR ''/'' # x) = ['''', x]"
    using str_split_append [of "CHR ''/''" "''''" x] assms(1) by (simp add: str_split_absent)
  then show ?thesis using assms by (auto simp: cleanPath_def Let_def dest: last_in_set)
qed

text \<open>
  A fake path such as \<open>/search{rand}\<close>, whose brace is not preceded by a slash, never works: the server
  registers the literal \<open>/search\<close>, which matches only itself, so every request the client makes of the
  template is routed to the decoy, although \<open>validate\<close> would accept its path prefix.
\<close>

theorem rand_suffix_unroutable:
  assumes p: "FakePath m = ''/'' @ b @ ''{rand}''" "b \<noteq> ''''" "list_all unreserved b"
    and rnd: "\<forall>x. rnd = Some x \<longrightarrow> length x = 8" and routes: "start_routes (Some m) = Ok routes"
  shows "mux_route routes (empty_url\<lparr>u_Path := handshake_path rnd (FakePath m)\<rparr>) = Handler HandleDecoy \<and>
    has_prefix (handshake_path rnd (FakePath m)) (hd (str_split ''{'' (FakePath m)))"
proof -
  let ?x = "b @ randAlphaNum 8 rnd"
  have nob: "CHR ''{'' \<notin> set b" using p(3) unreserved_char by (auto simp: list_all_iff)
  have q: "handshake_path rnd (FakePath m) = CHR ''/'' # ?x"
    using handshake_path_suffix [of "''/'' @ b" rnd] nob p(1) by simp
  have un: "list_all unreserved ?x" using p(3) randAlphaNum_unreserved by simp
  then have plain: "list_all (\<lambda>c. \<not> should_escape EncPath c) (CHR ''/'' # ?x)"
    by (auto simp: list_all_iff should_escape_def)
  have len: "length (randAlphaNum 8 rnd) = 8" using rnd by (auto simp: randAlphaNum_def split: option.split)
  have ns: "CHR ''/'' \<notin> set ?x" using un unreserved_char by (auto simp: list_all_iff)
  have e: "EscapedPath (empty_url\<lparr>u_Path := CHR ''/'' # ?x\<rparr>) = CHR ''/'' # ?x"
    using url_escape_plain [OF plain] by (simp add: EscapedPath_def empty_url_def)
  have "length ?x \<noteq> length x" if "x \<in> {'''', ''.'', ''..'', ''tunnel''}" for x :: string
    using that p(2) len by (cases b) auto
  then have x: "?x \<notin> {'''', ''.'', ''..'', ''tunnel''}" by metis
  have clean: "cleanPath (CHR ''/'' # ?x) = CHR ''/'' # ?x"
    by (rule cleanPath_one [OF ns]) (use x in blast)
  have segs: "mux_segs (CHR ''/'' # ?x) = [?x]"
    using mux_segs_plain [of "CHR ''/'' # ?x"] plain ns by (simp add: has_prefix_def str_split_absent)
  have segs2: "mux_segs ((CHR ''/'' # ?x) @ ''/'') = [?x, '''']"
  proof -
    have "mux_segs (url_escape EncPath ((CHR ''/'' # ?x) @ ''/'')) = str_split ''/'' (?x @ ''/'')"
      using mux_segs_escape [of "(CHR ''/'' # ?x) @ ''/''"] by (simp add: has_prefix_def)
    also have "\<dots> = [?x, '''']" using str_split_slash_end [of "CHR ''/''" ?x] ns by (simp add: str_split_absent)
    finally show ?thesis
      using url_escape_plain [OF plain] slash_escape [of "''''"] by (simp only: url_escape_append) (simp add: url_escape_def)
  qed
  have fp: "fake_path_ok (FakePath m)"
    using p(1,3) by (auto simp: fake_path_ok_def has_prefix_def path_char_def list_all_iff unreserved_def is_alpha_def)
  have pre: "tunnel_prefix (Some m) = CHR ''/'' # b"
    using tunnel_prefix_fake [OF fp] p(1) nob takeWhile_append2 [of b "\<lambda>c. c \<noteq> CHR ''{''" "''{rand}''"]
    by fastforce
  have pb: "list_all (\<lambda>c. \<not> should_escape EncPath c) (CHR ''/'' # b)" "CHR ''/'' \<notin> set b"
    using plain ns by simp_all
  then have segp: "mux_segs (CHR ''/'' # b) = [b]"
    using mux_segs_plain [of "CHR ''/'' # b"] by (simp add: has_prefix_def str_split_absent)
  have ne: "b \<noteq> ?x" using len by auto
  have r: "routes = [(CHR ''/'' # b, HandleTunnel)] @ tunnel_mid (Some m) @ [(''/'', HandleDecoy)]"
    using start_routes_Ok [OF routes] pre by simp
  have "longest_match routes (CHR ''/'' # ?x) = Some (''/'', HandleDecoy)"
    using p(2) ne x by (auto simp: r tunnel_mid_def longest_match_def better_match_def mux_matches_def Let_def segs segp root_segs)
  moreover have "mux_segs ((CHR ''/'' # ?x) @ ''/'') \<notin> set (map (mux_segs \<circ> fst) routes)"
    unfolding segs2 by (auto simp: r tunnel_mid_def segp root_segs)
  ultimately have "mux_route routes (empty_url\<lparr>u_Path := CHR ''/'' # ?x\<rparr>) = Handler HandleDecoy"
    using clean by (simp add: mux_route_def e Let_def)
  moreover have "has_prefix (handshake_path rnd (FakePath m)) (hd (str_split ''{'' (FakePath m)))"
    using handshake_path_prefix by (simp add: hd_str_split_char)
  ultimately show ?thesis using q by simp
qed

theorem rand_suffix_unroutable_witness:
  "mux_route [(''/search'', HandleTunnel), (''/tunnel'', HandleTunnel), (''/'', HandleDecoy)]
     (empty_url\<lparr>u_Path := handshake_path None ''/search{rand}''\<rparr>) = Handler HandleDecoy"
proof -
  let ?m = "demo_mimic\<lparr>FakePath := ''/search{rand}''\<rparr>"
  have "start_routes (Some ?m) = Ok [(''/search'', HandleTunnel), (''/tunnel'', HandleTunnel), (''/'', HandleDecoy)]"
    by code_simp
  then show ?thesis
    using rand_suffix_unroutable [of ?m "''search''" None] by (simp add: unreserved_def is_alpha_def)
qed

end
