(* ===== verification/Fragment.thy ===== *)
theory Fragment
  imports Conn_Layer Config Stats
begin

text \<open>
  \<^verbatim>\<open>tls_fragment.go\<close>, \<^verbatim>\<open>tls_fragment_linux.go\<close> and \<^verbatim>\<open>tls_fragment_other.go\<close>: the connection that splits its
  first large write in two, the dialler that draws the split point and the delay, and the raw dial with
  its file descriptors.  The fragmenting connection is a transparent layer: whatever is written arrives
  unchanged.
\<close>

section \<open>The fragmenting connection\<close>

record FragmentedConn =
  fc_Conn :: conn
  fragmentSize :: int
  fc_delay :: int
  firstWrite :: bool

text \<open>
  \<open>Write\<close>: the state after it, the data of each \<open>Write\<close> of the connection below, and the two results of
  the call.
\<close>

definition fc_Write :: "FragmentedConn \<Rightarrow> bytes \<Rightarrow> FragmentedConn \<times> bytes list \<times> (nat \<times> goerror option) outcome" where
  "fc_Write fc b =
     (if firstWrite fc \<or> int (length b) \<le> fragmentSize fc then
        (case conn_write (fc_Conn fc) b of
           (c, n, e) \<Rightarrow> (fc\<lparr>firstWrite := True, fc_Conn := c\<rparr>, [b], Ok (n, e)))
      else
        let fc = fc\<lparr>firstWrite := True\<rparr> in
        (case and_then (slice b 0 (fragmentSize fc)) (\<lambda>frag1.
                and_then (slice b (fragmentSize fc) (int (length b))) (\<lambda>frag2. Ok (frag1, frag2))) of
           Ok (frag1, frag2) \<Rightarrow>
             (case conn_write (fc_Conn fc) frag1 of
                (c, n1, Some e) \<Rightarrow> (fc\<lparr>fc_Conn := c\<rparr>, [frag1], Ok (n1, Some e))
              | (c, n1, None) \<Rightarrow>
                  (case conn_write c frag2 of
                     (c, n2, e) \<Rightarrow> (fc\<lparr>fc_Conn := c\<rparr>, [frag1, frag2], Ok (n1 + n2, e))))
         | Err e \<Rightarrow> (fc, [], Err e)
         | Panic p \<Rightarrow> (fc, [], Panic p)))"

section \<open>Dialling\<close>

definition DefaultFragmentConfig :: FragmentConfig where
  "DefaultFragmentConfig = \<lparr>frag_Enabled = True, frag_MinSize = 64, frag_MaxSize = 191,
     frag_MinDelay = 1, frag_MaxDelay = 2\<rparr>"

text \<open>A random number between a minimum and a maximum, both replaced by a default unless positive.\<close>

definition draw_between :: "nat option \<Rightarrow> int \<Rightarrow> int \<Rightarrow> int" where
  "draw_between raw mn mx =
     (let diff = wrap64 (mx - mn)
      in if diff > 0 then wrap64 (mn + secureRandInt raw (wrap64 (diff + 1))) else mn)"

definition setTCPNoDelay :: "bool \<Rightarrow> sockopt list" where
  "setTCPNoDelay tcp = (if tcp then [NoDelay True] else [])"

datatype dialled = Plain conn | Fragmented FragmentedConn "sockopt list"

text \<open>
  \<open>DialFragmented\<close>: the results of the raw dial and of \<open>net.DialTimeout\<close> are arguments (the second is a
  TCP connection), and so are the two random draws.
\<close>

definition DialFragmented ::
    "conn outcome \<Rightarrow> conn outcome \<Rightarrow> nat option \<Rightarrow> nat option \<Rightarrow> FragmentConfig option \<Rightarrow> dialled outcome" where
  "DialFragmented raw std r1 r2 cfg =
     (case cfg of
        None \<Rightarrow> and_then std (\<lambda>c. Ok (Plain c))
      | Some f \<Rightarrow>
          if \<not> frag_Enabled f then and_then std (\<lambda>c. Ok (Plain c))
          else
            let fragSize = draw_between r1 (pos_or (frag_MinSize f) 64) (pos_or (frag_MaxSize f) 191);
                delayMs = draw_between r2 (pos_or (frag_MinDelay f) 1) (pos_or (frag_MaxDelay f) 2);
                wrap = (\<lambda>c. \<lparr>fc_Conn = c, fragmentSize = fragSize, fc_delay = wrap64 (delayMs * millisecond),
                             firstWrite = False\<rparr>)
            in (case raw of
                  Ok c \<Rightarrow> Ok (Fragmented (wrap c) [])
                | Panic p \<Rightarrow> Panic p
                | Err _ \<Rightarrow>
                    and_then (map_err (Wrapped ''dial'') std) (\<lambda>c. Ok (Fragmented (wrap c) (setTCPNoDelay True)))))"

section \<open>The raw dial\<close>

text \<open>
  The process's file descriptors: those open, and the calls of \<open>close\<close> on a descriptor that was not.
  Every answer of the kernel and of the resolver is an argument.
\<close>

record fdtab =
  fd_open :: "nat set"
  fd_bad :: "nat list"

definition fd_close :: "nat \<Rightarrow> fdtab \<Rightarrow> fdtab" where
  "fd_close fd t = (if fd \<in> fd_open t then t\<lparr>fd_open := fd_open t - {fd}\<rparr> else t\<lparr>fd_bad := fd_bad t @ [fd]\<rparr>)"

definition fd_new :: "nat \<Rightarrow> fdtab \<Rightarrow> fdtab" where
  "fd_new fd t = t\<lparr>fd_open := insert fd (fd_open t)\<rparr>"

datatype connect_result = Connected | InProgress | ConnectErr goerror

record raw_env =
  re_resolve :: "string \<Rightarrow> bool outcome"      \<comment> \<open>ResolveTCPAddr; whether the address is IPv4\<close>
  re_socket :: "nat outcome"
  re_connect :: connect_result
  re_epoll_create :: "nat outcome"
  re_epoll_ctl :: "unit outcome"
  re_epoll_wait :: "int \<Rightarrow> nat outcome"       \<comment> \<open>number of events within the milliseconds\<close>
  re_so_error :: "int outcome"
  re_fileconn :: "nat outcome"               \<comment> \<open>FileConn: the duplicated descriptor\<close>

definition wait_ms :: "int \<Rightarrow> int" where
  "wait_ms timeout = (let ms = go_div timeout millisecond in if ms \<le> 0 then 10000 else ms)"

definition waitConnect :: "raw_env \<Rightarrow> int \<Rightarrow> fdtab \<Rightarrow> fdtab \<times> unit outcome" where
  "waitConnect e timeout t =
     (case re_epoll_create e of
        Err x \<Rightarrow> (t, Err (Wrapped ''epoll_create'' x))
      | Panic p \<Rightarrow> (t, Panic p)
      | Ok epfd \<Rightarrow>
          (fd_close epfd (fd_new epfd t),
           and_then (map_err (Wrapped ''epoll_ctl'') (re_epoll_ctl e)) (\<lambda>_.
           and_then (map_err (Wrapped ''epoll_wait'') (re_epoll_wait e (wait_ms timeout))) (\<lambda>n.
           if n = 0 then Err (Msg ''connect timed out'')
           else and_then (map_err (Wrapped ''getsockopt'') (re_so_error e)) (\<lambda>val.
             if val \<noteq> 0 then Err (Msg ''connect error'') else Ok ())))))"

text \<open>The descriptor of the connection on success.\<close>

definition dialRawTCP :: "raw_env \<Rightarrow> string \<Rightarrow> int \<Rightarrow> fdtab \<Rightarrow> fdtab \<times> nat outcome" where
  "dialRawTCP e addr timeout t =
     (case and_then (SplitHostPort addr) (\<lambda>(host, port). re_resolve e (JoinHostPort host port)) of
        Err x \<Rightarrow> (t, Err x)
      | Panic p \<Rightarrow> (t, Panic p)
      | Ok ip4 \<Rightarrow>
          if \<not> ip4 then (t, Err (Msg ''ipv6 not supported for raw dial''))
          else (case re_socket e of
            Err x \<Rightarrow> (t, Err (Wrapped ''socket'' x))
          | Panic p \<Rightarrow> (t, Panic p)
          | Ok fd \<Rightarrow>
              let t = fd_new fd t;
                  (t, r) = (case re_connect e of
                     Connected \<Rightarrow> (t, Ok ())
                   | InProgress \<Rightarrow> waitConnect e timeout t
                   | ConnectErr x \<Rightarrow> (t, Err (Wrapped ''connect'' x)))
              in (case r of
                    Err x \<Rightarrow> (fd_close fd t, Err x)
                  | Panic p \<Rightarrow> (t, Panic p)
                  | Ok _ \<Rightarrow>
                      (case re_fileconn e of
                         Ok d \<Rightarrow> (fd_close fd (fd_new d t), Ok d)
                       | Panic p \<Rightarrow> (t, Panic p)
                       | Err x \<Rightarrow> (fd_close fd (fd_close fd t), Err (Wrapped ''file conn'' x))))))"

text \<open>On other platforms than Linux.\<close>

definition dialRawTCP_other :: "string \<Rightarrow> int \<Rightarrow> nat outcome" where
  "dialRawTCP_other addr timeout = Err (Msg ''raw TCP dial not supported on this platform'')"

section \<open>The layer is transparent\<close>

definition fc_wr :: "FragmentedConn \<Rightarrow> unit \<Rightarrow> bytes \<Rightarrow> FragmentedConn \<times> nat outcome" where
  "fc_wr fc r b =
     (case fc_Write fc b of
        (fc, _, Ok (n, None)) \<Rightarrow> (fc, Ok n)
      | (fc, _, Ok (n, Some e)) \<Rightarrow> (fc, Err e)
      | (fc, _, Err e) \<Rightarrow> (fc, Err e)
      | (fc, _, Panic p) \<Rightarrow> (fc, Panic p))"

definition fc_ready :: "FragmentedConn \<Rightarrow> bool" where
  "fc_ready fc \<longleftrightarrow> 0 \<le> fragmentSize fc \<and> \<not> conn_closed (fc_Conn fc) \<and> conn_room (fc_Conn fc) = None"

lemma fc_Write_chunks:
  assumes "fc_ready fc"
  shows "fc_Write fc b =
    (fc\<lparr>firstWrite := True, fc_Conn := (fc_Conn fc)\<lparr>conn_out := conn_out (fc_Conn fc) @ b\<rparr>\<rparr>,
     if firstWrite fc \<or> int (length b) \<le> fragmentSize fc then [b]
     else [take (nat (fragmentSize fc)) b, drop (nat (fragmentSize fc)) b],
     Ok (length b, None))"
  using assms
  by (auto simp: fc_Write_def fc_ready_def conn_write_def slice_def Let_def)

interpretation frag: transparent_layer fc_wr "\<lambda>fc. conn_out (fc_Conn fc)" fc_ready "\<lambda>_ _ _. True" "\<lambda>_ d s. s = d" "\<lambda>_ _. True"
proof unfold_locales
  fix c r d
  assume "fc_ready c"
  then show "\<exists>c' s. fc_wr c r d = (c', Ok (length d)) \<and> conn_out (fc_Conn c') = conn_out (fc_Conn c) @ s \<and> s = d \<and>
      fc_ready c' \<and> True"
    using fc_Write_chunks [of c d] by (simp add: fc_wr_def fc_ready_def)
qed simp_all

section \<open>Properties\<close>

lemma draw_between_bounds:
  assumes "0 < mn" "mn < 2 ^ 63" "0 < mx" "mx < 2 ^ 63"
  shows "mn \<le> draw_between raw mn mx \<and> draw_between raw mn mx \<le> max mn mx"
proof -
  have diff: "wrap64 (mx - mn) = mx - mn" using assms by (intro wrap64_id) (simp add: int64_range_def)
  show ?thesis
  proof (cases "mn < mx")
    case True
    have one: "wrap64 (mx - mn + 1) = mx - mn + 1" using assms True by (intro wrap64_id) (simp add: int64_range_def)
    have k: "0 \<le> secureRandInt raw (mx - mn + 1)" "secureRandInt raw (mx - mn + 1) < mx - mn + 1"
      using secureRandInt_range [of raw "mx - mn + 1"] True by auto
    then have "wrap64 (mn + secureRandInt raw (mx - mn + 1)) = mn + secureRandInt raw (mx - mn + 1)"
      using assms by (intro wrap64_id) (simp add: int64_range_def)
    then show ?thesis using True k by (simp add: draw_between_def diff one Let_def)
  qed (simp add: draw_between_def diff Let_def)
qed

lemma pos_or_range: "int64_range x \<Longrightarrow> 0 < d \<Longrightarrow> d < 2 ^ 63 \<Longrightarrow> 0 < pos_or x d \<and> pos_or x d < 2 ^ 63"
  by (simp add: pos_or_def int64_range_def)

definition fragment_range :: "FragmentConfig \<Rightarrow> bool" where
  "fragment_range f \<longleftrightarrow> int64_range (frag_MinSize f) \<and> int64_range (frag_MaxSize f)"

lemma DialFragmented_size:
  assumes "DialFragmented raw std r1 r2 (Some f) = Ok (Fragmented fc opts)" "fragment_range f"
  shows "pos_or (frag_MinSize f) 64 \<le> fragmentSize fc \<and>
    fragmentSize fc \<le> max (pos_or (frag_MinSize f) 64) (pos_or (frag_MaxSize f) 191) \<and> \<not> firstWrite fc"
proof -
  have "fragmentSize fc = draw_between r1 (pos_or (frag_MinSize f) 64) (pos_or (frag_MaxSize f) 191) \<and> \<not> firstWrite fc"
    using assms(1) by (cases raw; cases std) (auto simp: DialFragmented_def Let_def split: if_splits)
  then show ?thesis
    using draw_between_bounds [of "pos_or (frag_MinSize f) 64" "pos_or (frag_MaxSize f) 191" r1]
      pos_or_range [of "frag_MinSize f" 64] pos_or_range [of "frag_MaxSize f" 191] assms(2)
    by (simp add: fragment_range_def)
qed

text \<open>
  C22: A fragmented connection changes nothing of the stream: any sequence of writes succeeds with full
  counts and the network gets exactly their concatenation.  Only the first write is cut, once, after
  between \<open>MinSize\<close> and \<open>MaxSize\<close> bytes (with the defaults for values that are not positive), and only
  when it is longer than that.
\<close>

theorem fragmented_stream:
  assumes "DialFragmented raw std r1 r2 (Some f) = Ok (Fragmented fc opts)" "fragment_range f"
    and "\<not> conn_closed (fc_Conn fc)" "conn_room (fc_Conn fc) = None"
  shows "(\<exists>fc'. run_writes fc_wr fc (map (Pair ()) ws) = (fc', Ok (length (concat ws))) \<and>
      conn_out (fc_Conn fc') = conn_out (fc_Conn fc) @ concat ws) \<and>
    (\<exists>k. pos_or (frag_MinSize f) 64 \<le> int k \<and>
       int k \<le> max (pos_or (frag_MinSize f) 64) (pos_or (frag_MaxSize f) 191) \<and>
       fst (snd (fc_Write fc b)) = (if length b \<le> k then [b] else [take k b, drop k b]) \<and>
       fst (snd (fc_Write (fst (fc_Write fc b)) b')) = [b'])"
proof -
  note sz = DialFragmented_size [OF assms(1,2)]
  have pos: "0 < fragmentSize fc" using sz pos_or_pos [of 64 "frag_MinSize f"] by linarith
  then have ready: "fc_ready fc" using assms(3,4) by (simp add: fc_ready_def)
  have "\<exists>fc'. run_writes fc_wr fc (map (Pair ()) ws) = (fc', Ok (length (concat ws))) \<and>
      conn_out (fc_Conn fc') = conn_out (fc_Conn fc) @ concat ws"
    using frag.writes_concat [OF ready, of "map (Pair ()) ws"] by (auto simp: comp_def)
  moreover have "fst (snd (fc_Write fc b)) =
      (if length b \<le> nat (fragmentSize fc) then [b] else [take (nat (fragmentSize fc)) b, drop (nat (fragmentSize fc)) b])"
    using fc_Write_chunks [OF ready, of b] sz pos by (simp add: le_nat_iff)
  moreover have "fst (snd (fc_Write (fst (fc_Write fc b)) b')) = [b']"
  proof -
    have "fc_ready (fst (fc_Write fc b))" "firstWrite (fst (fc_Write fc b))"
      using fc_Write_chunks [OF ready, of b] ready by (simp_all add: fc_ready_def)
    then show ?thesis using fc_Write_chunks [of "fst (fc_Write fc b)" b'] by simp
  qed
  ultimately show ?thesis using sz pos by (intro conjI exI [of _ "nat (fragmentSize fc)"]) simp_all
qed

definition demo_raw :: conn where
  "demo_raw = \<lparr>conn_in = [], conn_out = [], conn_room = None, conn_closed = False\<rparr>"

theorem fragmented_stream_witness:
  "\<exists>fc'. run_writes fc_wr \<lparr>fc_Conn = demo_raw, fragmentSize = 64, fc_delay = 1000000, firstWrite = False\<rparr>
     (map (Pair ()) [[1, 2], [3]]) = (fc', Ok 3) \<and> conn_out (fc_Conn fc') = [1, 2, 3]"
proof -
  let ?fc = "\<lparr>fc_Conn = demo_raw, fragmentSize = 64, fc_delay = 1000000, firstWrite = False\<rparr>"
  have "DialFragmented (Ok demo_raw) (Err EOF) None None (Some DefaultFragmentConfig) = Ok (Fragmented ?fc [])"
    by (simp add: DialFragmented_def DefaultFragmentConfig_def draw_between_def secureRandInt_def wrap64_def
        pos_or_def millisecond_def)
  moreover have "fragment_range DefaultFragmentConfig"
    by (simp add: fragment_range_def DefaultFragmentConfig_def int64_range_def)
  ultimately show ?thesis
    using fragmented_stream [of "Ok demo_raw" "Err EOF" None None DefaultFragmentConfig ?fc "[]" "[[1, 2], [3]]"]
    by (simp add: demo_raw_def numeral_3_eq_3 del: run_writes.simps)
qed

text \<open>The dial gets as far as \<open>net.FileConn\<close>: it would succeed if that did.\<close>

definition reaches_fileconn :: "raw_env \<Rightarrow> string \<Rightarrow> int \<Rightarrow> fdtab \<Rightarrow> bool" where
  "reaches_fileconn e addr timeout t \<longleftrightarrow> snd (dialRawTCP (e\<lparr>re_fileconn := Ok 0\<rparr>) addr timeout t) = Ok 0"

text \<open>
  C34: The raw dial accounts for its descriptors: whatever the kernel answers, an error leaves the set of
  open descriptors as it was and success adds exactly the one of the connection; and a descriptor is closed
  a second time exactly when the dial gets as far as \<open>net.FileConn\<close> and that fails: the socket, already closed
  through its \<open>os.File\<close>, is closed again.
\<close>

theorem raw_dial_descriptors:
  assumes "\<And>fd. re_socket e = Ok fd \<Longrightarrow> fd \<notin> fd_open t"
    and "\<And>fd ep. re_socket e = Ok fd \<Longrightarrow> re_epoll_create e = Ok ep \<Longrightarrow> ep \<notin> fd_open t \<and> ep \<noteq> fd"
    and "\<And>fd d. re_socket e = Ok fd \<Longrightarrow> re_fileconn e = Ok d \<Longrightarrow> d \<notin> fd_open t \<and> d \<noteq> fd"
    and "dialRawTCP e addr timeout t = (t', r)"
  shows "(\<forall>x. r = Err x \<longrightarrow> fd_open t' = fd_open t) \<and>
    (\<forall>d. r = Ok d \<longrightarrow> fd_open t' = insert d (fd_open t) \<and> d \<notin> fd_open t) \<and>
    (if reaches_fileconn e addr timeout t \<and> (\<exists>x. re_fileconn e = Err x)
     then (\<exists>fd x. re_socket e = Ok fd \<and> re_fileconn e = Err x \<and> r = Err (Wrapped ''file conn'' x) \<and>
       fd_bad t' = fd_bad t @ [fd])
     else fd_bad t' = fd_bad t)"
proof -
  have wait: "fst (waitConnect e timeout (fd_new fd t)) = fd_new fd t" if "re_socket e = Ok fd" for fd
    using assms(2) [OF that] by (auto simp: waitConnect_def fd_new_def fd_close_def insert_Diff_if split: outcome.splits)
  have same: "waitConnect (e\<lparr>re_fileconn := fc\<rparr>) = waitConnect e" for fc
    by (rule ext)+ (simp add: waitConnect_def cong del: if_weak_cong outcome.case_cong_weak)
  show ?thesis
  proof (cases "re_socket e")
    case (Ok fd)
    note fresh = assms(1) [OF Ok] assms(3) [OF Ok]
    obtain w where w: "waitConnect e timeout (fd_new fd t) = (fd_new fd t, w)"
      using wait [OF Ok] by (cases "waitConnect e timeout (fd_new fd t)") auto
    define res where "res = (case re_connect e of Connected \<Rightarrow> Ok () | InProgress \<Rightarrow> w
      | ConnectErr x \<Rightarrow> Err (Wrapped ''connect'' x))"
    have stages: "dialRawTCP (e\<lparr>re_fileconn := fc\<rparr>) addr timeout t =
        (case and_then (SplitHostPort addr) (\<lambda>(host, port). re_resolve e (JoinHostPort host port)) of
           Err x \<Rightarrow> (t, Err x) | Panic p \<Rightarrow> (t, Panic p)
         | Ok ip4 \<Rightarrow> if \<not> ip4 then (t, Err (Msg ''ipv6 not supported for raw dial''))
             else (case res of Err x \<Rightarrow> (fd_close fd (fd_new fd t), Err x) | Panic p \<Rightarrow> (fd_new fd t, Panic p)
               | Ok _ \<Rightarrow> (case fc of
                   Ok d \<Rightarrow> (fd_close fd (fd_new d (fd_new fd t)), Ok d)
                 | Panic p \<Rightarrow> (fd_new fd t, Panic p)
                 | Err x \<Rightarrow> (fd_close fd (fd_close fd (fd_new fd t)), Err (Wrapped ''file conn'' x)))))" for fc
      by (cases "and_then (SplitHostPort addr) (\<lambda>(host, port). re_resolve e (JoinHostPort host port))"; cases "re_connect e")
        (simp_all add: dialRawTCP_def Ok w res_def same Let_def)
    have r: "dialRawTCP e addr timeout t = dialRawTCP (e\<lparr>re_fileconn := re_fileconn e\<rparr>) addr timeout t" by simp
    have fds: "fd_close fd (fd_new fd t) = t" "fd_close fd t = t\<lparr>fd_bad := fd_bad t @ [fd]\<rparr>"
      using fresh(1) by (simp_all add: fd_new_def fd_close_def insert_Diff_if)
    have sel: "fd_open (fd_new d t) = insert d (fd_open t)" "fd_bad (fd_new d t) = fd_bad t" for d
      by (simp_all add: fd_new_def)
    have dup: "fd_close fd (fd_new d (fd_new fd t)) = fd_new d t \<and> d \<notin> fd_open t" if "re_fileconn e = Ok d" for d
      using fresh that by (simp add: fd_new_def fd_close_def insert_Diff_if)
    show ?thesis
      using assms(4) Ok unfolding r reaches_fileconn_def stages
      by (auto simp: fds dup sel split: outcome.splits if_splits)
  qed (use assms(4) in \<open>auto simp: dialRawTCP_def reaches_fileconn_def split: outcome.splits if_splits\<close>)
qed

definition demo_raw_env :: raw_env where
  "demo_raw_env = \<lparr>re_resolve = (\<lambda>_. Ok True), re_socket = Ok 5, re_connect = InProgress, re_epoll_create = Ok 6,
     re_epoll_ctl = Ok (), re_epoll_wait = (\<lambda>_. Ok 1), re_so_error = Ok 0, re_fileconn = Ok 7\<rparr>"

theorem raw_dial_descriptors_witness:
  "\<exists>t'. dialRawTCP demo_raw_env ''h:1'' 0 \<lparr>fd_open = {1}, fd_bad = []\<rparr> = (t', Ok 7) \<and> fd_open t' = {1, 7} \<and> fd_bad t' = []"
proof -
  let ?t = "\<lparr>fd_open = {1}, fd_bad = []\<rparr>"
  have "SplitHostPort ''h:1'' = Ok (''h'', ''1'')" by code_simp
  then have ok: "snd (dialRawTCP demo_raw_env ''h:1'' 0 ?t) = Ok 7"
    by (simp add: dialRawTCP_def demo_raw_env_def waitConnect_def)
  obtain t' where t': "dialRawTCP demo_raw_env ''h:1'' 0 ?t = (t', Ok 7)"
    using ok by (cases "dialRawTCP demo_raw_env ''h:1'' 0 ?t") simp
  have "(\<forall>d. Ok 7 = Ok d \<longrightarrow> fd_open t' = insert d (fd_open ?t) \<and> d \<notin> fd_open ?t) \<and>
      (if reaches_fileconn demo_raw_env ''h:1'' 0 ?t \<and> (\<exists>x. re_fileconn demo_raw_env = Err x)
       then (\<exists>fd x. re_socket demo_raw_env = Ok fd \<and> re_fileconn demo_raw_env = Err x \<and>
         (Ok 7 :: nat outcome) = Err (Wrapped ''file conn'' x) \<and> fd_bad t' = fd_bad ?t @ [fd])
       else fd_bad t' = fd_bad ?t)"
    by (rule raw_dial_descriptors [OF _ _ _ t', THEN conjunct2]) (simp_all add: demo_raw_env_def)
  then have "fd_open t' = {1, 7}" "fd_bad t' = []" by (auto simp: demo_raw_env_def)
  then show ?thesis using t' by blast
qed

end
