(* ===== verification/Client_Pool.thy ===== *)
theory Client_Pool
  imports Server_Http Fragment
begin

text \<open>
  \<^verbatim>\<open>client.go\<close>: the session pool (its operations, the health check, round-robin opening of streams), the
  adaptive frame level, latency-based path choice, and the state machine of a pool worker.  A smux
  session is a number; whether it is closed is part of the state, the answers of \<open>OpenStream\<close> are
  arguments.
\<close>

section \<open>Data\<close>

definition frameSizes :: "int list" where
  "frameSizes = [2048, 4096, 8192, 16384, 32768]"

definition sessionMaxAge :: int where
  "sessionMaxAge = 20 * minute"

definition maxFailsBeforeSwitch :: nat where
  "maxFailsBeforeSwitch = 3"

record pooledSession =
  ps_session :: sid
  ps_createdAt :: int

record Client =
  cl_cfg :: Config
  cl_mimic :: MimicConfig
  cl_obfs :: ObfsConfig
  cl_psk :: string
  cl_paths :: "PathConfig list"
  cl_verbose :: bool
  cl_sessions :: "pooledSession list"
  cl_sessIdx :: "64 word"
  cl_standbyCh :: "sid list"
  cl_frameLevel :: int
  cl_pathLatency :: "int list"
  cl_closed :: "sid \<Rightarrow> bool"
  cl_next :: sid

definition NewClient :: "Config \<Rightarrow> Client" where
  "NewClient cfg =
     (let paths = (if Paths cfg = [] \<and> ServerURL cfg \<noteq> ''''
                   then [\<lparr>path_Transport = Transport cfg, path_Addr = ServerURL cfg, path_ConnectionPool = 2,
                          path_AggressivePool = False, path_RetryInterval = 3, path_DialTimeout = 10\<rparr>]
                   else Paths cfg)
      in \<lparr>cl_cfg = cfg, cl_mimic = Mimic cfg, cl_obfs = Obfs cfg, cl_psk = PSK cfg, cl_paths = paths,
          cl_verbose = Verbose cfg, cl_sessions = [], cl_sessIdx = 0, cl_standbyCh = [], cl_frameLevel = 0,
          cl_pathLatency = replicate (length paths) 0, cl_closed = (\<lambda>_. False), cl_next = 0\<rparr>)"

text \<open>
  \<open>Start\<close> up to its goroutines: the number of workers and the initial frame level; the DNS proxy it
  starts later when enabled, with its defaults.
\<close>

definition Start_pool :: "Client \<Rightarrow> (Client \<times> int) outcome" where
  "Start_pool c =
     (case cl_paths c of
        [] \<Rightarrow> Err (Msg ''no paths configured'')
      | p # _ \<Rightarrow>
          Ok (c\<lparr>cl_frameLevel := (if smux_FrameSize (Smux (cl_cfg c)) \<ge> 32768 then 4 else 0)\<rparr>,
              if path_ConnectionPool p \<le> 0 then 4 else path_ConnectionPool p))"

definition Start_dns :: "Client \<Rightarrow> (string \<times> string) option" where
  "Start_dns c =
     (let d = DNS (cl_cfg c) in
      if dns_Enabled d then Some (str_or (dns_Listen d) ''127.0.0.1:53'', str_or (dns_Upstream d) ''8.8.8.8:53'')
      else None)"

section \<open>The pool\<close>

definition addSession :: "sid \<Rightarrow> int \<Rightarrow> Client \<Rightarrow> Client" where
  "addSession i now c = c\<lparr>cl_sessions := cl_sessions c @ [\<lparr>ps_session = i, ps_createdAt = now\<rparr>]\<rparr>"

fun remove_first :: "sid \<Rightarrow> pooledSession list \<Rightarrow> pooledSession list" where
  "remove_first i [] = []"
| "remove_first i (p # ps) = (if ps_session p = i then ps else p # remove_first i ps)"

definition removeSession :: "sid \<Rightarrow> Client \<Rightarrow> Client" where
  "removeSession i c = c\<lparr>cl_sessions := remove_first i (cl_sessions c)\<rparr>"

definition sessionCount :: "Client \<Rightarrow> nat" where
  "sessionCount c = length (cl_sessions c)"

definition close_sid :: "sid \<Rightarrow> Client \<Rightarrow> Client" where
  "close_sid i c = c\<lparr>cl_closed := (cl_closed c)(i := True)\<rparr>"

text \<open>The two ticks of \<open>sessionHealthCheck\<close>.\<close>

definition clean_tick :: "Client \<Rightarrow> Client" where
  "clean_tick c = c\<lparr>cl_sessions := filter (\<lambda>p. \<not> cl_closed c (ps_session p)) (cl_sessions c)\<rparr>"

definition expired :: "int \<Rightarrow> Client \<Rightarrow> pooledSession \<Rightarrow> bool" where
  "expired now c p \<longleftrightarrow> \<not> cl_closed c (ps_session p) \<and> now - ps_createdAt p > sessionMaxAge"

definition oldest_expired :: "int \<Rightarrow> Client \<Rightarrow> pooledSession option" where
  "oldest_expired now c =
     fold (\<lambda>p oldest. if expired now c p \<and>
                         (case oldest of None \<Rightarrow> True | Some o' \<Rightarrow> ps_createdAt p < ps_createdAt o')
                      then Some p else oldest) (cl_sessions c) None"

definition recycle_tick :: "int \<Rightarrow> Client \<Rightarrow> Client" where
  "recycle_tick now c =
     (case oldest_expired now c of None \<Rightarrow> c | Some p \<Rightarrow> close_sid (ps_session p) c)"

section \<open>Opening a stream\<close>

text \<open>Go's remainder has the sign of the dividend.\<close>

definition go_rem :: "int \<Rightarrow> int \<Rightarrow> int" where
  "go_rem a b = sgn a * (\<bar>a\<bar> mod \<bar>b\<bar>)"

text \<open>
  One attempt of \<open>OpenStream\<close> on the copied pool, with the value \<open>k\<close> that its \<open>atomic.AddUint64\<close> returned; the
  conversion \<open>int(...)\<close> of that value is signed.  None: \<open>continue\<close>.
\<close>

definition OpenStream_attempt ::
    "(sid \<Rightarrow> bool) \<Rightarrow> (sid \<Rightarrow> goerror + conn) \<Rightarrow> string \<Rightarrow> pooledSession list \<Rightarrow> 64 word \<Rightarrow>
     (sid \<times> conn) outcome option" where
  "OpenStream_attempt isClosed opn target pool k =
     (let i = go_rem (sint k) (int (length pool)) in
      if i < 0 \<or> int (length pool) \<le> i then Some (Panic IndexOutOfRange)
      else
        let s = ps_session (pool ! nat i) in
        if isClosed s then None
        else (case opn s of
                Inl e \<Rightarrow> None
              | Inr stream \<Rightarrow>
                  (case sendTarget stream target of
                     (st, Some e) \<Rightarrow> None
                   | (st, None) \<Rightarrow> Some (Ok (s, st)))))"

text \<open>
  The loop.  The counter is shared by all callers and every attempt adds one to it on its own, so that other
  callers may add to it between two attempts: \<open>others j\<close> is what they have added when attempt \<open>j\<close> adds its one.
\<close>

fun OpenStream_loop ::
    "(nat \<Rightarrow> 64 word) \<Rightarrow> (sid \<Rightarrow> bool) \<Rightarrow> (sid \<Rightarrow> goerror + conn) \<Rightarrow> string \<Rightarrow> pooledSession list \<Rightarrow>
     nat \<Rightarrow> nat \<Rightarrow> 64 word \<Rightarrow> 64 word \<times> (sid \<times> conn) outcome" where
  "OpenStream_loop others isClosed opn target pool j 0 idx = (idx, Err (Msg ''all sessions exhausted''))"
| "OpenStream_loop others isClosed opn target pool j (Suc left) idx =
     (let idx = idx + others j + 1 in
      case OpenStream_attempt isClosed opn target pool idx of
        Some r \<Rightarrow> (idx, r)
      | None \<Rightarrow> OpenStream_loop others isClosed opn target pool (Suc j) left idx)"

definition OpenStream ::
    "(nat \<Rightarrow> 64 word) \<Rightarrow> (sid \<Rightarrow> goerror + conn) \<Rightarrow> string \<Rightarrow> Client \<Rightarrow> Client \<times> (sid \<times> conn) outcome" where
  "OpenStream others opn target c =
     (if cl_sessions c = [] then (c, Err (Msg ''no active sessions''))
      else case OpenStream_loop others (cl_closed c) opn target (cl_sessions c) 0 (length (cl_sessions c)) (cl_sessIdx c) of
             (idx, r) \<Rightarrow> (c\<lparr>cl_sessIdx := idx\<rparr>, r))"

section \<open>Paths\<close>

fun bestPath_loop :: "nat \<Rightarrow> nat \<Rightarrow> int \<Rightarrow> int list \<Rightarrow> nat" where
  "bestPath_loop i best bestRTT [] = best"
| "bestPath_loop i best bestRTT (rtt # rest) =
     (if rtt > 0 \<and> (bestRTT = 0 \<or> rtt < bestRTT) then bestPath_loop (Suc i) i rtt rest
      else bestPath_loop (Suc i) best bestRTT rest)"

text \<open>\<open>lat\<close>: the values its atomic loads return, one per path.\<close>

definition bestPath :: "int list \<Rightarrow> nat" where
  "bestPath lat = (case lat of [] \<Rightarrow> 0 | x # rest \<Rightarrow> if rest = [] then 0 else bestPath_loop 1 0 x rest)"

definition path_transport :: "Config \<Rightarrow> PathConfig \<Rightarrow> string" where
  "path_transport cfg p = str_or (to_lower (trim_space (path_Transport p))) (Transport cfg)"

definition parseAddr :: "string \<Rightarrow> string \<Rightarrow> string \<times> string" where
  "parseAddr addr transport =
     (let addr = trim_prefix addr ''http://''; addr = trim_prefix addr ''https://'';
          addr = trim_prefix addr ''ws://''; addr = trim_prefix addr ''wss://'';
          addr = (case str_index ''/'' addr of Some i \<Rightarrow> take i addr | None \<Rightarrow> addr)
      in case SplitHostPort addr of
           Ok hp \<Rightarrow> hp
         | _ \<Rightarrow> (addr, if transport = ''httpsmux'' \<or> transport = ''wssmux'' then ''443'' else ''80''))"

definition dial_addr :: "Config \<Rightarrow> PathConfig \<Rightarrow> string" where
  "dial_addr cfg p =
     (case parseAddr (trim_space (path_Addr p)) (path_transport cfg p) of (h, pt) \<Rightarrow> JoinHostPort h pt)"

text \<open>One probe of \<open>latencyProber\<close>: the measured round trip, or 999 seconds when the dial fails.\<close>

definition probe_path :: "nat \<Rightarrow> int option \<Rightarrow> Client \<Rightarrow> Client" where
  "probe_path i rtt c =
     c\<lparr>cl_pathLatency := (cl_pathLatency c)[i := (case rtt of Some t \<Rightarrow> t | None \<Rightarrow> 999 * second)]\<rparr>"

definition fragmentCfg :: "Config \<Rightarrow> FragmentConfig option" where
  "fragmentCfg cfg =
     (if frag_Enabled (Fragment cfg) then Some (Fragment cfg)
      else if Transport cfg = ''httpsmux'' \<or> Transport cfg = ''wssmux'' then Some DefaultFragmentConfig
      else None)"

definition setTCPOptions :: "AdvancedConfig \<Rightarrow> sockopt list" where
  "setTCPOptions a =
     [KeepAlive True, KeepAlivePeriod (wrap64 (adv_TCPKeepAlive a * second)), NoDelay (adv_TCPNoDelay a)] @
     (if adv_TCPReadBuffer a > 0 then [ReadBuffer (adv_TCPReadBuffer a)] else []) @
     (if adv_TCPWriteBuffer a > 0 then [WriteBuffer (adv_TCPWriteBuffer a)] else [])"

section \<open>Round robin\<close>

definition serves :: "(sid \<Rightarrow> bool) \<Rightarrow> (sid \<Rightarrow> goerror + conn) \<Rightarrow> string \<Rightarrow> sid \<Rightarrow> conn \<Rightarrow> bool" where
  "serves isClosed opn target s st \<longleftrightarrow> \<not> isClosed s \<and>
     (\<exists>stream. opn s = Inr stream \<and> sendTarget stream target = (st, None))"

lemma sint_small:
  fixes w :: "64 word"
  assumes "unat w < 2 ^ 63" shows "sint w = int (unat w)"
proof -
  have "wrap64 (int (unat w)) = sint w" by (simp add: wrap64_is_sint)
  moreover have "int (unat w) < 2 ^ 63" using assms by (metis of_nat_less_iff of_nat_numeral of_nat_power)
  moreover have "- (2 ^ 63) \<le> int (unat w)" by (rule order_trans [of _ 0]) simp_all
  ultimately have "wrap64 (int (unat w)) = sint w" "int64_range (int (unat w))" unfolding int64_range_def by blast+
  then show ?thesis by (simp only: wrap64_id)
qed

lemma go_rem_nat: "go_rem (int m) (int n) = int (m mod n)"
  by (cases "m = 0") (simp_all add: go_rem_def zmod_int)

lemma counter_add:
  fixes w d :: "64 word"
  assumes "unat w + unat d + 1 < 2 ^ 63"
  shows "unat (w + d + 1) = unat w + unat d + 1"
proof -
  have "unat (w + d) = unat w + unat d" using assms by (subst unat_add_lem [symmetric]) simp
  moreover from this have "unat (w + d + 1) = unat (w + d) + unat (1 :: 64 word)"
    using assms by (subst unat_add_lem [symmetric]) simp
  ultimately show ?thesis by simp
qed

text \<open>How far the counter is when attempt \<open>j\<close> has added its one.\<close>

definition visit :: "(nat \<Rightarrow> 64 word) \<Rightarrow> nat \<Rightarrow> nat" where
  "visit others j = (\<Sum>i \<le> j. unat (others i) + 1)"

lemma visit_simps: "visit others 0 = unat (others 0) + 1" "visit others (Suc j) = visit others j + unat (others (Suc j)) + 1"
  by (simp_all add: visit_def)

lemma visit_shift: "visit others (Suc j) = unat (others 0) + 1 + visit (\<lambda>i. others (Suc i)) j"
  by (induction j) (simp_all add: visit_simps)

lemma visit_mono: "i \<le> j \<Longrightarrow> visit others i \<le> visit others j"
  unfolding visit_def by (rule sum_mono2) auto

lemma visit_alone: "\<forall>i \<le> j. others i = 0 \<Longrightarrow> visit others j = Suc j"
  by (simp add: visit_def)

lemma attempt_result:
  assumes "pool \<noteq> []" "unat k < 2 ^ 63"
  defines "s \<equiv> ps_session (pool ! (unat k mod length pool))"
  shows "case OpenStream_attempt isClosed opn target pool k of
      None \<Rightarrow> \<forall>st. \<not> serves isClosed opn target s st
    | Some r \<Rightarrow> \<exists>st. r = Ok (s, st) \<and> serves isClosed opn target s st"
proof -
  have i: "go_rem (sint k) (int (length pool)) = int (unat k mod length pool)"
    by (simp only: sint_small [OF assms(2)] go_rem_nat)
  have "unat k mod length pool < length pool" using assms(1) by simp
  then show ?thesis
    unfolding s_def OpenStream_attempt_def i serves_def
    by (auto simp: Let_def split: sum.split prod.split option.split)
qed

lemma OpenStream_loop_shift:
  "OpenStream_loop others isClosed opn target pool (Suc j) a idx =
   OpenStream_loop (\<lambda>i. others (Suc i)) isClosed opn target pool j a idx"
  by (induction a arbitrary: j idx) (simp_all add: Let_def split: option.split)

lemma OpenStream_loop_result:
  assumes "pool \<noteq> []"
  shows "(a \<noteq> 0 \<Longrightarrow> unat idx + visit others (a - 1) < 2 ^ 63) \<Longrightarrow>
    (case snd (OpenStream_loop others isClosed opn target pool 0 a idx) of
       Ok (s, st) \<Rightarrow> (\<exists>j < a. s = ps_session (pool ! ((unat idx + visit others j) mod length pool))) \<and>
         serves isClosed opn target s st
     | Err e \<Rightarrow> e = Msg ''all sessions exhausted'' \<and>
         (\<forall>j < a. \<forall>st. \<not> serves isClosed opn target (ps_session (pool ! ((unat idx + visit others j) mod length pool))) st)
     | Panic p \<Rightarrow> False)"
proof (induction a arbitrary: idx others)
  case (Suc a)
  let ?n = "length pool" and ?k = "idx + others 0 + 1" and ?o = "\<lambda>i. others (Suc i)"
  have "visit others 0 \<le> visit others a" by (rule visit_mono) simp
  then have lt: "unat idx + unat (others 0) + 1 < 2 ^ 63" using Suc.prems by (simp add: visit_simps)
  then have k: "unat ?k = unat idx + visit others 0" by (simp add: visit_simps counter_add)
  have v: "unat ?k + visit ?o j = unat idx + visit others (Suc j)" for j by (simp add: k visit_simps(1) visit_shift)
  have "a \<noteq> 0 \<Longrightarrow> unat ?k + visit ?o (a - 1) < 2 ^ 63" using Suc.prems v [of "a - 1"] by simp
  note IH = Suc.IH [OF this] and at = attempt_result [OF assms, of ?k isClosed opn target]
  show ?case
  proof (cases "OpenStream_attempt isClosed opn target pool ?k")
    case None
    have r: "OpenStream_loop others isClosed opn target pool 0 (Suc a) idx =
        OpenStream_loop ?o isClosed opn target pool 0 a ?k"
      by (simp add: None OpenStream_loop_shift)
    have no: "\<forall>st. \<not> serves isClosed opn target (ps_session (pool ! ((unat idx + visit others 0) mod ?n))) st"
      using at None lt k by (simp add: visit_simps)
    show ?thesis
    proof (cases "snd (OpenStream_loop ?o isClosed opn target pool 0 a ?k)")
      case (Ok x)
      then show ?thesis using IH unfolding r v by (auto intro: exI [of _ "Suc _"])
    next
      case (Err e)
      then have "\<forall>j < a. \<forall>st. \<not> serves isClosed opn target (ps_session (pool ! ((unat idx + visit others (Suc j)) mod ?n))) st"
        using IH unfolding v by simp
      then show ?thesis using IH Err no unfolding r by (auto simp: less_Suc_eq_0_disj)
    next
      case (Panic p)
      then show ?thesis using IH by simp
    qed
  next
    case (Some x)
    then show ?thesis using at lt k by (auto simp: visit_simps Let_def intro!: exI [of _ 0])
  qed
qed simp

lemma round_covers:
  assumes "0 < n" "x < n"
  shows "\<exists>j \<in> {1..n}. (k + j) mod n = (x :: nat)"
proof -
  define r where "r = (k + 1) mod n"
  define i where "i = (if r \<le> x then x - r else x + n - r)"
  have r: "r < n" using assms by (simp add: r_def)
  then have i: "i < n" "(r + i) mod n = x" using assms(2) by (auto simp: i_def mod_if)
  have "(k + (i + 1)) mod n = (r + i) mod n" by (simp add: r_def mod_simps algebra_simps)
  then show ?thesis using i by (intro bexI [of _ "i + 1"]) auto
qed

section \<open>Adaptive frame level\<close>

text \<open>
  \<open>adjustFrameLevel\<close> is a compare-and-swap loop run by several workers at once.  A caller is about to
  load, has loaded \<open>old\<close> and computed the new level, or has returned; a failed swap sends it back to the
  load.  The level is an \<open>int32\<close>, which the clamped values never leave.
\<close>

datatype adjuster = ToLoad int | Loaded int int | Returned

definition clamp_level :: "int \<Rightarrow> int \<Rightarrow> int" where
  "clamp_level old delta = (let n = old + delta; n = (if n < 0 then 0 else n) in if n > 4 then 4 else n)"

inductive adj_step :: "int \<times> adjuster list \<Rightarrow> int \<times> adjuster list \<Rightarrow> bool" where
  load_same: "i < length ts \<Longrightarrow> ts ! i = ToLoad d \<Longrightarrow> clamp_level l d = l \<Longrightarrow>
    adj_step (l, ts) (l, ts[i := Returned])"
| load: "i < length ts \<Longrightarrow> ts ! i = ToLoad d \<Longrightarrow> clamp_level l d \<noteq> l \<Longrightarrow>
    adj_step (l, ts) (l, ts[i := Loaded d l])"
| swap: "i < length ts \<Longrightarrow> ts ! i = Loaded d l \<Longrightarrow> adj_step (l, ts) (clamp_level l d, ts[i := Returned])"
| retry: "i < length ts \<Longrightarrow> ts ! i = Loaded d old \<Longrightarrow> old \<noteq> l \<Longrightarrow> adj_step (l, ts) (l, ts[i := ToLoad d])"

definition level_ok :: "int \<Rightarrow> bool" where
  "level_ok l \<longleftrightarrow> 0 \<le> l \<and> l \<le> 4"

lemma clamp_level_ok: "level_ok (clamp_level l d)"
  by (simp add: clamp_level_def level_ok_def Let_def)

lemma adj_step_ok: "adj_step s t \<Longrightarrow> level_ok (fst s) \<Longrightarrow> level_ok (fst t)"
  by (induction rule: adj_step.induct) (simp_all add: clamp_level_ok)

lemma adj_reach_ok: "adj_step\<^sup>*\<^sup>* s t \<Longrightarrow> level_ok (fst s) \<Longrightarrow> level_ok (fst t)"
  by (induction rule: rtranclp_induct) (auto intro: adj_step_ok)

text \<open>
  Progress: a step finishes a caller, or keeps the running callers and makes one fewer of them stale, or
  keeps both and starts one fewer.
\<close>

definition cnt :: "('a \<Rightarrow> bool) \<Rightarrow> 'a list \<Rightarrow> nat" where
  "cnt P xs = length (filter P xs)"

lemma cnt_update:
  "i < length xs \<Longrightarrow> cnt P (xs[i := x]) + (if P (xs ! i) then 1 else 0) = cnt P xs + (if P x then 1 else 0)"
proof (induction xs arbitrary: i)
  case (Cons y ys)
  then show ?case by (cases i) (auto simp: cnt_def)
qed simp

fun stale :: "int \<Rightarrow> adjuster \<Rightarrow> bool" where
  "stale l (Loaded d old) \<longleftrightarrow> old \<noteq> l"
| "stale l _ \<longleftrightarrow> False"

fun to_load :: "adjuster \<Rightarrow> bool" where
  "to_load (ToLoad d) \<longleftrightarrow> True"
| "to_load _ \<longleftrightarrow> False"

definition adj_order :: "((int \<times> adjuster list) \<times> (int \<times> adjuster list)) set" where
  "adj_order = inv_image (less_than <*lex*> less_than <*lex*> less_than)
     (\<lambda>(l, ts). (cnt (\<lambda>a. a \<noteq> Returned) ts, cnt (stale l) ts, cnt to_load ts))"

lemma wf_adj_order: "wf adj_order"
  by (simp add: adj_order_def wf_lex_prod)

lemma adj_step_order: "adj_step s t \<Longrightarrow> (t, s) \<in> adj_order"
proof (induction rule: adj_step.induct)
  case (load_same i ts d l)
  then show ?case using cnt_update [of i ts "\<lambda>a. a \<noteq> Returned" Returned] by (simp add: adj_order_def)
next
  case (load i ts d l)
  then show ?case
    using cnt_update [of i ts "\<lambda>a. a \<noteq> Returned" "Loaded d l"] cnt_update [of i ts "stale l" "Loaded d l"]
      cnt_update [of i ts to_load "Loaded d l"]
    by (simp add: adj_order_def)
next
  case (swap i ts d l)
  then show ?case using cnt_update [of i ts "\<lambda>a. a \<noteq> Returned" Returned] by (simp add: adj_order_def)
next
  case (retry i ts d old l)
  then show ?case
    using cnt_update [of i ts "\<lambda>a. a \<noteq> Returned" "ToLoad d"] cnt_update [of i ts "stale l" "ToLoad d"]
    by (simp add: adj_order_def)
qed

lemma adj_stuck: "(\<And>t. \<not> adj_step (l, ts) t) \<Longrightarrow> set ts \<subseteq> {Returned}"
proof
  fix a
  assume stuck: "\<And>t. \<not> adj_step (l, ts) t" and "a \<in> set ts"
  then obtain i where i: "i < length ts" "ts ! i = a" by (auto simp: in_set_conv_nth)
  show "a \<in> {Returned}"
  proof (cases a)
    case (ToLoad d)
    then show ?thesis using load_same load stuck i by blast
  next
    case (Loaded d old)
    then show ?thesis using swap retry stuck i by (metis (full_types))
  qed simp
qed

text \<open>
  C24: Whatever the interleaving of concurrent \<open>adjustFrameLevel\<close> calls, the level stays a valid index of
  \<open>frameSizes\<close>, every run is finite, and a run that cannot go on has returned from all of them: the
  compare-and-swap loop does not livelock.
\<close>

theorem adjustFrameLevel_live:
  assumes "level_ok l"
  shows "(\<forall>l' ts'. adj_step\<^sup>*\<^sup>* (l, ts) (l', ts') \<longrightarrow> level_ok l' \<and> nat l' < length frameSizes \<and>
      ((\<forall>t. \<not> adj_step (l', ts') t) \<longrightarrow> set ts' \<subseteq> {Returned})) \<and>
    \<not> (\<exists>f. f 0 = (l, ts) \<and> (\<forall>n. adj_step (f n) (f (Suc n))))"
proof (intro conjI allI impI)
  fix l' ts'
  assume r: "adj_step\<^sup>*\<^sup>* (l, ts) (l', ts')"
  show "level_ok l'" using adj_reach_ok [OF r] assms by simp
  then show "nat l' < length frameSizes" by (auto simp: level_ok_def frameSizes_def)
  show "set ts' \<subseteq> {Returned}" if "\<forall>t. \<not> adj_step (l', ts') t"
    using that by (intro adj_stuck) blast
next
  show "\<not> (\<exists>f. f 0 = (l, ts) \<and> (\<forall>n. adj_step (f n) (f (Suc n))))"
    using wf_adj_order adj_step_order unfolding wf_iff_no_infinite_down_chain by blast
qed

theorem adjustFrameLevel_live_witness:
  "level_ok 2 \<and> level_ok (clamp_level 2 (- 1)) \<and> nat (clamp_level 2 (- 1)) < length frameSizes"
proof -
  have ok: "level_ok 2" by (simp add: level_ok_def)
  have "adj_step\<^sup>*\<^sup>* (2, [ToLoad (- 1)]) (2, [Loaded (- 1) 2])"
    using load [of 0 "[ToLoad (- 1)]" "- 1" 2] by (auto simp: clamp_level_def)
  moreover have "adj_step (2, [Loaded (- 1) 2]) (clamp_level 2 (- 1), [Returned])"
    using swap [of 0 "[Loaded (- 1) 2]" "- 1" 2] by simp
  ultimately have "adj_step\<^sup>*\<^sup>* (2, [ToLoad (- 1)]) (clamp_level 2 (- 1), [Returned])" by (rule rtranclp.rtrancl_into_rtrancl)
  with adjustFrameLevel_live [OF ok, of "[ToLoad (- 1)]"] ok show ?thesis by blast
qed

section \<open>Properties of the pool\<close>

lemma go_rem_neg:
  assumes "a < 0" "0 < n" "\<not> n dvd a" shows "go_rem a n < 0"
proof -
  have "\<bar>a\<bar> mod n \<noteq> 0" using assms(3) by (simp add: dvd_eq_mod_eq_0 [symmetric])
  then have "0 < \<bar>a\<bar> mod n" using assms(2) pos_mod_sign [of n "\<bar>a\<bar>"] by linarith
  then show ?thesis using assms by (simp add: go_rem_def)
qed

text \<open>The session that attempt \<open>j\<close> looks at.\<close>

definition visited :: "(nat \<Rightarrow> 64 word) \<Rightarrow> Client \<Rightarrow> nat \<Rightarrow> sid" where
  "visited others c j =
     ps_session (cl_sessions c ! ((unat (cl_sessIdx c) + visit others j) mod length (cl_sessions c)))"

lemma alone_covers:
  assumes "\<forall>i. others i = 0" "p \<in> set (cl_sessions c)"
  shows "\<exists>j < length (cl_sessions c). visited others c j = ps_session p"
proof -
  let ?n = "length (cl_sessions c)"
  obtain x where x: "x < ?n" "p = cl_sessions c ! x" using assms(2) by (auto simp: in_set_conv_nth)
  obtain j where "j \<in> {1..?n}" "(unat (cl_sessIdx c) + j) mod ?n = x" using round_covers [of ?n x] x(1) by fastforce
  then show ?thesis
    using x(2) visit_alone [of "j - 1" others] assms(1) by (intro exI [of _ "j - 1"]) (auto simp: visited_def)
qed

text \<open>
  C23: Round robin over the pool with concurrent callers.  Whatever the other callers add to the shared counter
  between the attempts of a call (every call of an interleaving is of this kind, by \<open>callers_reduce\<close> below), as
  long as the counter stays below \<open>2^63\<close> the call never panics.  It returns a stream exactly when one of the
  sessions that its attempts look at, one attempt per pooled session, is not closed, opens a stream and takes
  the target header, and the stream is of such a session of the pool.  A call that nobody interferes with
  misses no session.
\<close>

theorem OpenStream_round_robin:
  assumes "cl_sessions c \<noteq> []" "unat (cl_sessIdx c) + visit others (length (cl_sessions c) - 1) < 2 ^ 63"
  shows "(\<exists>s st. snd (OpenStream others opn target c) = Ok (s, st)) =
      (\<exists>j < length (cl_sessions c). \<exists>st. serves (cl_closed c) opn target (visited others c j) st) \<and>
    (\<forall>s st. snd (OpenStream others opn target c) = Ok (s, st) \<longrightarrow>
      s \<in> ps_session ` set (cl_sessions c) \<and> serves (cl_closed c) opn target s st) \<and>
    (\<forall>p. snd (OpenStream others opn target c) \<noteq> Panic p) \<and>
    ((\<forall>i. others i = 0) \<longrightarrow> (\<exists>s st. snd (OpenStream others opn target c) = Ok (s, st)) =
      (\<exists>p \<in> set (cl_sessions c). \<exists>st. serves (cl_closed c) opn target (ps_session p) st))"
proof -
  let ?n = "length (cl_sessions c)" and ?r = "snd (OpenStream others opn target c)"
  have "?r = snd (OpenStream_loop others (cl_closed c) opn target (cl_sessions c) 0 ?n (cl_sessIdx c))"
    using assms(1) by (simp add: OpenStream_def split: prod.split)
  then have res: "case ?r of
       Ok (s, st) \<Rightarrow> (\<exists>j < ?n. s = visited others c j) \<and> serves (cl_closed c) opn target s st
     | Err e \<Rightarrow> e = Msg ''all sessions exhausted'' \<and> (\<forall>j < ?n. \<forall>st. \<not> serves (cl_closed c) opn target (visited others c j) st)
     | Panic p \<Rightarrow> False"
    using OpenStream_loop_result [OF assms(1), of ?n "cl_sessIdx c" others "cl_closed c" opn target] assms(2)
    unfolding visited_def by simp
  have member: "visited others c j \<in> ps_session ` set (cl_sessions c)" for j
    using assms(1) by (auto simp: visited_def)
  have ok: "(\<exists>s st. ?r = Ok (s, st)) = (\<exists>j < ?n. \<exists>st. serves (cl_closed c) opn target (visited others c j) st)"
    using res by (cases ?r) auto
  moreover have "(\<exists>j < ?n. \<exists>st. serves (cl_closed c) opn target (visited others c j) st) =
      (\<exists>p \<in> set (cl_sessions c). \<exists>st. serves (cl_closed c) opn target (ps_session p) st)" if "\<forall>i. others i = 0"
    using alone_covers [OF that] member by (metis imageE)
  ultimately show ?thesis using res member by (cases ?r) auto
qed

text \<open>
  Two callers can miss a healthy session: if the others always add one less than the length of the pool
  between two attempts, a call looks at the same session each time.
\<close>

lemma OpenStream_same_session:
  assumes "length (cl_sessions c) = Suc m" "\<forall>i. others i = of_nat m" "Suc m < 2 ^ 63"
  shows "visited others c j = ps_session (cl_sessions c ! (unat (cl_sessIdx c) mod Suc m))"
proof -
  have "m < 2 ^ LENGTH(64)" using assms(3) by simp
  then have "unat (of_nat m :: 64 word) = m" by (simp add: unat_of_nat)
  then have "visit others j = Suc m * Suc j" using assms(2) by (induction j) (simp_all add: visit_simps)
  then have "(unat (cl_sessIdx c) + visit others j) mod Suc m = unat (cl_sessIdx c) mod Suc m"
    by (simp only: mod_mult_self2)
  then show ?thesis using assms(1) by (simp only: visited_def)
qed

text \<open>
  The callers as one system: each has the client as it was when it copied the pool, and one step is one
  attempt of one caller, or its end after the last one.
\<close>

datatype caller = Trying nat | Got "(sid \<times> conn) outcome"

inductive callers_step ::
    "(nat \<Rightarrow> Client) \<Rightarrow> (nat \<Rightarrow> sid \<Rightarrow> goerror + conn) \<Rightarrow> (nat \<Rightarrow> string) \<Rightarrow>
     64 word \<times> caller list \<Rightarrow> 64 word \<times> caller list \<Rightarrow> bool" for c opn target where
  c_try: "i < length ts \<Longrightarrow> ts ! i = Trying k \<Longrightarrow> k < length (cl_sessions (c i)) \<Longrightarrow>
    callers_step c opn target (idx, ts) (idx + 1, ts[i :=
      (case OpenStream_attempt (cl_closed (c i)) (opn i) (target i) (cl_sessions (c i)) (idx + 1) of
         Some r \<Rightarrow> Got r | None \<Rightarrow> Trying (Suc k))])"
| c_end: "i < length ts \<Longrightarrow> ts ! i = Trying k \<Longrightarrow> length (cl_sessions (c i)) \<le> k \<Longrightarrow>
    callers_step c opn target (idx, ts) (idx, ts[i := Got (Err (Msg ''all sessions exhausted''))])"

fun attempts_left :: "nat \<Rightarrow> caller \<Rightarrow> nat" where
  "attempts_left n (Trying k) = n - k"
| "attempts_left n (Got r) = 0"

definition all_left :: "(nat \<Rightarrow> Client) \<Rightarrow> caller list \<Rightarrow> nat" where
  "all_left c ts = (\<Sum>i < length ts. attempts_left (length (cl_sessions (c i))) (ts ! i))"

lemma all_left_update:
  assumes "i < length ts"
  shows "all_left c (ts[i := t]) + attempts_left (length (cl_sessions (c i))) (ts ! i) =
    all_left c ts + attempts_left (length (cl_sessions (c i))) t"
proof -
  let ?f = "\<lambda>ts j. attempts_left (length (cl_sessions (c j))) (ts ! j)"
  have "sum (?f us) {..< length ts} = ?f us i + sum (?f us) ({..< length ts} - {i})" for us
    using assms by (simp add: sum.remove)
  moreover have "sum (?f (ts[i := t])) ({..< length ts} - {i}) = sum (?f ts) ({..< length ts} - {i})"
    by (rule sum.cong) auto
  ultimately show ?thesis using assms by (simp add: all_left_def)
qed

text \<open>What the other callers have added so far is an instance of \<open>others\<close>.\<close>

definition before :: "(nat \<Rightarrow> 64 word) \<Rightarrow> nat \<Rightarrow> nat" where
  "before others k = (\<Sum>j < k. unat (others j) + 1)"

definition call_loop where
  "call_loop c opn target others = OpenStream_loop others (cl_closed c) opn target (cl_sessions c)"

fun explained :: "nat \<Rightarrow> 64 word \<Rightarrow> Client \<Rightarrow> (sid \<Rightarrow> goerror + conn) \<Rightarrow> string \<Rightarrow> 64 word \<Rightarrow> caller \<Rightarrow> bool" where
  "explained B idx0 c opn target idx (Trying k) \<longleftrightarrow> k \<le> length (cl_sessions c) \<and>
     (\<exists>others d. unat idx0 + before others k + d = unat idx \<and>
       (\<forall>others' a. (\<forall>j < k. others' j = others j) \<longrightarrow>
          call_loop c opn target others' 0 (k + a) idx0 = call_loop c opn target others' k a (idx - of_nat d)))"
| "explained B idx0 c opn target idx (Got r) \<longleftrightarrow>
     (\<exists>others. r = snd (call_loop c opn target others 0 (length (cl_sessions c)) idx0) \<and>
        unat idx0 + before others (length (cl_sessions c)) \<le> B)"

lemma before_Suc: "before others (Suc k) = before others k + unat (others k) + 1"
  by (simp add: before_def)

lemma before_visit: "0 < n \<Longrightarrow> before others n = visit others (n - 1)"
  by (cases n) (simp_all add: before_def visit_def lessThan_Suc_atMost)

lemma before_cong: "\<forall>j < k. f j = g j \<Longrightarrow> before f k = before g k"
  by (simp add: before_def)

lemma before_rest: "\<forall>j. k \<le> j \<longrightarrow> others j = 0 \<Longrightarrow> before others (k + m) = before others k + m"
  by (induction m) (simp_all add: before_Suc)

lemma explained_other:
  assumes "explained B idx0 c opn target idx t" "unat (idx + 1) = unat idx + 1"
  shows "explained B idx0 c opn target (idx + 1) t"
proof (cases t)
  case (Trying k)
  then obtain others d where h: "k \<le> length (cl_sessions c)" "unat idx0 + before others k + d = unat idx"
    "\<And>others' a. (\<forall>j < k. others' j = others j) \<Longrightarrow>
       call_loop c opn target others' 0 (k + a) idx0 = call_loop c opn target others' k a (idx - of_nat d)"
    using assms(1) by auto
  then show ?thesis
    unfolding Trying explained.simps using assms(2) by (intro conjI exI [of _ others] exI [of _ "Suc d"]) auto
qed (use assms(1) in simp)

lemma call_loop_Suc:
  "call_loop c opn target others j (Suc a) idx =
     (case OpenStream_attempt (cl_closed c) opn target (cl_sessions c) (idx + others j + 1) of
        Some r \<Rightarrow> (idx + others j + 1, r) | None \<Rightarrow> call_loop c opn target others (Suc j) a (idx + others j + 1))"
  by (simp add: call_loop_def Let_def split: option.split)

lemma explained_try:
  assumes "explained B idx0 c opn target idx (Trying k)" "k < length (cl_sessions c)"
    and "unat (idx + 1) = unat idx + 1" "unat idx + (length (cl_sessions c) - k) \<le> B"
  shows "explained B idx0 c opn target (idx + 1)
    (case OpenStream_attempt (cl_closed c) opn target (cl_sessions c) (idx + 1) of Some r \<Rightarrow> Got r | None \<Rightarrow> Trying (Suc k))"
proof -
  let ?n = "length (cl_sessions c)" and ?at = "OpenStream_attempt (cl_closed c) opn target (cl_sessions c) (idx + 1)"
  obtain others d where h: "unat idx0 + before others k + d = unat idx"
    "\<And>others' a. (\<forall>j < k. others' j = others j) \<Longrightarrow>
       call_loop c opn target others' 0 (k + a) idx0 = call_loop c opn target others' k a (idx - of_nat d)"
    using assms(1) by auto
  define f where "f = (\<lambda>j. if j < k then others j else if j = k then of_nat d else 0)"
  have "d < 2 ^ LENGTH(64)" using h(1) unsigned_less [of idx, where 'a = nat] by simp
  then have d: "unat (of_nat d :: 64 word) = d" by (simp add: unat_of_nat)
  have bk: "before f k = before others k" by (rule before_cong) (simp add: f_def)
  then have b: "unat idx0 + before f (Suc k) = unat (idx + 1)" using h(1) assms(3) d by (simp add: before_Suc f_def)
  have step: "call_loop c opn target g 0 (k + Suc a) idx0 =
      (case ?at of Some r \<Rightarrow> (idx + 1, r) | None \<Rightarrow> call_loop c opn target g (Suc k) a (idx + 1))"
    if "\<forall>j < Suc k. g j = f j" for g a
  proof -
    have "g k = of_nat d" "\<forall>j < k. g j = others j" using that by (auto simp: f_def)
    then have "idx - of_nat d + g k + 1 = idx + 1" "call_loop c opn target g 0 (k + Suc a) idx0 =
        call_loop c opn target g k (Suc a) (idx - of_nat d)" using h(2) [of g "Suc a"] by simp_all
    then show ?thesis by (simp only: call_loop_Suc)
  qed
  show ?thesis
  proof (cases ?at)
    case None
    have "unat idx0 + before f (Suc k) + 0 = unat (idx + 1) \<and> (\<forall>g a. (\<forall>j < Suc k. g j = f j) \<longrightarrow>
        call_loop c opn target g 0 (Suc k + a) idx0 = call_loop c opn target g (Suc k) a (idx + 1 - of_nat 0))"
      using b step None by simp
    then show ?thesis unfolding None option.case explained.simps using assms(2) by (metis Suc_leI)
  next
    case (Some r)
    have "before f (Suc k + (?n - Suc k)) = before f (Suc k) + (?n - Suc k)" by (rule before_rest) (simp add: f_def)
    moreover have "Suc k + (?n - Suc k) = ?n" using assms(2) by simp
    ultimately have "before f ?n = before f (Suc k) + (?n - Suc k)" by metis
    then have "unat idx0 + before f ?n \<le> B" using b assms(2-4) by simp
    moreover have "snd (call_loop c opn target f 0 ?n idx0) = r"
      using step [of f "?n - Suc k"] assms(2) Some by (simp add: Suc_diff_Suc)
    ultimately show ?thesis using Some by auto
  qed
qed

lemma explained_end:
  assumes "explained B idx0 c opn target idx (Trying k)" "length (cl_sessions c) \<le> k" "unat idx \<le> B"
  shows "explained B idx0 c opn target idx (Got (Err (Msg ''all sessions exhausted'')))"
proof -
  let ?n = "length (cl_sessions c)"
  have k: "k = ?n" using assms(1,2) by simp
  obtain others d where h: "unat idx0 + before others k + d = unat idx"
    "\<And>others' a. (\<forall>j < k. others' j = others j) \<Longrightarrow>
       call_loop c opn target others' 0 (k + a) idx0 = call_loop c opn target others' k a (idx - of_nat d)"
    using assms(1) by auto
  have "call_loop c opn target others 0 ?n idx0 = call_loop c opn target others k 0 (idx - of_nat d)"
    using h(2) [of others 0] k by simp
  then have "snd (call_loop c opn target others 0 ?n idx0) = Err (Msg ''all sessions exhausted'')"
    by (simp add: call_loop_def)
  moreover have "unat idx0 + before others ?n \<le> B" using h(1) k assms(3) by simp
  ultimately show ?thesis unfolding explained.simps by metis
qed

text \<open>
  Each call of an interleaving is a call of \<open>OpenStream\<close> with some \<open>others\<close>, and the counter stays below the
  bound as long as one more round of every caller would.
\<close>

lemma callers_explained:
  assumes "(callers_step c opn target)\<^sup>*\<^sup>* (idx0, replicate m (Trying 0)) (idx, ts)"
    and "unat idx0 + (\<Sum>i < m. length (cl_sessions (c i))) < 2 ^ 63"
  defines "B \<equiv> unat idx0 + (\<Sum>i < m. length (cl_sessions (c i)))"
  shows "length ts = m \<and> unat idx + all_left c ts \<le> B \<and> (\<forall>i < m. explained B idx0 (c i) (opn i) (target i) idx (ts ! i))"
  using assms(1)
proof (induction rule: rtranclp_induct2)
  case refl
  have "explained B idx0 (c i) (opn i) (target i) idx0 (Trying 0)" for i
    by (auto simp: before_def intro: exI [of _ "\<lambda>_. 0"] exI [of _ 0])
  then show ?case by (simp add: B_def all_left_def)
next
  case (step idx ts idx' ts')
  have small: "unat (idx + 1) = unat idx + 1" if "unat idx < B" for idx :: "64 word"
    using that assms(2) counter_add [of idx 0] by (simp add: B_def)
  from step.hyps(2) show ?case
  proof (cases rule: callers_step.cases)
    case (c_try p k)
    let ?n = "length (cl_sessions (c p))"
    let ?t = "case OpenStream_attempt (cl_closed (c p)) (opn p) (target p) (cl_sessions (c p)) (idx + 1) of
      Some r \<Rightarrow> Got r | None \<Rightarrow> Trying (Suc k)"
    have "attempts_left ?n ?t \<le> ?n - Suc k" by (simp split: option.split)
    then have l: "all_left c (ts[p := ?t]) + 1 \<le> all_left c ts" "?n - k \<le> all_left c ts"
      using all_left_update [OF c_try(3), of c ?t] all_left_update [OF c_try(3), of c "Got undefined"] c_try(4,5) by simp_all
    then have s: "unat (idx + 1) = unat idx + 1" using small [of idx] step.IH by simp
    have "explained B idx0 (c i) (opn i) (target i) (idx + 1) (ts[p := ?t] ! i)" if "i < m" for i
    proof (cases "i = p")
      case True
      have "explained B idx0 (c p) (opn p) (target p) idx (Trying k)" using step.IH c_try(3,4) by metis
      moreover have "unat idx + (?n - k) \<le> B" using step.IH l(2) by linarith
      ultimately have "explained B idx0 (c p) (opn p) (target p) (idx + 1) ?t" by (rule explained_try [OF _ c_try(5) s])
      then show ?thesis using True c_try(3) by simp
    next
      case False
      then show ?thesis using step.IH that explained_other [OF _ s] by simp
    qed
    then show ?thesis using step.IH l s c_try(1,2) by auto
  next
    case (c_end p k)
    have "explained B idx0 (c p) (opn p) (target p) idx (Trying k)" using step.IH c_end(3,4) by metis
    then have e: "explained B idx0 (c p) (opn p) (target p) idx (Got (Err (Msg ''all sessions exhausted'')))"
      using step.IH by (intro explained_end [OF _ c_end(5)]) simp_all
    have "all_left c (ts[p := Got (Err (Msg ''all sessions exhausted''))]) \<le> all_left c ts"
      using all_left_update [OF c_end(3), of c "Got (Err (Msg ''all sessions exhausted''))"] by simp
    moreover have "explained B idx0 (c i) (opn i) (target i) idx (ts[p := Got (Err (Msg ''all sessions exhausted''))] ! i)"
      if "i < m" for i
      using step.IH e that c_end(3) by (cases "i = p") simp_all
    ultimately show ?thesis using step.IH c_end(1,2) by simp
  qed
qed

lemma callers_reduce:
  assumes "(callers_step c opn target)\<^sup>*\<^sup>* (idx0, replicate m (Trying 0)) (idx, ts)"
    and "unat idx0 + (\<Sum>i < m. length (cl_sessions (c i))) < 2 ^ 63"
    and "i < m" "ts ! i = Got r" "cl_sessions (c i) \<noteq> []" "cl_sessIdx (c i) = idx0"
  shows "\<exists>others. r = snd (OpenStream others (opn i) (target i) (c i)) \<and>
    unat (cl_sessIdx (c i)) + visit others (length (cl_sessions (c i)) - 1) < 2 ^ 63"
proof -
  have "0 < length (cl_sessions (c i))" using assms(5) by simp
  note b = before_visit [OF this]
  have "explained (unat idx0 + (\<Sum>i < m. length (cl_sessions (c i)))) idx0 (c i) (opn i) (target i) idx (Got r)"
    using callers_explained [OF assms(1,2)] assms(3,4) by metis
  then obtain others where "r = snd (call_loop (c i) (opn i) (target i) others 0 (length (cl_sessions (c i))) idx0)"
    "unat idx0 + before others (length (cl_sessions (c i))) < 2 ^ 63" using assms(2) by auto
  then show ?thesis
    using assms(5,6) b by (intro exI [of _ others]) (simp add: call_loop_def OpenStream_def split: prod.split)
qed

definition demo_client :: Client where
  "demo_client = (NewClient zero_Config)\<lparr>cl_sessions := [\<lparr>ps_session = 0, ps_createdAt = 5\<rparr>, \<lparr>ps_session = 1, ps_createdAt = 6\<rparr>],
     cl_closed := (\<lambda>i. i = 0), cl_next := 2\<rparr>"

theorem OpenStream_round_robin_witness:
  "\<exists>st. snd (OpenStream (\<lambda>_. 0) (\<lambda>_. Inr demo_stream) ''tcp://x:1'' demo_client) = Ok (1, st)"
proof -
  have c: "cl_sessions demo_client \<noteq> []"
    "unat (cl_sessIdx demo_client) + visit (\<lambda>_. 0) (length (cl_sessions demo_client) - 1) < 2 ^ 63"
    by (simp_all add: demo_client_def NewClient_def Let_def visit_def)
  have "\<exists>st. sendTarget demo_stream ''tcp://x:1'' = (st, None)"
    by (simp add: sendTarget_def demo_stream_def conn_write_def Let_def)
  then have "\<exists>p \<in> set (cl_sessions demo_client). \<exists>st. serves (cl_closed demo_client) (\<lambda>_. Inr demo_stream) ''tcp://x:1'' (ps_session p) st"
    by (simp add: serves_def demo_client_def)
  with OpenStream_round_robin [OF c, of "\<lambda>_. Inr demo_stream" "''tcp://x:1''"]
  obtain s st where s: "snd (OpenStream (\<lambda>_. 0) (\<lambda>_. Inr demo_stream) ''tcp://x:1'' demo_client) = Ok (s, st)"
    "s \<in> ps_session ` set (cl_sessions demo_client)" "serves (cl_closed demo_client) (\<lambda>_. Inr demo_stream) ''tcp://x:1'' s st"
    by blast
  then have "s = 1" by (auto simp: serves_def demo_client_def)
  then show ?thesis using s by blast
qed

lemma sint_large:
  fixes w :: "64 word"
  assumes "2 ^ 63 \<le> unat w" shows "sint w = int (unat w) - 2 ^ 64"
proof -
  have "(2 :: int) ^ 63 \<le> int (unat w)" using assms by (metis of_nat_le_iff of_nat_numeral of_nat_power)
  then have u: "9223372036854775808 \<le> uint w" by simp
  have "uint w < 2 ^ LENGTH(64)" by (rule unsigned_less)
  then have "(uint w - 9223372036854775808) mod 18446744073709551616 = uint w - 9223372036854775808"
    using u by (intro mod_pos_pos_trivial) simp_all
  moreover have "(uint w + 9223372036854775808) mod 18446744073709551616 = (uint w - 9223372036854775808) mod 18446744073709551616"
    using mod_add_self2 [of "uint w - 9223372036854775808" 18446744073709551616] by (simp add: add.commute)
  ultimately show ?thesis using wrap64_is_sint [of "uint w"] by (simp add: wrap64_def)
qed

text \<open>
  Once the shared counter has passed \<open>2^63\<close> its conversion to \<open>int\<close> is negative and so is the index:
  unless the length of the pool divides it, \<open>OpenStream\<close> panics with an index out of range.
\<close>

theorem OpenStream_counter_overflow:
  assumes "cl_sessions c \<noteq> []" "2 ^ 63 \<le> unat (cl_sessIdx c + others 0 + 1)"
    and "\<not> int (length (cl_sessions c)) dvd int (unat (cl_sessIdx c + others 0 + 1)) - 2 ^ 64"
  shows "snd (OpenStream others opn target c) = Panic IndexOutOfRange"
proof -
  let ?k = "cl_sessIdx c + others 0 + 1"
  obtain a where a: "length (cl_sessions c) = Suc a" using assms(1) by (cases "cl_sessions c") auto
  have "int (unat ?k) < 2 ^ 64"
    using unsigned_less [of ?k, where 'a = int] by simp
  then have "go_rem (sint ?k) (int (length (cl_sessions c))) < 0"
    using assms by (intro go_rem_neg) (simp_all only: sint_large, simp_all)
  then have "OpenStream_attempt (cl_closed c) opn target (cl_sessions c) ?k = Some (Panic IndexOutOfRange)"
    by (simp add: OpenStream_attempt_def Let_def)
  then show ?thesis using assms(1) a by (simp add: OpenStream_def Let_def)
qed

theorem OpenStream_counter_overflow_witness:
  "snd (OpenStream (\<lambda>_. 0) (\<lambda>_. Inl EOF) '''' (demo_client\<lparr>cl_sessions := replicate 3 \<lparr>ps_session = 0, ps_createdAt = 0\<rparr>,
     cl_sessIdx := 9223372036854775807\<rparr>)) = Panic IndexOutOfRange"
  by (rule OpenStream_counter_overflow) simp_all

section \<open>Choosing a path\<close>

text \<open>The choice among measured paths: the smallest positive round trip, the first such path on ties.\<close>

definition better_rtt :: "int \<Rightarrow> int \<Rightarrow> bool" where
  "better_rtt new old \<longleftrightarrow> new > 0 \<and> (old = 0 \<or> new < old)"

lemma better_trans: "better_rtt x r \<Longrightarrow> \<not> better_rtt y r \<Longrightarrow> \<not> better_rtt y x"
  by (auto simp: better_rtt_def)

lemma bestPath_loop_best:
  "best < length pre \<Longrightarrow> \<forall>y \<in> set pre. \<not> better_rtt y (pre ! best) \<Longrightarrow>
   (let b = bestPath_loop (length pre) best (pre ! best) lat in
    b < length (pre @ lat) \<and> (\<forall>y \<in> set (pre @ lat). \<not> better_rtt y ((pre @ lat) ! b)))"
proof (induction lat arbitrary: pre best)
  case (Cons x lat)
  show ?case
  proof (cases "better_rtt x (pre ! best)")
    case True
    have "\<forall>y \<in> set (pre @ [x]). \<not> better_rtt y ((pre @ [x]) ! length pre)"
      using Cons.prems(2) better_trans [OF True] by (auto simp: better_rtt_def)
    moreover have "bestPath_loop (length pre) best (pre ! best) (x # lat) =
        bestPath_loop (length (pre @ [x])) (length pre) ((pre @ [x]) ! length pre) lat"
      using True by (simp add: better_rtt_def)
    ultimately show ?thesis using Cons.IH [of "length pre" "pre @ [x]"] by simp
  next
    case False
    have "\<forall>y \<in> set (pre @ [x]). \<not> better_rtt y ((pre @ [x]) ! best)"
      using Cons.prems False by (auto simp: nth_append)
    moreover have "bestPath_loop (length pre) best (pre ! best) (x # lat) =
        bestPath_loop (length (pre @ [x])) best ((pre @ [x]) ! best) lat"
      using False Cons.prems(1) by (auto simp: better_rtt_def nth_append)
    ultimately show ?thesis using Cons.IH [of best "pre @ [x]"] Cons.prems(1) by (simp del: bestPath_loop.simps)
  qed
qed (simp add: Let_def)

lemma bestPath_spec:
  assumes "lat \<noteq> []"
  shows "bestPath lat < length lat \<and> (\<forall>y \<in> set lat. \<not> better_rtt y (lat ! bestPath lat))"
proof (cases lat)
  case (Cons x rest)
  show ?thesis
  proof (cases "rest = []")
    case True
    then show ?thesis using Cons by (simp add: bestPath_def better_rtt_def)
  next
    case False
    then show ?thesis
      using Cons bestPath_loop_best [of 0 "[x]" rest] by (simp add: bestPath_def better_rtt_def Let_def)
  qed
qed (use assms in simp)

section \<open>A pool worker\<close>

text \<open>
  One turn of \<open>poolWorker\<close>'s loop.  Either a live standby session is served until it dies, or
  \<open>connectAndServe\<close> returns (with an error or not) after a duration; \<open>best\<close> is what \<open>bestPath\<close> returns if
  it is asked.  A turn yields the next state, the sleep before the next turn in nanoseconds, the change
  of \<open>GlobalStats.Reconnects\<close>, and the change asked of the frame level.
\<close>

record worker =
  w_pathIdx :: nat
  w_failCount :: nat

datatype turn = Reused | Failed int | Succeeded

record turn_result =
  tr_worker :: worker
  tr_sleep :: int
  tr_reconnects :: int
  tr_level :: int

definition retry_interval :: "PathConfig \<Rightarrow> int" where
  "retry_interval p = (let r = wrap64 (path_RetryInterval p * second) in if r \<le> 0 then 3 * second else r)"

definition worker_start :: "int list \<Rightarrow> worker" where
  "worker_start lat = \<lparr>w_pathIdx = bestPath lat, w_failCount = 0\<rparr>"

definition worker_turn :: "PathConfig list \<Rightarrow> nat \<Rightarrow> turn \<Rightarrow> worker \<Rightarrow> turn_result outcome" where
  "worker_turn paths best ev w =
     (if length paths \<le> w_pathIdx w then Panic IndexOutOfRange
      else
        let retry = retry_interval (paths ! w_pathIdx w) in
        case ev of
          Reused \<Rightarrow> Ok \<lparr>tr_worker = w\<lparr>w_failCount := 0\<rparr>, tr_sleep = 0, tr_reconnects = 0, tr_level = 0\<rparr>
        | Succeeded \<Rightarrow> Ok \<lparr>tr_worker = w\<lparr>w_failCount := 0\<rparr>, tr_sleep = retry, tr_reconnects = 0, tr_level = 0\<rparr>
        | Failed dur \<Rightarrow>
            let short = dur < 30 * second;
                fails = (if short then w_failCount w + 1 else 0);
                lev = (if short then - 1 else 0)
            in if fails \<ge> maxFailsBeforeSwitch \<and> length paths > 1 then
                 let newIdx = (if best = w_pathIdx w then (w_pathIdx w + 1) mod length paths else best);
                     w = \<lparr>w_pathIdx = newIdx, w_failCount = 0\<rparr>
                 in if length paths \<le> newIdx then Panic IndexOutOfRange
                    else if newIdx = 0
                      then Ok \<lparr>tr_worker = w, tr_sleep = 10 * second, tr_reconnects = 0, tr_level = lev\<rparr>
                    else Ok \<lparr>tr_worker = w, tr_sleep = retry, tr_reconnects = 1, tr_level = lev\<rparr>
               else Ok \<lparr>tr_worker = w\<lparr>w_failCount := fails\<rparr>, tr_sleep = retry, tr_reconnects = 1, tr_level = lev\<rparr>)"

text \<open>A run of turns; each comes with the latencies that \<open>bestPath\<close> reads then.\<close>

fun worker_run :: "PathConfig list \<Rightarrow> (int list \<times> turn) list \<Rightarrow> worker \<Rightarrow> worker outcome" where
  "worker_run paths [] w = Ok w"
| "worker_run paths ((lat, ev) # evs) w =
     and_then (worker_turn paths (bestPath lat) ev w) (\<lambda>r. worker_run paths evs (tr_worker r))"

definition worker_ok :: "PathConfig list \<Rightarrow> worker \<Rightarrow> bool" where
  "worker_ok paths w \<longleftrightarrow> w_pathIdx w < length paths \<and> (length paths > 1 \<longrightarrow> w_failCount w < maxFailsBeforeSwitch)"

lemma worker_turn_ok:
  assumes "worker_ok paths w" "best < length paths"
  shows "\<exists>r. worker_turn paths best ev w = Ok r \<and> worker_ok paths (tr_worker r) \<and> 0 \<le> tr_sleep r \<and>
    (length paths = 1 \<longrightarrow> w_pathIdx (tr_worker r) = w_pathIdx w)"
proof -
  define k where "k = (w_pathIdx w + 1) mod length paths"
  have "k < length paths" unfolding k_def using assms(2) by (intro mod_less_divisor) linarith
  then show ?thesis
    using assms unfolding worker_turn_def k_def [symmetric]
    by (cases ev) (auto simp: worker_ok_def Let_def maxFailsBeforeSwitch_def retry_interval_def second_def)
qed

lemma worker_run_ok:
  assumes "worker_ok paths w" "\<forall>(lat, ev) \<in> set evs. length lat = length paths"
  shows "\<exists>w'. worker_run paths evs w = Ok w' \<and> worker_ok paths w'"
  using assms
proof (induction evs arbitrary: w)
  case (Cons x evs)
  obtain lat ev where x: "x = (lat, ev)" by (cases x)
  then have "lat \<noteq> []" "length lat = length paths" using Cons.prems by (auto simp: worker_ok_def)
  then have "bestPath lat < length paths" using bestPath_spec [of lat] by simp
  from worker_turn_ok [OF Cons.prems(1) this, of ev] obtain r
    where "worker_turn paths (bestPath lat) ev w = Ok r" "worker_ok paths (tr_worker r)" by blast
  then show ?case using Cons x by auto
qed simp

lemma worker_start_ok: "paths \<noteq> [] \<Longrightarrow> length lat = length paths \<Longrightarrow> worker_ok paths (worker_start lat)"
  using bestPath_spec [of lat] by (cases lat) (auto simp: worker_ok_def worker_start_def maxFailsBeforeSwitch_def)

text \<open>
  A pool worker never leaves its path table: in every run of turns, whatever happens to its
  connections and whatever the prober measures, the path index stays valid and no turn panics, and with
  several paths the failure count stays below the switching threshold.
\<close>

theorem worker_safe:
  assumes "paths \<noteq> []" "length lat0 = length paths" "\<forall>(lat, ev) \<in> set evs. length lat = length paths"
  shows "\<exists>w. worker_run paths evs (worker_start lat0) = Ok w \<and> w_pathIdx w < length paths \<and>
    (length paths > 1 \<longrightarrow> w_failCount w < maxFailsBeforeSwitch)"
  using worker_run_ok [OF worker_start_ok [OF assms(1,2)] assms(3)] by (auto simp: worker_ok_def)

definition demo_path :: PathConfig where
  "demo_path = \<lparr>path_Transport = '''', path_Addr = ''a:1'', path_ConnectionPool = 1, path_AggressivePool = False,
     path_RetryInterval = 3, path_DialTimeout = 10\<rparr>"

theorem worker_safe_witness:
  "\<exists>w. worker_run (replicate 3 demo_path) (replicate 4 ([7, 5, 9], Failed 1)) (worker_start [0, 0, 0]) = Ok w \<and>
     w_pathIdx w < 3"
  using worker_safe [of "replicate 3 demo_path" "[0, 0, 0]" "replicate 4 ([7, 5, 9], Failed 1)"] by auto

text \<open>
  C36: Failover reaches only two paths: while the prober keeps preferring the same path \<open>b\<close> (it measures only
  the TCP connection, which a filtered path still answers), a worker that starts on \<open>b\<close> is never on any
  other path than \<open>b\<close> and its successor, however often they fail and however many paths there are.
\<close>

theorem failover_two_paths:
  assumes "w_pathIdx w = b" "b < length paths" "\<forall>(lat, ev) \<in> set evs. bestPath lat = b"
    and "worker_run paths evs w = Ok w'"
  shows "w_pathIdx w' = b \<or> w_pathIdx w' = (b + 1) mod length paths"
proof -
  have turn: "w_pathIdx (tr_worker r) \<in> {b, (b + 1) mod length paths}"
    if "worker_turn paths b ev v = Ok r" "w_pathIdx v \<in> {b, (b + 1) mod length paths}" for ev v r
    using that by (cases ev) (auto simp: worker_turn_def Let_def split: if_splits)
  have "w_pathIdx v' \<in> {b, (b + 1) mod length paths}"
    if "w_pathIdx v \<in> {b, (b + 1) mod length paths}" "worker_run paths evs v = Ok v'" for v v'
    using that assms(3)
  proof (induction evs arbitrary: v)
    case (Cons x evs)
    obtain lat ev where x: "x = (lat, ev)" by (cases x)
    then have lat: "bestPath lat = b" using Cons.prems by auto
    obtain r where r: "worker_turn paths b ev v = Ok r" "worker_run paths evs (tr_worker r) = Ok v'"
      using Cons.prems(2) by (auto simp: x lat and_then_Ok_iff)
    show ?case using Cons.IH [OF turn [OF r(1) Cons.prems(1)] r(2)] Cons.prems(3) by simp
  qed simp
  then show ?thesis using assms(1,4) by blast
qed

theorem failover_two_paths_witness:
  "\<exists>w'. worker_run (replicate 3 demo_path) (replicate 7 ([5, 6, 7], Failed 1)) (worker_start [5, 6, 7]) = Ok w' \<and>
     w_pathIdx w' \<noteq> 2"
proof -
  let ?evs = "replicate 7 ([5, 6, 7], Failed 1)"
  have "worker_ok (replicate 3 demo_path) (worker_start [5, 6, 7])" by (rule worker_start_ok) simp_all
  from worker_run_ok [OF this, of ?evs] obtain w' where
    r: "worker_run (replicate 3 demo_path) ?evs (worker_start [5, 6, 7]) = Ok w'" by auto
  have b: "bestPath [5, 6, 7] = 0" by (simp add: bestPath_def)
  have "w_pathIdx w' = 0 \<or> w_pathIdx w' = (0 + 1) mod length (replicate 3 demo_path)"
    by (rule failover_two_paths [OF _ _ _ r]) (auto simp: worker_start_def b)
  then have "w_pathIdx w' \<noteq> 2" by auto
  then show ?thesis using r by blast
qed

section \<open>Addresses\<close>

definition strip_scheme :: "string \<Rightarrow> string" where
  "strip_scheme a = trim_prefix (trim_prefix (trim_prefix (trim_prefix a ''http://'') ''https://'') ''ws://'') ''wss://''"

definition default_port :: "string \<Rightarrow> string" where
  "default_port transport = (if transport = ''httpsmux'' \<or> transport = ''wssmux'' then ''443'' else ''80'')"

lemma no_scheme:
  assumes "CHR ''/'' \<notin> set a" "path = [] \<or> hd path = CHR ''/''" "a = [] \<or> last a \<noteq> CHR '':''"
    and "CHR ''/'' \<notin> set w"
  shows "trim_prefix (a @ path) (w @ '':'' @ ''//'') = a @ path"
proof -
  have "\<not> has_prefix (a @ path) (w @ '':'' @ ''//'')"
  proof
    assume "has_prefix (a @ path) (w @ '':'' @ ''//'')"
    then obtain t where "a @ path = w @ '':'' @ ''//'' @ t" by (auto simp: has_prefix_iff)
    then have "takeWhile (\<lambda>x. x \<noteq> CHR ''/'') (a @ path) = takeWhile (\<lambda>x. x \<noteq> CHR ''/'') ((w @ '':'') @ ''//'' @ t)"
      by simp
    moreover have "takeWhile (\<lambda>x. x \<noteq> CHR ''/'') (a @ path) = a"
      using assms(1,2) by (cases path) (auto simp: takeWhile_append)
    moreover have "takeWhile (\<lambda>x. x \<noteq> CHR ''/'') ((w @ '':'') @ ''//'' @ t) = w @ '':''"
      using assms(4) by (subst takeWhile_append2) auto
    ultimately have "a = w @ '':''" by simp
    then show False using assms(3) by simp
  qed
  then show ?thesis by (simp add: trim_prefix_def)
qed

lemma other_scheme:
  "trim_prefix (''https://'' @ x) ''http://'' = ''https://'' @ x"
  "trim_prefix (''ws://'' @ x) ''http://'' = ''ws://'' @ x" "trim_prefix (''ws://'' @ x) ''https://'' = ''ws://'' @ x"
  "trim_prefix (''wss://'' @ x) ''http://'' = ''wss://'' @ x" "trim_prefix (''wss://'' @ x) ''https://'' = ''wss://'' @ x"
  "trim_prefix (''wss://'' @ x) ''ws://'' = ''wss://'' @ x"
  by (simp_all add: trim_prefix_def has_prefix_def)

lemma strip_scheme_scheme:
  assumes "CHR ''/'' \<notin> set a" "path = [] \<or> hd path = CHR ''/''" "a = [] \<or> last a \<noteq> CHR '':''"
    and "scheme \<in> set ['''', ''http://'', ''https://'', ''ws://'', ''wss://'']"
  shows "strip_scheme (scheme @ a @ path) = a @ path"
proof -
  have n: "trim_prefix (a @ path) ''http://'' = a @ path" "trim_prefix (a @ path) ''https://'' = a @ path"
    "trim_prefix (a @ path) ''ws://'' = a @ path" "trim_prefix (a @ path) ''wss://'' = a @ path"
    using no_scheme [OF assms(1-3), of "''http''"] no_scheme [OF assms(1-3), of "''https''"]
      no_scheme [OF assms(1-3), of "''ws''"] no_scheme [OF assms(1-3), of "''wss''"] by simp_all
  have "scheme = '''' \<or> scheme = ''http://'' \<or> scheme = ''https://'' \<or> scheme = ''ws://'' \<or> scheme = ''wss://''"
    using assms(4) unfolding list.set by blast
  then show ?thesis
    by (elim disjE) (simp_all only: strip_scheme_def append_Nil trim_prefix_append other_scheme n)
qed

lemma parseAddr_authority:
  assumes "CHR ''/'' \<notin> set a" "path = [] \<or> hd path = CHR ''/''" "a = [] \<or> last a \<noteq> CHR '':''"
    and "scheme \<in> set ['''', ''http://'', ''https://'', ''ws://'', ''wss://'']"
  shows "parseAddr (scheme @ a @ path) t = (case SplitHostPort a of Ok hp \<Rightarrow> hp | _ \<Rightarrow> (a, default_port t))"
proof -
  have cut: "(case str_index ''/'' (a @ path) of Some i \<Rightarrow> take i (a @ path) | None \<Rightarrow> a @ path) = a"
    using assms(1,2) by (cases path) (auto simp: str_index_char takeWhile_append simp del: str_index.simps)
  show ?thesis
    unfolding parseAddr_def Let_def strip_scheme_def [symmetric] default_port_def
    unfolding strip_scheme_scheme [OF assms] cut by (rule refl)
qed

lemma SplitHostPort_bare: "CHR '':'' \<notin> set h \<Longrightarrow> SplitHostPort h = addr_err ''missing port in address''"
  using last_index_None [of "CHR '':''" h] by (simp add: SplitHostPort_def)

lemma SplitHostPort_bracket_only:
  assumes "plain_host h" "CHR '':'' \<in> set h"
  shows "SplitHostPort (''['' @ h @ '']'') = addr_err ''missing port in address''" (is "SplitHostPort ?a = _")
proof -
  obtain i where "last_index (CHR '':'') ?a = Some i" using assms(2) last_index_None [of "CHR '':''" ?a] by auto
  moreover have "takeWhile (\<lambda>x. x \<noteq> CHR '']'') ?a = CHR ''['' # h"
    using assms by (auto simp: takeWhile_append plain_host_def)
  then have "str_index '']'' ?a = Some (length h + 1)"
    by (simp add: str_index_char del: str_index.simps)
  ultimately show ?thesis by (simp add: SplitHostPort_def del: str_index.simps last_index.simps)
qed

lemma last_join: "p \<noteq> [] \<Longrightarrow> last (JoinHostPort h p) = last p"
  by (simp add: JoinHostPort_def)

text \<open>
  \<open>parseAddr\<close> inverts the forms a path address may have.  With any of the four schemes or none, and
  with or without a path after it, \<open>host:port\<close> (an IPv6 host in brackets) gives host and port, and a host
  without port gives the transport's default.  The exception is a bracketed IPv6 address without port:
  its brackets stay in the host, so that the dialled address has them twice and is not a host and port.
\<close>

theorem parseAddr_forms:
  assumes "scheme \<in> set ['''', ''http://'', ''https://'', ''ws://'', ''wss://'']"
    and "path = [] \<or> hd path = CHR ''/''" "CHR ''/'' \<notin> set h" "plain_host h" "h \<noteq> []"
    and "CHR ''/'' \<notin> set p" "plain_port p" "p \<noteq> []"
  shows "parseAddr (scheme @ JoinHostPort h p @ path) t = (h, p) \<and>
    (CHR '':'' \<notin> set h \<longrightarrow> parseAddr (scheme @ h @ path) t = (h, default_port t)) \<and>
    (CHR '':'' \<in> set h \<longrightarrow>
       (case parseAddr (scheme @ (''['' @ h @ '']'') @ path) t of
          (h', p') \<Rightarrow> JoinHostPort h' p' = ''[['' @ h @ '']]:'' @ default_port t \<and>
            (\<exists>e. SplitHostPort (JoinHostPort h' p') = Err e)))"
proof (intro conjI impI)
  have "last p \<noteq> CHR '':''" using assms(7) last_in_set [OF assms(8)] unfolding plain_port_def by metis
  then have "last (JoinHostPort h p) \<noteq> CHR '':''" using assms(8) by (simp add: last_join)
  moreover have "CHR ''/'' \<notin> set (JoinHostPort h p)" using assms(3,6) by (simp add: JoinHostPort_def)
  ultimately show "parseAddr (scheme @ JoinHostPort h p @ path) t = (h, p)"
    using parseAddr_authority [of "JoinHostPort h p" path scheme t] assms
    by (simp add: SplitHostPort_JoinHostPort)
next
  assume c: "CHR '':'' \<notin> set h"
  then have "last h \<noteq> CHR '':''" using assms(5) last_in_set [of h] by metis
  then show "parseAddr (scheme @ h @ path) t = (h, default_port t)"
    using parseAddr_authority [of h path scheme t] assms c by (simp add: SplitHostPort_bare addr_err_def)
next
  assume c: "CHR '':'' \<in> set h"
  let ?a = "''['' @ h @ '']''" and ?d = "default_port t"
  have r: "parseAddr (scheme @ ?a @ path) t = (?a, ?d)"
    using parseAddr_authority [of ?a path scheme t] assms SplitHostPort_bracket_only [OF assms(4) c]
    by (simp add: addr_err_def)
  have j: "JoinHostPort ?a ?d = ''[['' @ h @ '']]:'' @ ?d" using c by (simp add: JoinHostPort_def)
  define hp where "hp = ''[['' @ h @ '']]:'' @ ?d"
  have li: "last_index (CHR '':'') hp = Some (length h + 4)"
    using last_index_append_absent [of "CHR '':''" ?d "''[['' @ h @ '']]''"] by (simp add: default_port_def hp_def)
  have "takeWhile (\<lambda>x. x \<noteq> CHR '']'') hp = ''[['' @ h"
    using assms(4) by (auto simp: takeWhile_append plain_host_def hp_def)
  then have si: "str_index '']'' hp = Some (length h + 2)"
    by (simp add: str_index_char hp_def del: str_index.simps)
  have "take 1 hp = ''[''" "length hp > length h + 5" "hp ! (length h + 3) = CHR '']''"
    by (simp_all add: hp_def nth_append default_port_def)
  then have "\<exists>e. SplitHostPort hp = Err e" by (simp add: SplitHostPort_def li si addr_err_def)
  then show "case parseAddr (scheme @ ?a @ path) t of
      (h', p') \<Rightarrow> JoinHostPort h' p' = ''[['' @ h @ '']]:'' @ ?d \<and> (\<exists>e. SplitHostPort (JoinHostPort h' p') = Err e)"
    unfolding r prod.case j hp_def by blast
qed

theorem parseAddr_forms_witness:
  "parseAddr ''wss://a.io:8443/x'' ''wssmux'' = (''a.io'', ''8443'') \<and>
   parseAddr ''https://a.io'' ''httpsmux'' = (''a.io'', ''443'') \<and>
   JoinHostPort (fst (parseAddr ''[::1]'' ''httpmux'')) (snd (parseAddr ''[::1]'' ''httpmux'')) = ''[[::1]]:80''"
  using parseAddr_forms [of "''wss://''" "''/x''" "''a.io''" "''8443''" "''wssmux''"]
    parseAddr_forms [of "''https://''" "''''" "''a.io''" "''8443''" "''httpsmux''"]
    parseAddr_forms [of "''''" "''''" "''::1''" "''8443''" "''httpmux''"]
  by (auto simp: plain_host_def plain_port_def JoinHostPort_def default_port_def)

end
