(* ===== verification/Client_Connect.thy ===== *)
theory Client_Connect
  imports Client_Pool
begin

text \<open>
  The connecting half of \<^verbatim>\<open>client.go\<close>: \<open>connectAndServe\<close>, \<open>dialSession\<close>, \<open>dialFragmentedTLS\<close>, the standby
  channel, and all operations on the pool as one step relation with its invariant.  Diallers, the TLS
  handshake and \<open>smux.Client\<close> are arguments; the mimicry handshake and the encrypted connection are the
  models of their theories.
\<close>

section \<open>Establishing a session\<close>

datatype dialer = DialTLS | DialFrag "FragmentConfig option" | DialTCP

definition dialer_of :: "Config \<Rightarrow> string \<Rightarrow> dialer" where
  "dialer_of cfg transport =
     (if transport = ''httpsmux'' \<or> transport = ''wssmux'' then DialTLS
      else if transport = ''httpmux'' \<or> transport = ''wsmux'' then DialFrag (fragmentCfg cfg)
      else DialTCP)"

definition dial_timeout :: "PathConfig \<Rightarrow> int" where
  "dial_timeout p = (let t = wrap64 (path_DialTimeout p * second) in if t \<le> 0 then 10 * second else t)"

text \<open>
  \<open>dialFragmentedTLS\<close>: the raw connection, then a TLS handshake (an argument) for the fake domain, or for
  the host of the address when there is none; a failed handshake closes the connection.
\<close>

definition tls_sni :: "MimicConfig \<Rightarrow> string \<Rightarrow> string" where
  "tls_sni m addr =
     (if FakeDomain m \<noteq> '''' then FakeDomain m
      else case SplitHostPort addr of Ok (h, _) \<Rightarrow> h | _ \<Rightarrow> '''')"

definition dialFragmentedTLS ::
    "(FragmentConfig option \<Rightarrow> string \<Rightarrow> int \<Rightarrow> 'c outcome) \<Rightarrow> (string \<Rightarrow> bool \<Rightarrow> 'c \<Rightarrow> conn outcome) \<Rightarrow>
     Client \<Rightarrow> string \<Rightarrow> int \<Rightarrow> conn outcome" where
  "dialFragmentedTLS dial handshake c addr timeout =
     and_then (dial (fragmentCfg (cl_cfg c)) addr timeout) (\<lambda>raw.
       map_err (Wrapped ''tls handshake'')
         (handshake (tls_sni (cl_mimic c) addr) (SkipTLSVerify (cl_cfg c)) raw))"

text \<open>What the world answers while a session is established.\<close>

record connect_env =
  ce_dial :: "dialer \<Rightarrow> string \<Rightarrow> int \<Rightarrow> conn outcome"
  ce_ctx :: "goerror option"            \<comment> \<open>cancelled during the dial\<close>
  ce_rand :: hs_rand
  ce_ahead :: nat
  ce_smux :: "goerror option"
  ce_default :: smux_Config
  ce_now :: int

datatype connected = Session sid EncryptedConn bool smux_Config | ConnErr goerror | ConnPanic panic

text \<open>
  From a dialled connection to a smux session, common to both callers: handshake, encryption,
  compression, frame size.  After a failed handshake the callers close the \<open>net.Conn\<close> that
  \<open>ClientHandshake\<close> returned, which is nil.  The encrypted connection reads through the buffered one, so
  its connection is the latter's view.
\<close>

definition establish ::
    "(string \<Rightarrow> goerror \<Rightarrow> goerror) \<Rightarrow> connect_env \<Rightarrow> Client \<Rightarrow> int \<Rightarrow> conn \<Rightarrow>
     (EncryptedConn \<times> bool \<times> smux_Config) outcome" where
  "establish wrap e c level cn =
     (case snd (ClientHandshake (ce_rand e) (ce_ahead e) cn (Some (cl_mimic c))) of
        Err x \<Rightarrow> Panic NilDeref
      | Panic p \<Rightarrow> Panic p
      | Ok bc \<Rightarrow>
          and_then (map_err (wrap ''encrypt'') (NewEncryptedConn (bc_view bc) (cl_psk c) (Some (cl_obfs c)))) (\<lambda>ec.
            if level < 0 \<or> int (length frameSizes) \<le> level then Panic IndexOutOfRange
            else case ce_smux e of
              Some x \<Rightarrow> Err (wrap ''smux'' x)
            | None \<Rightarrow> Ok (ec, compression_on (cl_cfg c),
                (buildSmuxConfig (ce_default e) (cl_cfg c))\<lparr>MaxFrameSize := frameSizes ! nat level\<rparr>)))"

definition new_session :: "Client \<Rightarrow> Client \<times> sid" where
  "new_session c = (c\<lparr>cl_next := Suc (cl_next c), cl_closed := (cl_closed c)(cl_next c := False)\<rparr>, cl_next c)"

text \<open>\<open>connectAndServe\<close> up to its accept loop; the session is then in the pool.\<close>

definition connectAndServe :: "connect_env \<Rightarrow> PathConfig \<Rightarrow> Client \<Rightarrow> Client \<times> connected" where
  "connectAndServe e path c =
     (let transport = path_transport (cl_cfg c) path in
      if trim_space (path_Addr path) = '''' then (c, ConnErr (Msg ''empty address''))
      else
        let level = cl_frameLevel c in
        if cl_verbose c \<and> (level < 0 \<or> int (length frameSizes) \<le> level) then (c, ConnPanic IndexOutOfRange)
        else case ce_dial e (dialer_of (cl_cfg c) transport) (dial_addr (cl_cfg c) path) (dial_timeout path) of
          Err x \<Rightarrow> (c, ConnErr (Wrapped ''dial'' x))
        | Panic p \<Rightarrow> (c, ConnPanic p)
        | Ok cn \<Rightarrow>
            (case ce_ctx e of
               Some x \<Rightarrow> (c, ConnErr x)
             | None \<Rightarrow>
                 (case establish Wrapped e c level cn of
                    Err x \<Rightarrow> (c, ConnErr x)
                  | Panic p \<Rightarrow> (c, ConnPanic p)
                  | Ok (ec, cmp, sc) \<Rightarrow>
                      (case new_session c of (c, i) \<Rightarrow> (addSession i (ce_now e) c, Session i ec cmp sc)))))"

text \<open>
  The end of the accept loop: the session leaves the pool and is closed; one that lived for more than two
  minutes asks for a larger frame level.
\<close>

definition serve_end :: "sid \<Rightarrow> int \<Rightarrow> Client \<Rightarrow> Client \<times> int" where
  "serve_end i life c = (close_sid i (removeSession i c), if life > 2 * minute then 1 else 0)"

definition dialSession :: "connect_env \<Rightarrow> Client \<Rightarrow> Client \<times> connected" where
  "dialSession e c =
     (let b = bestPath (cl_pathLatency c) in
      if length (cl_paths c) \<le> b then (c, ConnPanic IndexOutOfRange)
      else
        let path = cl_paths c ! b; transport = path_transport (cl_cfg c) path in
        case ce_dial e (dialer_of (cl_cfg c) transport) (dial_addr (cl_cfg c) path) (dial_timeout path) of
          Err x \<Rightarrow> (c, ConnErr x)
        | Panic p \<Rightarrow> (c, ConnPanic p)
        | Ok cn \<Rightarrow>
            (case establish (\<lambda>_ x. x) e c (cl_frameLevel c) cn of
               Err x \<Rightarrow> (c, ConnErr x)
             | Panic p \<Rightarrow> (c, ConnPanic p)
             | Ok (ec, cmp, sc) \<Rightarrow> (case new_session c of (c, i) \<Rightarrow> (c, Session i ec cmp sc))))"

text \<open>The standby channel has room for one session; a worker that takes a closed one drops it.\<close>

definition standby_put :: "sid \<Rightarrow> Client \<Rightarrow> Client option" where
  "standby_put i c = (if cl_standbyCh c = [] then Some (c\<lparr>cl_standbyCh := [i]\<rparr>) else None)"

definition standby_take :: "int \<Rightarrow> Client \<Rightarrow> (Client \<times> sid option) option" where
  "standby_take now c =
     (case cl_standbyCh c of
        [] \<Rightarrow> None
      | i # rest \<Rightarrow>
          let c = c\<lparr>cl_standbyCh := rest\<rparr>
          in Some (if cl_closed c i then (c, None) else (addSession i now c, Some i)))"

section \<open>The pool as a state machine\<close>

text \<open>
  One operation on the shared client: of a worker, of the health check, of the prober, of a caller of \<open>OpenStream\<close>
  (which adds one to the counter for each attempt), of \<open>adjustFrameLevel\<close>, or the death of a session.
\<close>

inductive pool_op :: "Client \<Rightarrow> Client \<Rightarrow> bool" where
  connect: "connectAndServe e path c = (c', Session i ec cmp sc) \<Longrightarrow> pool_op c c'"
| ended: "serve_end i life c = (c', d) \<Longrightarrow> pool_op c c'"
| standby_used: "standby_take now c = Some (c', r) \<Longrightarrow> pool_op c c'"
| cleaned: "pool_op c (clean_tick c)"
| recycled: "pool_op c (recycle_tick now c)"
| probed: "pool_op c (probe_path i rtt c)"
| opened: "pool_op c (c\<lparr>cl_sessIdx := cl_sessIdx c + 1\<rparr>)"
| adjusted: "pool_op c (c\<lparr>cl_frameLevel := clamp_level (cl_frameLevel c) d\<rparr>)"
| died: "(\<And>i. cl_closed c i \<Longrightarrow> f i) \<Longrightarrow> pool_op c (c\<lparr>cl_closed := f\<rparr>)"

text \<open>
  With the standby manager, which dials first and then holds the session until the channel has room for it or
  the context ends: the second component is the session it holds.
\<close>

inductive pool_step :: "Client \<times> sid option \<Rightarrow> Client \<times> sid option \<Rightarrow> bool" where
  pool_other: "pool_op c c' \<Longrightarrow> pool_step (c, h) (c', h)"
| standby_dialled: "dialSession e c = (c', Session i ec cmp sc) \<Longrightarrow> pool_step (c, None) (c', Some i)"
| standby_sent: "standby_put i c = Some c' \<Longrightarrow> pool_step (c, Some i) (c', None)"
| standby_dropped: "pool_step (c, Some i) (close_sid i c, None)"

inductive pool_state :: "Config \<Rightarrow> Client \<times> sid option \<Rightarrow> bool" for cfg where
  pool_init: "Start_pool (NewClient cfg) = Ok (c, n) \<Longrightarrow> pool_state cfg (c, None)"
| pool_next: "pool_state cfg s \<Longrightarrow> pool_step s s' \<Longrightarrow> pool_state cfg s'"

definition pool_reachable :: "Config \<Rightarrow> Client \<Rightarrow> bool" where
  "pool_reachable cfg c \<longleftrightarrow> (\<exists>h. pool_state cfg (c, h))"

lemma pool_reachable_op: "pool_reachable cfg c \<Longrightarrow> pool_op c c' \<Longrightarrow> pool_reachable cfg c'"
  unfolding pool_reachable_def using pool_next pool_other by blast

definition pool_sids :: "Client \<Rightarrow> sid list" where
  "pool_sids c = map ps_session (cl_sessions c) @ cl_standbyCh c"

definition pool_inv :: "Config \<Rightarrow> Client \<Rightarrow> bool" where
  "pool_inv cfg c \<longleftrightarrow> distinct (pool_sids c) \<and> (\<forall>i \<in> set (pool_sids c). i < cl_next c) \<and>
     length (cl_standbyCh c) \<le> 1 \<and> cl_paths c = cl_paths (NewClient cfg) \<and>
     length (cl_pathLatency c) = length (cl_paths c) \<and> cl_paths c \<noteq> [] \<and> level_ok (cl_frameLevel c)"

lemma remove_first_sids: "map ps_session (remove_first i ps) = remove1 i (map ps_session ps)"
  by (induction ps) auto

lemma remove_first_subset: "set (remove_first i ps) \<subseteq> set ps"
  by (induction ps) auto

lemma pool_inv_fewer:
  assumes "pool_inv cfg c" "set ps \<subseteq> set (cl_sessions c)" "distinct (map ps_session ps)"
  shows "pool_inv cfg (c\<lparr>cl_sessions := ps\<rparr>)"
proof -
  have "ps_session ` set ps \<subseteq> ps_session ` set (cl_sessions c)" using assms(2) by blast
  then show ?thesis using assms unfolding pool_inv_def pool_sids_def by auto
qed

lemma pool_inv_closed [simp]: "pool_inv cfg (c\<lparr>cl_closed := f\<rparr>) = pool_inv cfg c"
  by (simp add: pool_inv_def pool_sids_def)

lemma remove_first_distinct: "distinct (map ps_session ps) \<Longrightarrow> distinct (map ps_session (remove_first i ps))"
  by (simp add: remove_first_sids)

lemma new_session_sel:
  "new_session c = (c', i) \<Longrightarrow> cl_sessions c' = cl_sessions c \<and> cl_standbyCh c' = cl_standbyCh c \<and>
     cl_paths c' = cl_paths c \<and> cl_pathLatency c' = cl_pathLatency c \<and> cl_frameLevel c' = cl_frameLevel c \<and>
     cl_next c' = Suc (cl_next c) \<and> i = cl_next c"
  by (auto simp: new_session_def)

lemma pool_inv_new:
  assumes "pool_inv cfg c" "new_session c = (c', i)"
  shows "pool_inv cfg c'" "i \<notin> set (pool_sids c')" "i < cl_next c'"
  using assms new_session_sel [OF assms(2)] by (auto simp: pool_inv_def pool_sids_def less_Suc_eq)

lemma pool_inv_add:
  assumes "pool_inv cfg c" "i \<notin> set (pool_sids c)" "i < cl_next c"
  shows "pool_inv cfg (addSession i now c)"
  using assms by (auto simp: pool_inv_def pool_sids_def addSession_def)

lemma connectAndServe_Session:
  assumes "connectAndServe e path c = (c', Session i ec cmp sc)"
  shows "\<exists>c1. new_session c = (c1, i) \<and> c' = addSession i (ce_now e) c1"
  using assms
  by (auto simp: connectAndServe_def Let_def split: if_splits outcome.splits option.splits prod.splits)

lemma dialSession_Session:
  assumes "dialSession e c = (c', Session i ec cmp sc)"
  shows "new_session c = (c', i)"
  using assms by (auto simp: dialSession_def Let_def split: if_splits outcome.splits prod.splits)

lemma pool_inv_step: "pool_op c c' \<Longrightarrow> pool_inv cfg c \<Longrightarrow> pool_inv cfg c'"
proof (induction rule: pool_op.induct)
  case (connect e path c c' i ec cmp sc)
  then obtain c1 where "new_session c = (c1, i)" "c' = addSession i (ce_now e) c1"
    using connectAndServe_Session by blast
  then show ?case using pool_inv_new [OF connect.prems] by (simp add: pool_inv_add)
next
  case (ended i life c c' d)
  have "distinct (map ps_session (remove_first i (cl_sessions c)))"
    using ended.prems by (intro remove_first_distinct) (simp add: pool_inv_def pool_sids_def)
  then have "pool_inv cfg (removeSession i c)"
    using ended.prems by (simp add: removeSession_def pool_inv_fewer remove_first_subset)
  then show ?case using ended.hyps by (auto simp: serve_end_def close_sid_def)
next
  case (standby_used now c c' r)
  then show ?case
    by (auto simp: standby_take_def Let_def addSession_def pool_inv_def pool_sids_def split: list.splits if_splits)
next
  case (cleaned c)
  then show ?case by (auto simp: clean_tick_def pool_inv_def pool_sids_def distinct_map_filter)
next
  case (recycled c now)
  then show ?case
    by (auto simp: recycle_tick_def close_sid_def pool_inv_def pool_sids_def split: option.split)
qed (auto simp: probe_path_def pool_inv_def pool_sids_def clamp_level_ok)

lemma Start_pool_inv: "Start_pool (NewClient cfg) = Ok (c, n) \<Longrightarrow> pool_inv cfg c"
  by (auto simp: Start_pool_def NewClient_def Let_def pool_inv_def pool_sids_def level_ok_def split: list.splits if_splits)

text \<open>The held session is one more, in neither the pool nor the channel.\<close>

definition held_ok :: "Client \<Rightarrow> sid option \<Rightarrow> bool" where
  "held_ok c h \<longleftrightarrow> (\<forall>i. h = Some i \<longrightarrow> i \<notin> set (pool_sids c) \<and> i < cl_next c)"

lemma held_ok_fewer:
  "held_ok c h \<Longrightarrow> set (pool_sids c') \<subseteq> set (pool_sids c) \<union> {cl_next c} \<Longrightarrow> cl_next c \<le> cl_next c' \<Longrightarrow> held_ok c' h"
  by (fastforce simp: held_ok_def)

lemma pool_op_sids:
  assumes "pool_op c c'"
  shows "set (pool_sids c') \<subseteq> set (pool_sids c) \<union> {cl_next c} \<and> cl_next c \<le> cl_next c'"
  using assms
proof (cases rule: pool_op.cases)
  case (connect e path i ec cmp sc)
  then show ?thesis
    using connectAndServe_Session [OF connect] by (auto simp: new_session_def addSession_def pool_sids_def)
next
  case (ended i life d)
  then show ?thesis
    using remove_first_subset [of i "cl_sessions c"] by (auto simp: serve_end_def close_sid_def removeSession_def pool_sids_def)
next
  case (standby_used now r)
  then show ?thesis
    by (auto simp: standby_take_def Let_def addSession_def pool_sids_def split: list.splits if_splits)
next
  case (recycled now)
  then show ?thesis by (auto simp: recycle_tick_def close_sid_def pool_sids_def split: option.split)
qed (auto simp: clean_tick_def probe_path_def pool_sids_def)

lemma pool_state_inv: "pool_state cfg s \<Longrightarrow> pool_inv cfg (fst s) \<and> held_ok (fst s) (snd s)"
proof (induction rule: pool_state.induct)
  case (pool_init c n)
  then show ?case by (simp add: Start_pool_inv held_ok_def)
next
  case (pool_next s s')
  from pool_next.hyps(2) pool_next.IH show ?case
  proof (induction rule: pool_step.induct)
    case (pool_other c c' h)
    then show ?case using pool_inv_step [of c c'] pool_op_sids [of c c'] held_ok_fewer [of c h c'] by simp
  next
    case (standby_dialled e c c' i ec cmp sc)
    then show ?case using pool_inv_new [OF _ dialSession_Session [OF standby_dialled.hyps]] by (simp add: held_ok_def)
  next
    case (standby_sent i c c')
    then show ?case by (auto simp: standby_put_def held_ok_def pool_inv_def pool_sids_def split: if_splits)
  qed (simp add: held_ok_def close_sid_def)
qed

lemma pool_reachable_inv: "pool_reachable cfg c \<Longrightarrow> pool_inv cfg c"
  using pool_state_inv by (fastforce simp: pool_reachable_def)

section \<open>Connecting\<close>

lemma level_index: "level_ok l \<Longrightarrow> \<not> (l < 0 \<or> int (length frameSizes) \<le> l)"
  by (auto simp: level_ok_def frameSizes_def)

lemma establish_101:
  assumes "mimic_ok (cl_mimic c)" "\<not> conn_closed cn" "conn_room cn = None"
    and "conn_in cn = bytes_of switchResp @ data" "level_ok level" "ce_smux e = None"
  shows "\<exists>req ec. build_request (ce_rand e) (Some (cl_mimic c)) = Ok req \<and>
    NewEncryptedConn (cn\<lparr>conn_in := data, conn_out := conn_out cn @ bytes_of (DumpRequest req)\<rparr>)
      (cl_psk c) (Some (cl_obfs c)) = Ok ec \<and>
    establish wrap e c level cn = Ok (ec, compression_on (cl_cfg c),
      (buildSmuxConfig (ce_default e) (cl_cfg c))\<lparr>MaxFrameSize := frameSizes ! nat level\<rparr>)"
proof -
  obtain req c' bc where h: "build_request (ce_rand e) (Some (cl_mimic c)) = Ok req"
    "ClientHandshake (ce_rand e) (ce_ahead e) cn (Some (cl_mimic c)) = (c', Ok bc)"
    "bc_view bc = cn\<lparr>conn_in := data, conn_out := conn_out cn @ bytes_of (DumpRequest req)\<rparr>"
    using client_handshake_101 [OF assms(1-4), of "ce_rand e" "ce_ahead e"] by blast
  obtain ec where ec: "NewEncryptedConn (bc_view bc) (cl_psk c) (Some (cl_obfs c)) = Ok ec"
    using NewEncryptedConn_total by blast
  show ?thesis
    using h ec level_index [OF assms(5)] assms(6) by (simp add: establish_def)
qed

lemma connect_101:
  assumes "mimic_ok (cl_mimic c)" "\<not> conn_closed cn" "conn_room cn = None"
    and "conn_in cn = bytes_of switchResp @ data" "level_ok (cl_frameLevel c)" "ce_smux e = None" "ce_ctx e = None"
    and "trim_space (path_Addr p) \<noteq> ''''"
    and "ce_dial e (dialer_of (cl_cfg c) (path_transport (cl_cfg c) p)) (dial_addr (cl_cfg c) p) (dial_timeout p) = Ok cn"
  shows "\<exists>req ec. build_request (ce_rand e) (Some (cl_mimic c)) = Ok req \<and>
    NewEncryptedConn (cn\<lparr>conn_in := data, conn_out := conn_out cn @ bytes_of (DumpRequest req)\<rparr>)
      (cl_psk c) (Some (cl_obfs c)) = Ok ec \<and>
    connectAndServe e p c = (addSession (cl_next c) (ce_now e) (fst (new_session c)),
      Session (cl_next c) ec (compression_on (cl_cfg c))
        ((buildSmuxConfig (ce_default e) (cl_cfg c))\<lparr>MaxFrameSize := frameSizes ! nat (cl_frameLevel c)\<rparr>))"
proof -
  from establish_101 [OF assms(1-6), of Wrapped] obtain req ec where
    "build_request (ce_rand e) (Some (cl_mimic c)) = Ok req"
    "NewEncryptedConn (cn\<lparr>conn_in := data, conn_out := conn_out cn @ bytes_of (DumpRequest req)\<rparr>)
      (cl_psk c) (Some (cl_obfs c)) = Ok ec"
    and est: "establish Wrapped e c (cl_frameLevel c) cn = Ok (ec, compression_on (cl_cfg c),
      (buildSmuxConfig (ce_default e) (cl_cfg c))\<lparr>MaxFrameSize := frameSizes ! nat (cl_frameLevel c)\<rparr>)" by blast
  moreover have "connectAndServe e p c = (addSession (cl_next c) (ce_now e) (fst (new_session c)),
      Session (cl_next c) ec (compression_on (cl_cfg c))
        ((buildSmuxConfig (ce_default e) (cl_cfg c))\<lparr>MaxFrameSize := frameSizes ! nat (cl_frameLevel c)\<rparr>))"
    using level_index [OF assms(5)] assms(7-9) est by (simp add: connectAndServe_def Let_def new_session_def)
  ultimately show ?thesis by blast
qed

text \<open>
  C13: When the dialled peer answers the handshake as the server does, \<open>connectAndServe\<close> puts a fresh
  session at the end of the pool: the encrypted connection reads exactly what follows the answer, has
  sent exactly the handshake request, and the smux frame size is the one of the current frame level.
\<close>

theorem connect_joins_pool:
  assumes "pool_reachable cfg c" "mimic_ok (cl_mimic c)" "ce_smux e = None" "ce_ctx e = None"
    and "p \<in> set (cl_paths c)" "trim_space (path_Addr p) \<noteq> ''''"
    and "ce_dial e (dialer_of (cl_cfg c) (path_transport (cl_cfg c) p)) (dial_addr (cl_cfg c) p) (dial_timeout p) = Ok cn"
    and "\<not> conn_closed cn" "conn_room cn = None" "conn_in cn = bytes_of switchResp @ data"
  shows "\<exists>c' ec sc req. connectAndServe e p c = (c', Session (cl_next c) ec (compression_on (cl_cfg c)) sc) \<and>
    pool_reachable cfg c' \<and> cl_next c \<notin> set (pool_sids c) \<and>
    map ps_session (cl_sessions c') = map ps_session (cl_sessions c) @ [cl_next c] \<and>
    build_request (ce_rand e) (Some (cl_mimic c)) = Ok req \<and>
    conn_in (ec_conn ec) = data \<and> conn_out (ec_conn ec) = conn_out cn @ bytes_of (DumpRequest req) \<and>
    MaxFrameSize sc = frameSizes ! nat (cl_frameLevel c) \<and> MaxFrameSize sc \<in> set frameSizes"
proof -
  have inv: "pool_inv cfg c" by (rule pool_reachable_inv [OF assms(1)])
  then have l: "level_ok (cl_frameLevel c)" by (simp add: pool_inv_def)
  from connect_101 [OF assms(2,8,9,10) l assms(3,4,6,7)] obtain req ec where
    b: "build_request (ce_rand e) (Some (cl_mimic c)) = Ok req"
    and ec: "NewEncryptedConn (cn\<lparr>conn_in := data, conn_out := conn_out cn @ bytes_of (DumpRequest req)\<rparr>)
      (cl_psk c) (Some (cl_obfs c)) = Ok ec"
    and r: "connectAndServe e p c = (addSession (cl_next c) (ce_now e) (fst (new_session c)),
      Session (cl_next c) ec (compression_on (cl_cfg c))
        ((buildSmuxConfig (ce_default e) (cl_cfg c))\<lparr>MaxFrameSize := frameSizes ! nat (cl_frameLevel c)\<rparr>))" by blast
  have "pool_reachable cfg (addSession (cl_next c) (ce_now e) (fst (new_session c)))"
    using assms(1) pool_op.connect [OF r] by (rule pool_reachable_op)
  moreover have "cl_next c \<notin> set (pool_sids c)" using inv by (auto simp: pool_inv_def)
  moreover have "frameSizes ! nat (cl_frameLevel c) \<in> set frameSizes"
    using l by (intro nth_mem) (auto simp: level_ok_def frameSizes_def)
  ultimately show ?thesis
    using b r NewEncryptedConn_Ok [OF ec] by (simp add: addSession_def new_session_def)
qed

text \<open>
  C7: What the pool keeps in every reachable state, whatever the interleaving of its workers, the standby
  manager, the health check, the prober, callers of \<open>OpenStream\<close> and dying sessions: no session is held twice
  (in the pool, in the standby channel, and by the manager that waits for room in the channel), at most two
  standby sessions wait, one in the channel and one held, every session number has been given out, and the
  indices the program takes from the pool (the best path, the frame level) are within their tables.
\<close>

theorem pool_invariant:
  assumes "pool_state cfg (c, h)"
  shows "distinct (map ps_session (cl_sessions c) @ cl_standbyCh c @ (case h of None \<Rightarrow> [] | Some i \<Rightarrow> [i])) \<and>
    length (cl_standbyCh c) \<le> 1 \<and>
    (\<forall>i \<in> set (map ps_session (cl_sessions c) @ cl_standbyCh c @ (case h of None \<Rightarrow> [] | Some i \<Rightarrow> [i])). i < cl_next c) \<and>
    bestPath (cl_pathLatency c) < length (cl_paths c) \<and>
    0 \<le> cl_frameLevel c \<and> nat (cl_frameLevel c) < length frameSizes \<and>
    sessionCount c = card (ps_session ` set (cl_sessions c))"
proof -
  have inv: "pool_inv cfg c" "held_ok c h" using pool_state_inv [OF assms] by simp_all
  then have "cl_pathLatency c \<noteq> []" by (auto simp: pool_inv_def)
  then have "bestPath (cl_pathLatency c) < length (cl_paths c)"
    using bestPath_spec [of "cl_pathLatency c"] inv by (simp add: pool_inv_def)
  moreover have "sessionCount c = card (ps_session ` set (cl_sessions c))"
    using inv distinct_card [of "map ps_session (cl_sessions c)"] by (simp add: pool_inv_def pool_sids_def sessionCount_def)
  moreover have "distinct (pool_sids c @ (case h of None \<Rightarrow> [] | Some i \<Rightarrow> [i]))"
    "\<forall>i \<in> set (pool_sids c @ (case h of None \<Rightarrow> [] | Some i \<Rightarrow> [i])). i < cl_next c"
    using inv by (auto simp: pool_inv_def held_ok_def split: option.split)
  ultimately show ?thesis
    using inv(1) by (auto simp: pool_inv_def pool_sids_def level_ok_def frameSizes_def)
qed

definition demo_cfg :: Config where
  "demo_cfg = zero_Config\<lparr>Mimic := demo_mimic, Paths := [demo_path]\<rparr>"

definition demo_peer :: "bytes \<Rightarrow> conn" where
  "demo_peer b = \<lparr>conn_in = b, conn_out = [], conn_room = None, conn_closed = False\<rparr>"

definition demo_smux :: smux_Config where
  "demo_smux = \<lparr>sc_Version = 1, KeepAliveInterval = 10 * second, KeepAliveTimeout = 30 * second,
     MaxReceiveBuffer = 4194304, MaxStreamBuffer = 65536, MaxFrameSize = 32768\<rparr>"

definition demo_connect_env :: "bytes \<Rightarrow> connect_env" where
  "demo_connect_env b = \<lparr>ce_dial = (\<lambda>_ _ _. Ok (demo_peer b)), ce_ctx = None, ce_rand = demo_rand, ce_ahead = 1,
     ce_smux = None, ce_default = demo_smux, ce_now = 7\<rparr>"

definition demo_client :: Client where
  "demo_client = NewClient demo_cfg"

lemma demo_client_start: "Start_pool demo_client = Ok (demo_client, 1)"
  by (simp add: Start_pool_def demo_client_def NewClient_def demo_cfg_def demo_path_def zero_Config_def Let_def)

lemma demo_client_reachable: "pool_reachable demo_cfg demo_client"
  using pool_init demo_client_start unfolding demo_client_def pool_reachable_def by blast

lemma demo_client_fields:
  "cl_paths demo_client = [demo_path]" "cl_mimic demo_client = demo_mimic" "cl_next demo_client = 0"
  "cl_sessions demo_client = []" "cl_frameLevel demo_client = 0"
  by (simp_all add: demo_client_def NewClient_def demo_cfg_def zero_Config_def Let_def)

lemma demo_path_addr: "trim_space (path_Addr demo_path) = ''a:1''"
  unfolding demo_path_def by code_simp

theorem connect_joins_pool_witness:
  "\<exists>c' ec sc. connectAndServe (demo_connect_env (bytes_of switchResp @ [5, 6])) demo_path demo_client =
      (c', Session 0 ec False sc) \<and> map ps_session (cl_sessions c') = [0] \<and> conn_in (ec_conn ec) = [5, 6] \<and>
      MaxFrameSize sc = 2048"
proof -
  let ?e = "demo_connect_env (bytes_of switchResp @ [5, 6])"
  have "\<not> compression_on (cl_cfg demo_client)"
    by (simp add: compression_on_def demo_client_def NewClient_def demo_cfg_def zero_Config_def Let_def)
  then show ?thesis
    using connect_joins_pool [OF demo_client_reachable, of ?e demo_path "demo_peer (bytes_of switchResp @ [5, 6])" "[5, 6]"]
      demo_mimic_ok demo_path_addr
    by (auto simp: demo_connect_env_def demo_peer_def demo_client_fields frameSizes_def)
qed

lemma demo_dial:
  assumes "cl_cfg c = cl_cfg demo_client" "cl_mimic c = demo_mimic" "cl_paths c = [demo_path]" "cl_frameLevel c = 0"
    and "length (cl_pathLatency c) = 1"
  shows "\<exists>ec cmp sc. dialSession (demo_connect_env (bytes_of switchResp)) c =
    (fst (new_session c), Session (cl_next c) ec cmp sc)"
proof -
  let ?e = "demo_connect_env (bytes_of switchResp)"
  have b: "bestPath (cl_pathLatency c) = 0" using assms(5) by (cases "cl_pathLatency c") (auto simp: bestPath_def)
  have "level_ok (cl_frameLevel c)" using assms(4) by (simp add: level_ok_def)
  then obtain ec sc where "establish (\<lambda>_ x. x) ?e c (cl_frameLevel c) (demo_peer (bytes_of switchResp)) =
      Ok (ec, compression_on (cl_cfg c), sc)"
    using establish_101 [of c "demo_peer (bytes_of switchResp)" "[]" "cl_frameLevel c" ?e "\<lambda>_ x. x"]
      demo_mimic_ok assms(2) by (auto simp: demo_connect_env_def demo_peer_def)
  then show ?thesis
    using b assms(3) by (simp add: dialSession_def demo_connect_env_def Let_def new_session_def)
qed

theorem pool_invariant_witness:
  "\<exists>c. pool_state demo_cfg (c, Some 2) \<and> map ps_session (cl_sessions c) = [0] \<and> cl_standbyCh c = [1] \<and>
     distinct (map ps_session (cl_sessions c) @ cl_standbyCh c @ [2]) \<and> sessionCount c = 1"
proof -
  let ?e = "demo_connect_env (bytes_of switchResp @ [5, 6])" and ?new = "\<lambda>c. fst (new_session c)"
  define c1 where "c1 = addSession 0 7 (?new demo_client)"
  define c3 where "c3 = (?new c1)\<lparr>cl_standbyCh := [1]\<rparr>"
  have f: "cl_standbyCh demo_client = []" "length (cl_pathLatency demo_client) = 1"
    by (simp_all add: demo_client_def NewClient_def Let_def demo_cfg_def)
  have l: "level_ok (cl_frameLevel demo_client)" by (simp add: demo_client_fields level_ok_def)
  obtain ec sc cmp where "connectAndServe ?e demo_path demo_client = (c1, Session 0 ec cmp sc)"
    using connect_101 [of demo_client "demo_peer (bytes_of switchResp @ [5, 6])" "[5, 6]" ?e demo_path] l
      demo_mimic_ok demo_path_addr by (auto simp: c1_def demo_connect_env_def demo_peer_def demo_client_fields)
  then have 1: "pool_state demo_cfg (c1, None)"
    using pool_next [OF _ pool_other [OF pool_op.connect]] pool_init [of demo_cfg demo_client 1] demo_client_start
    by (metis demo_client_def)
  have c1: "cl_cfg c1 = cl_cfg demo_client" "cl_mimic c1 = demo_mimic" "cl_paths c1 = [demo_path]" "cl_frameLevel c1 = 0"
    "length (cl_pathLatency c1) = 1" "cl_next c1 = 1" "cl_standbyCh c1 = []" "map ps_session (cl_sessions c1) = [0]"
    using f by (simp_all add: c1_def addSession_def new_session_def demo_client_fields)
  from demo_dial [OF c1(1-5)] obtain ec' cmp' sc' where
    "dialSession (demo_connect_env (bytes_of switchResp)) c1 = (?new c1, Session 1 ec' cmp' sc')" using c1(6) by auto
  from pool_next [OF 1 standby_dialled [OF this]] have "pool_state demo_cfg (?new c1, Some 1)" .
  from pool_next [OF this standby_sent] have 3: "pool_state demo_cfg (c3, None)"
    using c1(7) by (simp add: c3_def standby_put_def new_session_def)
  have c3: "cl_cfg c3 = cl_cfg demo_client" "cl_mimic c3 = demo_mimic" "cl_paths c3 = [demo_path]" "cl_frameLevel c3 = 0"
    "length (cl_pathLatency c3) = 1" "cl_next c3 = 2"
    using c1 by (simp_all add: c3_def new_session_def)
  from demo_dial [OF c3(1-5)] obtain ec'' cmp'' sc'' where
    "dialSession (demo_connect_env (bytes_of switchResp)) c3 = (?new c3, Session 2 ec'' cmp'' sc'')" using c3(6) by auto
  from pool_next [OF 3 standby_dialled [OF this]] have r: "pool_state demo_cfg (?new c3, Some 2)" .
  have "map ps_session (cl_sessions (?new c3)) = [0]" "cl_standbyCh (?new c3) = [1]"
    using c1(8) by (simp_all add: c3_def new_session_def)
  with r pool_invariant [OF r] show ?thesis
    by (intro exI [of _ "?new c3"]) (auto simp: sessionCount_def)
qed

text \<open>What the client makes of an answer that is not the expected one: nothing it can parse, or another status.\<close>

definition refused :: "bytes \<Rightarrow> bool" where
  "refused b = (case read_response_head (string_of b) of
     Ok (resp, _) \<Rightarrow> resp_StatusCode resp \<noteq> 101 \<and> resp_StatusCode resp \<noteq> 200 | Err e \<Rightarrow> True | Panic p \<Rightarrow> False)"

lemma establish_refused:
  assumes "mimic_ok (cl_mimic c)" "\<not> conn_closed cn" "conn_room cn = None" "refused (conn_in cn)"
  shows "establish wrap e c level cn = Panic NilDeref"
proof -
  obtain req where b: "build_request (ce_rand e) (Some (cl_mimic c)) = Ok req"
    using build_request_ok [OF assms(1)] by blast
  have "\<exists>c' x. ClientHandshake (ce_rand e) (ce_ahead e) cn (Some (cl_mimic c)) = (c', Err x)"
    using b assms(2-) unfolding ClientHandshake_def refused_def
    by (auto simp: conn_write_unlimited Let_def split: outcome.splits)
  then show ?thesis by (auto simp: establish_def)
qed

text \<open>
  C35: A refused handshake crashes the client.  If the peer closes the connection without an answer,
  answers something that is not HTTP, or answers with any status but 101 and 200 (as the decoy of the
  server itself does), both \<open>connectAndServe\<close> and \<open>dialSession\<close> call \<open>Close\<close> on the nil connection that
  \<open>ClientHandshake\<close> returned; the panic is not recovered.
\<close>

theorem refused_handshake_panics:
  assumes "pool_reachable cfg c" "mimic_ok (cl_mimic c)" "ce_ctx e = None"
    and "\<forall>d a t. ce_dial e d a t = Ok cn" "\<not> conn_closed cn" "conn_room cn = None" "refused (conn_in cn)"
    and "trim_space (path_Addr p) \<noteq> ''''"
  shows "connectAndServe e p c = (c, ConnPanic NilDeref) \<and> dialSession e c = (c, ConnPanic NilDeref)"
proof -
  have inv: "pool_inv cfg c" by (rule pool_reachable_inv [OF assms(1)])
  then have "cl_pathLatency c \<noteq> []" by (auto simp: pool_inv_def)
  then have b: "\<not> length (cl_paths c) \<le> bestPath (cl_pathLatency c)"
    using bestPath_spec [of "cl_pathLatency c"] inv by (simp add: pool_inv_def)
  have "\<not> (cl_frameLevel c < 0 \<or> int (length frameSizes) \<le> cl_frameLevel c)"
    using inv by (intro level_index) (simp add: pool_inv_def)
  then show ?thesis
    using establish_refused [OF assms(2,5,6,7)] assms(3,4,8) b
    by (simp add: connectAndServe_def dialSession_def Let_def)
qed

definition not_found :: string where
  "not_found = ''HTTP/1.1 404 Not Found'' @ crlf @ ''Server: nginx/1.18.0'' @ crlf @ crlf"

lemma not_found_refused: "refused (bytes_of not_found)"
  unfolding refused_def not_found_def by code_simp

theorem refused_handshake_panics_witness:
  "connectAndServe (demo_connect_env (bytes_of not_found)) demo_path demo_client = (demo_client, ConnPanic NilDeref) \<and>
   connectAndServe (demo_connect_env []) demo_path demo_client = (demo_client, ConnPanic NilDeref) \<and>
   dialSession (demo_connect_env []) demo_client = (demo_client, ConnPanic NilDeref)"
proof -
  have "refused []" unfolding refused_def by code_simp
  then show ?thesis
    using not_found_refused demo_mimic_ok demo_path_addr
      refused_handshake_panics [OF demo_client_reachable, of "demo_connect_env (bytes_of not_found)" "demo_peer (bytes_of not_found)" demo_path]
      refused_handshake_panics [OF demo_client_reachable, of "demo_connect_env []" "demo_peer []" demo_path]
    by (simp add: demo_connect_env_def demo_peer_def demo_client_fields)
qed

section \<open>Recycling\<close>

text \<open>
  A recycling tick closes at most one session: none when no live session is older than twenty minutes,
  otherwise one that is, and that no other such session is older than; the pool itself is left to the
  owner of the session.
\<close>

theorem recycle_oldest:
  "recycle_tick now c = c \<and> \<not> list_ex (expired now c) (cl_sessions c) \<or>
   (\<exists>p \<in> set (cl_sessions c). expired now c p \<and> recycle_tick now c = close_sid (ps_session p) c \<and>
      cl_sessions (recycle_tick now c) = cl_sessions c \<and>
      list_all (\<lambda>q. expired now c q \<longrightarrow> ps_createdAt p \<le> ps_createdAt q) (cl_sessions c))"
proof -
  define step where "step p oldest = (if expired now c p \<and>
      (case oldest of None \<Rightarrow> True | Some o' \<Rightarrow> ps_createdAt p < ps_createdAt o') then Some p else oldest)" for p oldest
  have inv: "case fold step ps None of
        None \<Rightarrow> \<not> list_ex (expired now c) ps
      | Some p \<Rightarrow> p \<in> set ps \<and> expired now c p \<and> list_all (\<lambda>q. expired now c q \<longrightarrow> ps_createdAt p \<le> ps_createdAt q) ps" for ps
  proof (induction ps rule: rev_induct)
    case (snoc x ps)
    then show ?case
      by (cases "fold step ps None") (auto simp: step_def [of x] list_all_iff list_ex_iff split: if_splits)
  qed simp
  have f: "oldest_expired now c = fold step (cl_sessions c) None"
    by (simp add: oldest_expired_def step_def [abs_def])
  show ?thesis
    using inv [of "cl_sessions c", folded f] by (cases "oldest_expired now c") (auto simp: recycle_tick_def close_sid_def)
qed

definition aged_client :: Client where
  "aged_client = demo_client\<lparr>cl_sessions := [\<lparr>ps_session = 0, ps_createdAt = 10\<rparr>, \<lparr>ps_session = 1, ps_createdAt = 5\<rparr>]\<rparr>"

theorem recycle_oldest_witness:
  "cl_closed (recycle_tick (30 * minute) aged_client) 1 \<and> \<not> cl_closed (recycle_tick (30 * minute) aged_client) 0"
  using recycle_oldest [of "30 * minute" aged_client]
  by (auto simp: aged_client_def expired_def sessionMaxAge_def minute_def second_def demo_client_def NewClient_def Let_def
      close_sid_def)

end
