(* ===== verification/Compressed_Conn.thy ===== *)
theory Compressed_Conn
  imports Encrypted_Conn
begin

text \<open>
  \<^verbatim>\<open>compression.go\<close>: the snappy layer between the encrypted connection and smux.  The snappy package is an
  argument: its writer's state, the blocks that \<open>Write\<close> and \<open>Flush\<close> pass to the connection below, and the
  decoder.  What is relied on is \<open>snappy_ok\<close>.
\<close>

record 'w snappy =
  sn_new :: 'w
  sn_Write :: "'w \<Rightarrow> bytes \<Rightarrow> 'w \<times> bytes list"
  sn_Flush :: "'w \<Rightarrow> 'w \<times> bytes list"
  sn_decode :: "bytes \<Rightarrow> bytes"

record 'w CompressedConn =
  cc_Conn :: EncryptedConn
  cc_writer :: 'w

definition NewCompressedConn :: "'w snappy \<Rightarrow> EncryptedConn \<Rightarrow> string \<Rightarrow> EncryptedConn + 'w CompressedConn" where
  "NewCompressedConn sn ec algo =
     (if algo = ''snappy'' then Inr \<lparr>cc_Conn = ec, cc_writer = sn_new sn\<rparr> else Inl ec)"

text \<open>The blocks go to the connection below one by one; the \<open>k\<close>-th write draws \<open>rs k\<close>.\<close>

type_synonym draws = "nat \<Rightarrow> write_rand \<times> bytes"

definition with_draws :: "draws \<Rightarrow> nat \<Rightarrow> bytes list \<Rightarrow> ((write_rand \<times> bytes) \<times> bytes) list" where
  "with_draws rs k bs = zip (map rs [k..<k + length bs]) bs"

definition cc_Write :: "'w snappy \<Rightarrow> 'w CompressedConn \<Rightarrow> draws \<Rightarrow> bytes \<Rightarrow> 'w CompressedConn \<times> nat outcome" where
  "cc_Write sn cc rs b =
     (case sn_Write sn (cc_writer cc) b of
        (w, bs) \<Rightarrow>
          (case run_writes ec_wr (cc_Conn cc) (with_draws rs 0 bs) of
             (ec, Err e) \<Rightarrow> (\<lparr>cc_Conn = ec, cc_writer = w\<rparr>, Err e)
           | (ec, Panic p) \<Rightarrow> (\<lparr>cc_Conn = ec, cc_writer = w\<rparr>, Panic p)
           | (ec, Ok _) \<Rightarrow>
               (case sn_Flush sn w of
                  (w, fs) \<Rightarrow>
                    (case run_writes ec_wr ec (with_draws rs (length bs) fs) of
                       (ec, Ok _) \<Rightarrow> (\<lparr>cc_Conn = ec, cc_writer = w\<rparr>, Ok (length b))
                     | (ec, Err e) \<Rightarrow> (\<lparr>cc_Conn = ec, cc_writer = w\<rparr>, Err e)
                     | (ec, Panic p) \<Rightarrow> (\<lparr>cc_Conn = ec, cc_writer = w\<rparr>, Panic p)))))"

text \<open>\<open>Close\<close> flushes (its error is ignored) and closes the connection.\<close>

definition cc_Close :: "'w snappy \<Rightarrow> 'w CompressedConn \<Rightarrow> draws \<Rightarrow> 'w CompressedConn" where
  "cc_Close sn cc rs =
     (case sn_Flush sn (cc_writer cc) of
        (w, fs) \<Rightarrow> \<lparr>cc_Conn = ec_Close (fst (run_writes ec_wr (cc_Conn cc) (with_draws rs 0 fs))), cc_writer = w\<rparr>)"

text \<open>\<open>Read\<close>: what the snappy reader delivers of the bytes that reads of sizes \<open>ns\<close> take from the connection below.\<close>

definition cc_ReadAll :: "'w snappy \<Rightarrow> EncryptedConn \<Rightarrow> nat list \<Rightarrow> bytes" where
  "cc_ReadAll sn rd ns = sn_decode sn (fst (read_all rd ns))"

section \<open>Writes through both layers\<close>

text \<open>The blocks that one write emits, and those of a sequence of writes.\<close>

definition blocks_of :: "'w snappy \<Rightarrow> 'w \<Rightarrow> bytes \<Rightarrow> 'w \<times> bytes list" where
  "blocks_of sn w b = (case sn_Write sn w b of (w, bs) \<Rightarrow> (case sn_Flush sn w of (w, fs) \<Rightarrow> (w, bs @ fs)))"

fun emitted :: "'w snappy \<Rightarrow> 'w \<Rightarrow> bytes list \<Rightarrow> bytes list" where
  "emitted sn w [] = []"
| "emitted sn w (d # ds) = (case blocks_of sn w d of (w, bs) \<Rightarrow> bs @ emitted sn w ds)"

text \<open>The documented behaviour of the package: a flushed stream decodes to what was written.\<close>

definition snappy_ok :: "'w snappy \<Rightarrow> bool" where
  "snappy_ok sn \<longleftrightarrow> (\<forall>ds. sn_decode sn (concat (emitted sn (sn_new sn) ds)) = concat ds)"

lemma with_draws_snd [simp]: "map snd (with_draws rs k bs) = bs"
  by (simp add: with_draws_def)

lemma with_draws_append: "with_draws rs 0 (bs @ fs) = with_draws rs 0 bs @ with_draws rs (length bs) fs"
proof -
  have "[0..<length bs + length fs] = [0..<length bs] @ [length bs..<length bs + length fs]"
    using upt_add_eq_append [of 0 "length bs" "length fs"] by simp
  then show ?thesis by (simp add: with_draws_def)
qed

lemma run_writes_append:
  assumes "run_writes wr c (ws @ vs) = (c'', Ok n)"
  shows "\<exists>c' m k. run_writes wr c ws = (c', Ok m) \<and> run_writes wr c' vs = (c'', Ok k)"
  using assms
proof (induction ws arbitrary: c n)
  case (Cons x ws)
  obtain r d where x: "x = (r, d)" by (cases x)
  obtain c1 i where w: "wr c r d = (c1, Ok i)" using Cons.prems by (auto simp: x split: prod.splits outcome.splits)
  then obtain l where "run_writes wr c1 (ws @ vs) = (c'', Ok l)"
    using Cons.prems by (auto simp: x and_then_Ok_iff split: prod.splits)
  from Cons.IH [OF this] w show ?case by (auto simp: x)
qed simp

text \<open>A write through the layer makes exactly the writes of its blocks below.\<close>

lemma cc_Write_blocks:
  assumes "blocks_of sn (cc_writer cc) b = (w, bs)"
    and "run_writes ec_wr (cc_Conn cc) (with_draws rs 0 bs) = (ec, Ok n)"
  shows "cc_Write sn cc rs b = (\<lparr>cc_Conn = ec, cc_writer = w\<rparr>, Ok (length b))"
proof -
  obtain w1 b1 where w1: "sn_Write sn (cc_writer cc) b = (w1, b1)" by fastforce
  obtain f where f: "sn_Flush sn w1 = (w, f)" "bs = b1 @ f"
    using assms(1) w1 by (auto simp: blocks_of_def split: prod.splits)
  from assms(2) obtain c1 m k where
    "run_writes ec_wr (cc_Conn cc) (with_draws rs 0 b1) = (c1, Ok m)"
    "run_writes ec_wr c1 (with_draws rs (length b1) f) = (ec, Ok k)"
    using run_writes_append by (fastforce simp: f(2) with_draws_append)
  then show ?thesis using w1 f(1) by (simp add: cc_Write_def)
qed

fun cc_run :: "'w snappy \<Rightarrow> 'w CompressedConn \<Rightarrow> (draws \<times> bytes) list \<Rightarrow> 'w CompressedConn \<times> nat outcome" where
  "cc_run sn cc [] = (cc, Ok 0)"
| "cc_run sn cc ((rs, b) # ws) =
     (case cc_Write sn cc rs b of
        (cc, Ok n) \<Rightarrow> (case cc_run sn cc ws of (cc, res) \<Rightarrow> (cc, and_then res (\<lambda>m. Ok (n + m))))
      | (cc, Err e) \<Rightarrow> (cc, Err e)
      | (cc, Panic p) \<Rightarrow> (cc, Panic p))"

text \<open>All writes below that a sequence of writes makes, each with its draws.\<close>

fun below :: "'w snappy \<Rightarrow> 'w \<Rightarrow> (draws \<times> bytes) list \<Rightarrow> ((write_rand \<times> bytes) \<times> bytes) list" where
  "below sn w [] = []"
| "below sn w ((rs, b) # ws) = (case blocks_of sn w b of (w, bs) \<Rightarrow> with_draws rs 0 bs @ below sn w ws)"

lemma below_emitted: "map snd (below sn w ws) = emitted sn w (map snd ws)"
  by (induction sn w ws rule: below.induct) (auto split: prod.splits)

lemma cc_run_below:
  assumes "run_writes ec_wr (cc_Conn cc) (below sn (cc_writer cc) ws) = (ec, Ok n)"
  shows "\<exists>w. cc_run sn cc ws = (\<lparr>cc_Conn = ec, cc_writer = w\<rparr>, Ok (length (concat (map snd ws))))"
  using assms
proof (induction ws arbitrary: cc n)
  case Nil
  then show ?case by (cases cc) simp
next
  case (Cons x ws)
  obtain rs b where x: "x = (rs, b)" by (cases x)
  obtain w bs where bs: "blocks_of sn (cc_writer cc) b = (w, bs)" by fastforce
  from Cons.prems have "run_writes ec_wr (cc_Conn cc) (with_draws rs 0 bs @ below sn w ws) = (ec, Ok n)"
    by (simp add: x bs)
  from run_writes_append [OF this] obtain c' m k where
    c': "run_writes ec_wr (cc_Conn cc) (with_draws rs 0 bs) = (c', Ok m)" "run_writes ec_wr c' (below sn w ws) = (ec, Ok k)"
    by blast
  from Cons.IH [of "\<lparr>cc_Conn = c', cc_writer = w\<rparr>"] c'(2) cc_Write_blocks [OF bs c'(1)] show ?case by (auto simp: x)
qed

text \<open>
  C14: The compressed tunnel is a byte stream.  Given a snappy package whose flushed streams decode to what
  was written, two ends with the same PSK, obfuscation and compression settings behave as follows:
  whatever sequence of writes is made on one end (its blocks within the packet limits), each reports all
  its bytes and nothing stays behind in a buffer: the other end reads exactly the concatenation of the
  data written so far.
\<close>

theorem compressed_stream:
  assumes "snappy_ok sn" "NewEncryptedConn c psk obfs = Ok ec" "NewEncryptedConn c2 psk obfs = Ok rd"
    and "obfs_ok obfs" "\<not> conn_closed c" "conn_room c = None" "conn_out c = []" "\<not> conn_closed c2"
    and "NewCompressedConn sn ec ''snappy'' = Inr cc" "\<forall>(r, b) \<in> set (below sn (sn_new sn) ws). ec_accepts ec r b"
    and "conn_in c2 = conn_out (ec_conn (cc_Conn (fst (cc_run sn cc ws))))"
    and "\<forall>n \<in> set ns. 0 < n" "(\<Sum>(r, b) \<leftarrow> below sn (sn_new sn) ws. Suc (length b)) < length ns"
  shows "snd (cc_run sn cc ws) = Ok (length (concat (map snd ws))) \<and> cc_ReadAll sn rd ns = concat (map snd ws)"
proof -
  have cc: "cc = \<lparr>cc_Conn = ec, cc_writer = sn_new sn\<rparr>" using assms(9) by (simp add: NewCompressedConn_def)
  have ready: "ec_ready ec" by (rule NewEncryptedConn_ready [OF assms(2,4-6)])
  obtain ec' n where w: "run_writes ec_wr ec (below sn (sn_new sn) ws) = (ec', Ok n)"
    using enc.writes_segments [OF ready assms(10)] by blast
  then obtain v where r: "cc_run sn cc ws = (\<lparr>cc_Conn = ec', cc_writer = v\<rparr>, Ok (length (concat (map snd ws))))"
    using cc_run_below [of cc sn ws ec' n] cc by auto
  have "\<exists>rd'. read_all rd ns = (concat (map snd (below sn (sn_new sn) ws)), rd', Err EOF)"
    using ec_pair_stream [OF ready NewEncryptedConn_matches [OF assms(2,3,8)] _ assms(10) _ assms(12,13)]
      NewEncryptedConn_Ok [OF assms(2)] NewEncryptedConn_Ok [OF assms(3)] assms(7,11) r w by simp
  then show ?thesis
    using r assms(1) by (auto simp: cc_ReadAll_def below_emitted snappy_ok_def)
qed

text \<open>The stored format as an instance: each write becomes one block, sent by the flush.\<close>

definition stored :: "bytes snappy" where
  "stored = \<lparr>sn_new = [], sn_Write = (\<lambda>w b. (w @ b, [])), sn_Flush = (\<lambda>w. ([], [w])), sn_decode = (\<lambda>b. b)\<rparr>"

lemma stored_ok: "snappy_ok stored"
proof -
  have "concat (emitted stored [] ds) = concat ds" for ds
    by (induction ds) (simp_all add: blocks_of_def stored_def)
  then show ?thesis by (simp add: snappy_ok_def stored_def)
qed

definition demo_cc_writes :: "(draws \<times> bytes) list" where
  "demo_cc_writes = [(\<lambda>_. (demo_rand, []), [1, 2]), (\<lambda>_. (demo_rand, []), [3])]"

lemma demo_below: "below stored (sn_new stored) demo_cc_writes = [((demo_rand, []), [1, 2]), ((demo_rand, []), [3])]"
  by (simp add: demo_cc_writes_def blocks_of_def stored_def with_draws_def)

theorem compressed_stream_witness:
  "\<exists>ec rd. NewEncryptedConn demo_conn ''k'' (Some demo_obfs) = Ok ec \<and>
     NewEncryptedConn (demo_conn\<lparr>conn_in := conn_out (ec_conn (cc_Conn (fst (cc_run stored
       \<lparr>cc_Conn = ec, cc_writer = []\<rparr> demo_cc_writes))))\<rparr>) ''k'' (Some demo_obfs) = Ok rd \<and>
     cc_ReadAll stored rd (replicate 6 4) = [1, 2, 3]"
proof -
  obtain ec where ec: "NewEncryptedConn demo_conn ''k'' (Some demo_obfs) = Ok ec" using NewEncryptedConn_total by blast
  let ?cc = "\<lparr>cc_Conn = ec, cc_writer = []\<rparr>"
  obtain rd where rd: "NewEncryptedConn (demo_conn\<lparr>conn_in := conn_out (ec_conn (cc_Conn (fst (cc_run stored ?cc demo_cc_writes))))\<rparr>)
      ''k'' (Some demo_obfs) = Ok rd" using NewEncryptedConn_total by blast
  have "ec_obfs ec = Some demo_obfs" using NewEncryptedConn_Ok [OF ec] by simp
  then have acc: "\<forall>(r, b) \<in> set (below stored (sn_new stored) demo_cc_writes). ec_accepts ec r b"
    by (simp add: demo_below ec_accepts_def sendable_def obfs_on_def demo_obfs_def demo_rand_def)
  have n: "NewCompressedConn stored ec ''snappy'' = Inr ?cc" by (simp add: NewCompressedConn_def stored_def)
  from compressed_stream [OF stored_ok ec rd _ _ _ _ _ n acc, of "replicate 6 4"]
  have "cc_ReadAll stored rd (replicate 6 4) = concat (map snd demo_cc_writes)"
    by (simp add: obfs_ok_def demo_obfs_def demo_conn_def demo_below)
  then show ?thesis using ec rd by (auto simp: demo_cc_writes_def)
qed

end
