(* ===== verification/Tunnel.thy ===== *)
theory Tunnel
  imports Client_Connect Compressed_Conn
begin

text \<open>
  The two ends together: what the client sends while connecting is parsed, routed, validated and upgraded
  by the server, and from then on the client's encrypted connection and the server's are the ends of one
  byte stream, although the handshake request and the data share the connection.
\<close>

definition hijacked :: "conn \<Rightarrow> string \<Rightarrow> conn" where
  "hijacked hc rest = hc\<lparr>conn_in := bytes_of rest\<rparr>"

lemma upgrade_ok:
  assumes "ue_hijacker env" "ue_hijack_err env = None" "ue_smux_err env = None" "\<not> conn_closed hc" "conn_room hc = None"
  shows "\<exists>s' i rd opts. NewEncryptedConn (hc\<lparr>conn_out := conn_out hc @ bytes_of switchResp\<rparr>) (srv_PSK s) (Some (srv_Obfs s)) = Ok rd \<and>
    upgrade env hc s = (s', hc\<lparr>conn_out := conn_out hc @ bytes_of switchResp\<rparr>,
      Serving i rd (compression_on (srv_Config s)) opts)"
proof -
  let ?hc = "hc\<lparr>conn_out := conn_out hc @ bytes_of switchResp\<rparr>"
  obtain rd where rd: "NewEncryptedConn ?hc (srv_PSK s) (Some (srv_Obfs s)) = Ok rd" using NewEncryptedConn_total by blast
  obtain s' i where "upgrade_register (ue_remote env) (ue_now env) s = (s', i)" by fastforce
  moreover have "srv_Config s' = srv_Config s"
    using calculation by (auto simp: upgrade_register_def smux_Server_def setSession_def setSession_locked_def
        setSession_rest_def sess_close_def Let_def split: prod.splits option.splits if_splits)
  ultimately show ?thesis using assms rd by (simp add: upgrade_def conn_write_unlimited Let_def)
qed

lemma string_of_sent: "string_of (bytes_of r @ w) = r @ string_of w"
  by (simp add: string_of_append)

text \<open>
  What the server makes of the bytes a client has sent: a request followed by data, an upgrade, and a session
  from which reads of the sizes \<open>ns\<close> return exactly what the client wrote.
\<close>

definition delivers ::
    "(string \<times> handler) list \<Rightarrow> upgrade_env \<Rightarrow> nat \<Rightarrow> string \<Rightarrow> conn \<Rightarrow> Server \<Rightarrow> bytes \<Rightarrow> nat list \<Rightarrow> bytes \<Rightarrow> bool" where
  "delivers routes env ts date hc s sent ns data \<longleftrightarrow>
     (\<exists>req rest s' i rd cmp opts rd'. read_request (string_of sent) = Some (req, rest) \<and>
        serve_request routes env ts date req (hijacked hc rest) s =
          (s', (hijacked hc rest)\<lparr>conn_out := conn_out hc @ bytes_of switchResp\<rparr>, Handler (Upgraded (Serving i rd cmp opts))) \<and>
        read_all rd ns = (data, rd', Err EOF))"

lemma request_delivers:
  assumes "mimic_ok m" "routable (FakePath m)" "start_routes (Some m) = Ok routes"
    and "cleanPath (url_escape EncPath (handshake_path (rnd_path r) (FakePath m))) =
      url_escape EncPath (handshake_path (rnd_path r) (FakePath m))"
    and "srv_Mimic s = m" "build_request r (Some m) = Ok req"
    and "ue_hijacker env" "ue_hijack_err env = None" "ue_smux_err env = None" "\<not> conn_closed hc" "conn_room hc = None"
    and "NewEncryptedConn cn (srv_PSK s) (Some (srv_Obfs s)) = Ok ec" "obfs_ok (Some (srv_Obfs s))"
    and "\<not> conn_closed cn" "conn_room cn = None" "conn_out cn = bytes_of (DumpRequest req)"
    and ws: "\<forall>(r, d) \<in> set ws. ec_accepts ec r d" and ns: "\<forall>n \<in> set ns. 0 < n" "(\<Sum>(r, d) \<leftarrow> ws. Suc (length d)) < length ns"
  shows "delivers routes env ts date hc s (conn_out (ec_conn (fst (run_writes ec_wr ec ws)))) ns (concat (map snd ws))"
proof -
  have ready: "ec_ready ec" by (rule NewEncryptedConn_ready [OF assms(12-15)])
  note e' = NewEncryptedConn_Ok [OF assms(12)]
  obtain ec' w where w: "run_writes ec_wr ec ws = (ec', Ok (length (concat (map snd ws))))"
    "conn_out (ec_conn ec') = bytes_of (DumpRequest req) @ w"
    using enc.writes_segments [OF ready ws] e' assms(16) by auto
  let ?h = "hijacked hc (string_of w)"
  obtain req' where q: "read_request (DumpRequest req @ string_of w) = Some (req', string_of w)"
    "serve_request routes env ts date req' ?h s = (case upgrade env ?h s of (s', c', u) \<Rightarrow> (s', c', Handler (Upgraded u)))"
    using handshake_served [OF assms(1-5), of "string_of w" env ts date ?h] assms(6) by auto
  have h: "\<not> conn_closed ?h" "conn_room ?h = None" "conn_in ?h = w" "conn_out ?h = conn_out hc"
    using assms(10,11) by (simp_all add: hijacked_def)
  from upgrade_ok [OF assms(7-9) h(1,2), of s] obtain s' i rd opts where
    rd: "NewEncryptedConn (?h\<lparr>conn_out := conn_out ?h @ bytes_of switchResp\<rparr>) (srv_PSK s) (Some (srv_Obfs s)) = Ok rd"
    and up: "upgrade env ?h s = (s', ?h\<lparr>conn_out := conn_out ?h @ bytes_of switchResp\<rparr>,
      Serving i rd (compression_on (srv_Config s)) opts)" by blast
  have "ec_matches ec rd" using NewEncryptedConn_matches [OF assms(12) rd] h(1) by simp
  from ec_pair_stream [OF ready this _ ws _ ns] have "\<exists>rd'. read_all rd ns = (concat (map snd ws), rd', Err EOF)"
    using NewEncryptedConn_Ok [OF rd] w h(3) e' assms(16) by simp
  then show ?thesis using w q up h(4) by (simp add: delivers_def string_of_sent)
qed

text \<open>
  C1: End to end.  Let client and server have the same mimicry settings (plain ones, with a routable fake
  path), PSK and obfuscation settings, and let the client's connection answer with the switching response.
  Then the client establishes its encrypted connection; whatever it then writes, the bytes on the wire
  are parsed by the server into a request that is routed to the tunnel, validated and upgraded, the
  server answers with that very response, and the session it registers reads exactly the data the client
  wrote, in order and complete, for every choice of random bytes.
\<close>

theorem tunnel_end_to_end:
  assumes "mimic_ok m" "routable (FakePath m)" "start_routes (Some m) = Ok routes"
    and "cleanPath (url_escape EncPath (handshake_path (rnd_path (ce_rand e)) (FakePath m))) =
      url_escape EncPath (handshake_path (rnd_path (ce_rand e)) (FakePath m))"
    and "cl_mimic c = m" "srv_Mimic s = m" "cl_psk c = srv_PSK s" "cl_obfs c = srv_Obfs s" "obfs_ok (Some (srv_Obfs s))"
    and "level_ok level" "ce_smux e = None"
    and "\<not> conn_closed cn" "conn_room cn = None" "conn_out cn = []" "conn_in cn = bytes_of switchResp @ reply"
    and "ue_hijacker env" "ue_hijack_err env = None" "ue_smux_err env = None" "\<not> conn_closed hc" "conn_room hc = None"
  shows "\<exists>ec cmp sc. establish wrap e c level cn = Ok (ec, cmp, sc) \<and> conn_in (ec_conn ec) = reply \<and>
    (\<forall>ws ns. (\<forall>(r, d) \<in> set ws. ec_accepts ec r d) \<and> (\<forall>n \<in> set ns. 0 < n) \<and> (\<Sum>(r, d) \<leftarrow> ws. Suc (length d)) < length ns \<longrightarrow>
       delivers routes env ts date hc s (conn_out (ec_conn (fst (run_writes ec_wr ec ws)))) ns (concat (map snd ws)))"
proof -
  have mim: "mimic_ok (cl_mimic c)" using assms(1,5) by simp
  from establish_101 [OF mim assms(12,13,15,10,11), of wrap] obtain req ec where
    b: "build_request (ce_rand e) (Some m) = Ok req"
    and ec: "NewEncryptedConn (cn\<lparr>conn_in := reply, conn_out := bytes_of (DumpRequest req)\<rparr>)
      (srv_PSK s) (Some (srv_Obfs s)) = Ok ec" (is "NewEncryptedConn ?cn _ _ = _")
    and est: "establish wrap e c level cn = Ok (ec, compression_on (cl_cfg c),
      (buildSmuxConfig (ce_default e) (cl_cfg c))\<lparr>MaxFrameSize := frameSizes ! nat level\<rparr>)"
    using assms(5,7,8,14) by auto
  have "delivers routes env ts date hc s (conn_out (ec_conn (fst (run_writes ec_wr ec ws)))) ns (concat (map snd ws))"
    if "\<forall>(r, d) \<in> set ws. ec_accepts ec r d" "\<forall>n \<in> set ns. 0 < n" "(\<Sum>(r, d) \<leftarrow> ws. Suc (length d)) < length ns" for ws ns
    by (rule request_delivers [OF assms(1-4,6) b assms(16-20) ec assms(9) _ _ _ that]) (use assms(12,13) in simp_all)
  moreover have "conn_in (ec_conn ec) = reply" using NewEncryptedConn_Ok [OF ec] by simp
  ultimately show ?thesis using est by blast
qed

definition demo_sent :: "bytes" where
  "demo_sent = [5, 6, 7]"

definition demo_write :: "((write_rand \<times> bytes) \<times> bytes) list" where
  "demo_write = [((Encrypted_Conn.demo_rand, []), demo_sent)]"

theorem tunnel_end_to_end_witness:
  "\<exists>ec cmp sc. establish Wrapped (demo_connect_env []) demo_client 0 (demo_peer (bytes_of switchResp)) = Ok (ec, cmp, sc) \<and>
     delivers [(''/s/'', HandleTunnel), (''/tunnel'', HandleTunnel), (''/'', HandleDecoy)] demo_env 0 '''' (demo_peer []) demo_server
       (conn_out (ec_conn (fst (run_writes ec_wr ec demo_write)))) [9, 9, 9, 9, 9] demo_sent"
proof -
  let ?e = "demo_connect_env []" and ?routes = "[(''/s/'', HandleTunnel), (''/tunnel'', HandleTunnel), (''/'', HandleDecoy)]"
  have r: "routable (FakePath demo_mimic)"
    "cleanPath (url_escape EncPath (handshake_path (rnd_path (ce_rand ?e)) (FakePath demo_mimic))) =
      url_escape EncPath (handshake_path (rnd_path (ce_rand ?e)) (FakePath demo_mimic))"
    using demo_routable demo_clean Server_Http.demo_path by (simp_all add: demo_mimic_def demo_rand_def demo_connect_env_def)
  have d: "cl_mimic demo_client = demo_mimic" "srv_Mimic demo_server = demo_mimic" "cl_psk demo_client = srv_PSK demo_server"
    "cl_obfs demo_client = srv_Obfs demo_server" "obfs_ok (Some (srv_Obfs demo_server))"
    and p: "srv_PSK demo_server = ''''" "srv_Obfs demo_server = Obfs zero_Config"
    by (simp_all add: demo_client_def NewClient_def demo_cfg_def demo_server_def NewServer_def zero_Config_def obfs_ok_def Let_def)
  have x: "level_ok 0" "ce_smux ?e = None" "ue_hijacker demo_env" "ue_hijack_err demo_env = None" "ue_smux_err demo_env = None"
    by (simp_all add: level_ok_def demo_connect_env_def demo_env_def)
  have y: "\<not> conn_closed (demo_peer b)" "conn_room (demo_peer b) = None" "conn_out (demo_peer b) = []" "conn_in (demo_peer b) = b" for b
    by (simp_all add: demo_peer_def)
  obtain ec cmp sc where est: "establish Wrapped ?e demo_client 0 (demo_peer (bytes_of switchResp)) = Ok (ec, cmp, sc)"
    and all: "\<And>ws ns. (\<forall>(r, d) \<in> set ws. ec_accepts ec r d) \<and> (\<forall>n \<in> set ns. 0 < n) \<and> (\<Sum>(r, d) \<leftarrow> ws. Suc (length d)) < length ns \<Longrightarrow>
      delivers ?routes demo_env 0 '''' (demo_peer []) demo_server
        (conn_out (ec_conn (fst (run_writes ec_wr ec ws)))) ns (concat (map snd ws))"
    using tunnel_end_to_end [OF demo_mimic_ok r(1) demo_routes r(2) d x(1,2) y(1-3), of "bytes_of switchResp" "[]" demo_env
      "demo_peer []" Wrapped 0 "''''"] x(3-5) y by auto
  have "ec_gcm ec = None" "ec_obfs ec = Some (Obfs zero_Config)"
    using est d(3,4) p
    by (auto simp: establish_def NewEncryptedConn_def Let_def split: outcome.splits option.splits if_splits)
  then have "ec_accepts ec (Encrypted_Conn.demo_rand, []) demo_sent"
    by (simp add: ec_accepts_def sendable_def demo_sent_def obfs_on_def zero_Config_def)
  with all [of demo_write "[9, 9, 9, 9, 9]"] est show ?thesis by (simp add: demo_write_def demo_sent_def)
qed

end
