(* ===== verification/Shutdown.thy ===== *)
theory Shutdown
  imports Go_Prelude
begin

text \<open>
  How a component stops.  Its goroutines watch a context; once that is cancelled each of them has only so many
  steps left.  The contract is the locale \<open>winding_down\<close>: a rank that every step of the program lowers and no
  event from outside raises, and a step that is possible as long as the component has neither ended nor
  waits for something outside of it.  Client and server interpret it.
\<close>

text \<open>One goroutine of several takes a step.\<close>

lemma list_all_replace: "list_all P xs \<Longrightarrow> P x \<Longrightarrow> list_all P (xs[k := x])"
  using set_update_subset_insert [of xs k x] by (auto simp: list_all_iff)

lemma sum_list_replace: "k < length xs \<Longrightarrow> sum_list (map f (xs[k := x])) + f (xs ! k) = sum_list (map f xs) + (f x :: nat)"
proof (induction xs arbitrary: k)
  case (Cons y ys)
  then show ?case by (cases k) fastforce+
qed simp

text \<open>A run with \<open>n\<close> steps of the program among any number of outside events.\<close>

inductive run_with :: "('s \<Rightarrow> 's \<Rightarrow> bool) \<Rightarrow> ('s \<Rightarrow> 's \<Rightarrow> bool) \<Rightarrow> nat \<Rightarrow> 's \<Rightarrow> 's \<Rightarrow> bool" for step outside where
  run_refl: "run_with step outside 0 s s"
| run_step: "run_with step outside n s t \<Longrightarrow> step t u \<Longrightarrow> run_with step outside (Suc n) s u"
| run_outside: "run_with step outside n s t \<Longrightarrow> outside t u \<Longrightarrow> run_with step outside n s u"

locale winding_down =
  fixes step outside :: "'s \<Rightarrow> 's \<Rightarrow> bool" and stopping :: "'s \<Rightarrow> bool" and rank :: "'s \<Rightarrow> nat"
    and ended waiting :: "'s \<Rightarrow> bool"
  assumes stopping_step: "stopping s \<Longrightarrow> step s t \<Longrightarrow> stopping t"
    and stopping_outside: "stopping s \<Longrightarrow> outside s t \<Longrightarrow> stopping t"
    and rank_step: "stopping s \<Longrightarrow> step s t \<Longrightarrow> rank t < rank s"
    and rank_outside: "stopping s \<Longrightarrow> outside s t \<Longrightarrow> rank t \<le> rank s"
    and progress: "stopping s \<Longrightarrow> \<not> ended s \<Longrightarrow> \<not> waiting s \<Longrightarrow> \<exists>t. step s t"
begin

lemma run_bounded: "run_with step outside n s t \<Longrightarrow> stopping s \<Longrightarrow> stopping t \<and> n + rank t \<le> rank s"
proof (induction rule: run_with.induct)
  case (run_step n s t u)
  then show ?case using stopping_step [of t u] rank_step [of t u] by fastforce
next
  case (run_outside n s t u)
  then show ?case using stopping_outside [of t u] rank_outside [of t u] by fastforce
qed simp

lemma run_ends: "run_with step outside n s t \<Longrightarrow> stopping s \<Longrightarrow> (\<And>u. \<not> step t u) \<Longrightarrow> ended t \<or> waiting t"
  using run_bounded progress by blast

lemma no_infinite_run:
  assumes "stopping s" "f 0 = s" "\<And>k. step (f k) (f (Suc k)) \<or> outside (f k) (f (Suc k))"
  shows "\<exists>k. \<forall>j \<ge> k. \<not> step (f j) (f (Suc j))"
proof -
  have st: "stopping (f k)" for k
  proof (induction k)
    case (Suc k)
    then show ?case using assms(3) [of k] stopping_step stopping_outside by blast
  qed (simp add: assms)
  define m where "m = (LEAST n. \<exists>k. rank (f k) = n)"
  then obtain k where k: "rank (f k) = m" using LeastI [of "\<lambda>n. \<exists>k. rank (f k) = n" "rank (f 0)"] by blast
  have low: "m \<le> rank (f j)" for j unfolding m_def by (rule Least_le) blast
  have "rank (f (k + d)) = m" for d
  proof (induction d)
    case (Suc d)
    have "rank (f (Suc (k + d))) \<le> rank (f (k + d))"
      using assms(3) [of "k + d"] rank_step [OF st] rank_outside [OF st] less_imp_le by blast
    then show ?case using Suc low [of "Suc (k + d)"] by simp
  qed (simp add: k)
  then have m: "rank (f j) = m" if "k \<le> j" for j using that [THEN le_Suc_ex] by auto
  have "\<not> step (f j) (f (Suc j))" if "k \<le> j" for j
  proof
    assume "step (f j) (f (Suc j))"
    then have "rank (f (Suc j)) < rank (f j)" by (rule rank_step [OF st])
    then show False using m [of j] m [of "Suc j"] that by simp
  qed
  then show ?thesis by blast
qed

end

end
