(* ===== verification/Client_Lifecycle.thy ===== *)
theory Client_Lifecycle
  imports Client_Connect Shutdown
begin

text \<open>
  \<open>Client.Start\<close> and the goroutines it waits for (\<^verbatim>\<open>client.go\<close>): the pool workers, the standby manager, the latency
  prober and the health check, each as a step relation on the shared client, and the goroutines that close a
  session when the context ends.  A cancelled context is the argument \<open>ctx\<close>; where the code selects between
  the context and something else that is ready, either step may be taken, as in Go.
\<close>

section \<open>A pool worker\<close>

text \<open>
  The points between which \<open>poolWorker\<close> can be interrupted.  \<open>WReuse\<close> is the top of the inner loop over a standby
  session and \<open>WAccept\<close> its call of \<open>AcceptStream\<close>.  Inside \<open>connectAndServe\<close>, \<open>WConnect\<close> is the dial, which its
  timeout bounds; \<open>WTls\<close> the TLS handshake of \<open>dialFragmentedTLS\<close> and \<open>WHandshake\<close> the mimicry handshake, which
  have neither deadline nor context and wait for the peer; \<open>WDialled\<close> is the check of the context between them,
  \<open>WAnswered\<close> the rest once the peer has answered or the connection has failed, and \<open>WServe\<close> the accept loop.
  \<open>WClosing\<close> is the \<open>Close\<close> of a session, with what follows it: with compression it flushes what a \<open>Write\<close>
  that is stuck has left in the buffer, and so waits for the peer too; \<open>WClosed\<close> is its return.
\<close>

datatype after_close = ThenTop worker | ThenReturned int worker turn | ThenDone

datatype wphase =
    WStart
  | WTop worker
  | WSelect worker
  | WReuse worker sid
  | WAccept worker sid
  | WConnect worker
  | WTls worker
  | WDialled worker
  | WHandshake worker
  | WAnswered worker
  | WServe worker sid
  | WClosing after_close
  | WClosed after_close
  | WReturned worker turn
  | WWait worker
  | WDone
  | WPanic panic

definition adjust_level :: "int \<Rightarrow> Client \<Rightarrow> Client" where
  "adjust_level d c = (if d = 0 then c else c\<lparr>cl_frameLevel := clamp_level (cl_frameLevel c) d\<rparr>)"

fun resume :: "after_close \<Rightarrow> wphase" where
  "resume (ThenTop w) = WTop w"
| "resume (ThenReturned d w ev) = WReturned w ev"
| "resume ThenDone = WDone"

fun level_change :: "after_close \<Rightarrow> int" where
  "level_change (ThenReturned d w ev) = d"
| "level_change _ = 0"

text \<open>
  What the world has answered so far: no connection at all, or one, with the context not cancelled when it
  was checked.
\<close>

definition no_dial :: "connect_env \<Rightarrow> bool" where
  "no_dial e \<longleftrightarrow> (\<forall>d a t cn. ce_dial e d a t \<noteq> Ok cn)"

definition dial_done :: "connect_env \<Rightarrow> bool" where
  "dial_done e \<longleftrightarrow> (\<forall>d a t. \<exists>cn. ce_dial e d a t = Ok cn) \<and> ce_ctx e = None"

definition worker_path :: "Client \<Rightarrow> worker \<Rightarrow> PathConfig" where
  "worker_path c w = cl_paths c ! w_pathIdx w"

definition dials_tls :: "Client \<Rightarrow> PathConfig \<Rightarrow> bool" where
  "dials_tls c p \<longleftrightarrow> dialer_of (cl_cfg c) (path_transport (cl_cfg c) p) = DialTLS"

text \<open>
  The state is the client, \<open>GlobalStats.Reconnects\<close> and the point the worker has reached.  What \<open>connectAndServe\<close>
  returns is computed when it is known; of the client it reads, only the frame level could change meanwhile,
  and that goes only to the frame size of the session.
\<close>

inductive worker_step :: "bool \<Rightarrow> Client \<times> int \<times> wphase \<Rightarrow> Client \<times> int \<times> wphase \<Rightarrow> bool" for ctx where
  w_start: "worker_step ctx (c, n, WStart) (c, n, WTop (worker_start (cl_pathLatency c)))"
| w_top_done: "ctx \<Longrightarrow> worker_step ctx (c, n, WTop w) (c, n, WDone)"
| w_top: "\<not> ctx \<Longrightarrow> w_pathIdx w < length (cl_paths c) \<Longrightarrow> worker_step ctx (c, n, WTop w) (c, n, WSelect w)"
| w_top_panic: "\<not> ctx \<Longrightarrow> length (cl_paths c) \<le> w_pathIdx w \<Longrightarrow>
    worker_step ctx (c, n, WTop w) (c, n, WPanic IndexOutOfRange)"
| w_select_done: "ctx \<Longrightarrow> worker_step ctx (c, n, WSelect w) (c, n, WDone)"
| w_select_standby: "standby_take now c = Some (c', Some i) \<Longrightarrow> worker_step ctx (c, n, WSelect w) (c', n, WReuse w i)"
| w_select_dead: "standby_take now c = Some (c', None) \<Longrightarrow> worker_step ctx (c, n, WSelect w) (c', n, WConnect w)"
| w_select_default: "\<not> ctx \<Longrightarrow> cl_standbyCh c = [] \<Longrightarrow> worker_step ctx (c, n, WSelect w) (c, n, WConnect w)"
| w_reuse_done: "ctx \<Longrightarrow> worker_step ctx (c, n, WReuse w i) (close_sid i (removeSession i c), n, WClosing ThenDone)"
| w_reuse: "\<not> ctx \<Longrightarrow> worker_step ctx (c, n, WReuse w i) (c, n, WAccept w i)"
| w_reuse_end: "cl_closed c i \<Longrightarrow> worker_turn (cl_paths c) b Reused w = Ok r \<Longrightarrow>
    worker_step ctx (c, n, WAccept w i) (close_sid i (removeSession i c), n, WClosing (ThenTop (tr_worker r)))"
| w_dial_err: "no_dial e \<Longrightarrow> connectAndServe e (worker_path c w) c = (c', ConnErr x) \<Longrightarrow>
    worker_step ctx (c, n, WConnect w) (c', n, WReturned w (Failed dur))"
| w_dial_panic: "no_dial e \<Longrightarrow> connectAndServe e (worker_path c w) c = (c', ConnPanic p) \<Longrightarrow>
    worker_step ctx (c, n, WConnect w) (c', n, WPanic p)"
| w_dial_tls: "trim_space (path_Addr (worker_path c w)) \<noteq> '''' \<Longrightarrow> dials_tls c (worker_path c w) \<Longrightarrow>
    worker_step ctx (c, n, WConnect w) (c, n, WTls w)"
| w_dial: "trim_space (path_Addr (worker_path c w)) \<noteq> '''' \<Longrightarrow> \<not> dials_tls c (worker_path c w) \<Longrightarrow>
    worker_step ctx (c, n, WConnect w) (c, n, WDialled w)"
| w_dialled_done: "ctx \<Longrightarrow> worker_step ctx (c, n, WDialled w) (c, n, WReturned w (Failed dur))"
| w_dialled: "\<not> ctx \<Longrightarrow> worker_step ctx (c, n, WDialled w) (c, n, WHandshake w)"
| w_connect_err: "dial_done e \<Longrightarrow> connectAndServe e (worker_path c w) c = (c', ConnErr x) \<Longrightarrow>
    worker_step ctx (c, n, WAnswered w) (c', n, WReturned w (Failed dur))"
| w_connect_panic: "dial_done e \<Longrightarrow> connectAndServe e (worker_path c w) c = (c', ConnPanic p) \<Longrightarrow>
    worker_step ctx (c, n, WAnswered w) (c', n, WPanic p)"
| w_connect: "dial_done e \<Longrightarrow> connectAndServe e (worker_path c w) c = (c', Session i ec cmp sc) \<Longrightarrow>
    worker_step ctx (c, n, WAnswered w) (c', n, WServe w i)"
| w_serve_end: "cl_closed c i \<Longrightarrow> serve_end i life c = (c', d) \<Longrightarrow>
    worker_step ctx (c, n, WServe w i) (c', n, WClosing (ThenReturned d w (Failed dur)))"
| w_close: "\<not> compression_on (cl_cfg c) \<Longrightarrow> worker_step ctx (c, n, WClosing a) (c, n, WClosed a)"
| w_closed: "worker_step ctx (c, n, WClosed a) (adjust_level (level_change a) c, n, resume a)"
| w_returned_done: "ctx \<Longrightarrow> worker_step ctx (c, n, WReturned w ev) (c, n, WDone)"
| w_returned: "\<not> ctx \<Longrightarrow> worker_turn (cl_paths c) (bestPath (cl_pathLatency c)) ev w = Ok r \<Longrightarrow>
    worker_step ctx (c, n, WReturned w ev) (adjust_level (tr_level r) c, n + tr_reconnects r, WWait (tr_worker r))"
| w_returned_panic: "\<not> ctx \<Longrightarrow> worker_turn (cl_paths c) (bestPath (cl_pathLatency c)) ev w = Panic p \<Longrightarrow>
    worker_step ctx (c, n, WReturned w ev) (c, n, WPanic p)"
| w_wait_done: "ctx \<Longrightarrow> worker_step ctx (c, n, WWait w) (c, n, WDone)"
| w_wait: "worker_step ctx (c, n, WWait w) (c, n, WTop w)"

inductive_cases w_acceptE: "worker_step ctx (c, n, WAccept w i) t"

text \<open>
  What ends the waits: a stream of the peer on a standby session, the answers of the peer in the handshakes (or
  the end of the connection), and the return of a \<open>Close\<close>.
\<close>

inductive peer_wakes :: "wphase \<Rightarrow> wphase \<Rightarrow> bool" where
  wake_stream: "peer_wakes (WAccept w i) (WReuse w i)"
| wake_tls: "peer_wakes (WTls w) (WDialled w)"
| wake_tls_failed: "peer_wakes (WTls w) (WReturned w (Failed dur))"
| wake_answer: "peer_wakes (WHandshake w) (WAnswered w)"
| wake_close: "peer_wakes (WClosing a) (WClosed a)"

section \<open>Standby manager, prober, health check\<close>

text \<open>
  \<open>SWait\<close>: the five seconds at the beginning and after a failed dial; \<open>SHandshake\<close>: the TLS and mimicry handshakes of
  \<open>dialSession\<close>, which wait for the peer without a deadline; \<open>SAnswered\<close>: they are over; \<open>SHold\<close>: the send of a
  fresh session; \<open>SClosing\<close>: its \<open>Close\<close> when the context ends first.
\<close>

datatype sphase = SWait | STop | SDial | SHandshake | SAnswered | SHold sid | SClosing | SPause | SDone | SPanic panic

inductive standby_step :: "bool \<Rightarrow> Client \<times> sphase \<Rightarrow> Client \<times> sphase \<Rightarrow> bool" for ctx where
  s_wait_done: "ctx \<Longrightarrow> standby_step ctx (c, SWait) (c, SDone)"
| s_wait: "standby_step ctx (c, SWait) (c, STop)"
| s_top_done: "ctx \<Longrightarrow> standby_step ctx (c, STop) (c, SDone)"
| s_top: "\<not> ctx \<Longrightarrow> standby_step ctx (c, STop) (c, SDial)"
| s_dial_err: "no_dial e \<Longrightarrow> dialSession e c = (c', ConnErr x) \<Longrightarrow> standby_step ctx (c, SDial) (c', SWait)"
| s_dial_panic: "no_dial e \<Longrightarrow> dialSession e c = (c', ConnPanic p) \<Longrightarrow> standby_step ctx (c, SDial) (c', SPanic p)"
| s_dial: "standby_step ctx (c, SDial) (c, SHandshake)"
| s_answer_err: "dialSession e c = (c', ConnErr x) \<Longrightarrow> standby_step ctx (c, SAnswered) (c', SWait)"
| s_answer_panic: "dialSession e c = (c', ConnPanic p) \<Longrightarrow> standby_step ctx (c, SAnswered) (c', SPanic p)"
| s_answer: "dialSession e c = (c', Session i ec cmp sc) \<Longrightarrow> standby_step ctx (c, SAnswered) (c', SHold i)"
| s_hold_done: "ctx \<Longrightarrow> standby_step ctx (c, SHold i) (close_sid i c, SClosing)"
| s_close: "\<not> compression_on (cl_cfg c) \<Longrightarrow> standby_step ctx (c, SClosing) (c, SDone)"
| s_hold: "standby_put i c = Some c' \<Longrightarrow> standby_step ctx (c, SHold i) (c', SPause)"
| s_pause_done: "ctx \<Longrightarrow> standby_step ctx (c, SPause) (c, SDone)"
| s_pause: "standby_step ctx (c, SPause) (c, STop)"

inductive standby_wakes :: "sphase \<Rightarrow> sphase \<Rightarrow> bool" where
  wake_standby: "standby_wakes SHandshake SAnswered"
| wake_standby_close: "standby_wakes SClosing SDone"

text \<open>\<open>PProbe k\<close>: before path \<open>k\<close> is looked at; \<open>PDial k\<close>: while it is dialled.\<close>

datatype pphase = PWait | PProbe nat | PDial nat | PDone | PPanic panic

inductive prober_step :: "bool \<Rightarrow> Client \<times> pphase \<Rightarrow> Client \<times> pphase \<Rightarrow> bool" for ctx where
  p_wait_done: "ctx \<Longrightarrow> prober_step ctx (c, PWait) (c, PDone)"
| p_wait: "prober_step ctx (c, PWait) (c, PProbe 0)"
| p_round: "length (cl_paths c) \<le> k \<Longrightarrow> prober_step ctx (c, PProbe k) (c, PWait)"
| p_probe_done: "ctx \<Longrightarrow> k < length (cl_paths c) \<Longrightarrow> prober_step ctx (c, PProbe k) (c, PDone)"
| p_probe: "\<not> ctx \<Longrightarrow> k < length (cl_paths c) \<Longrightarrow> prober_step ctx (c, PProbe k) (c, PDial k)"
| p_dial: "k < length (cl_pathLatency c) \<Longrightarrow> prober_step ctx (c, PDial k) (probe_path k rtt c, PProbe (Suc k))"
| p_dial_panic: "length (cl_pathLatency c) \<le> k \<Longrightarrow> prober_step ctx (c, PDial k) (c, PPanic IndexOutOfRange)"

text \<open>The last argument: whether the tick closes an expired session.\<close>

inductive health_tick :: "Client \<Rightarrow> Client \<Rightarrow> bool \<Rightarrow> bool" where
  h_clean: "health_tick c (clean_tick c) False"
| h_recycle: "health_tick c (recycle_tick now c) (oldest_expired now c \<noteq> None)"

section \<open>Start\<close>

text \<open>\<open>Spawning k\<close>: \<open>k\<close> workers are still to be started.  A panic of any goroutine ends the process.\<close>

datatype start_phase = Spawning nat | Blocking | Joining | StartReturned | Crashed

record life =
  lf_ctx :: bool
  lf_client :: Client
  lf_reconnects :: int
  lf_main :: start_phase
  lf_workers :: "wphase list"
  lf_standby :: sphase
  lf_prober :: pphase
  lf_health :: bool              \<comment> \<open>still running\<close>
  lf_recycling :: bool           \<comment> \<open>the health check is in the \<open>Close\<close> of an expired session\<close>
  lf_closers :: "sid list"       \<comment> \<open>goroutines of \<open>connectAndServe\<close> that wait for the context\<close>

definition life_start :: "Config \<Rightarrow> life outcome" where
  "life_start cfg =
     and_then (Start_pool (NewClient cfg)) (\<lambda>(c, n).
       Ok \<lparr>lf_ctx = False, lf_client = c, lf_reconnects = 0, lf_main = Spawning (nat n), lf_workers = [],
           lf_standby = SWait, lf_prober = PWait, lf_health = True, lf_recycling = False, lf_closers = []\<rparr>)"

definition life_over :: "life \<Rightarrow> bool" where
  "life_over L \<longleftrightarrow> lf_main L = StartReturned \<or> lf_main L = Crashed"

definition all_done :: "life \<Rightarrow> bool" where
  "all_done L \<longleftrightarrow> list_all (\<lambda>p. p = WDone) (lf_workers L) \<and> lf_standby L = SDone \<and> lf_prober L = PDone \<and> \<not> lf_health L"

fun wpanics :: "wphase \<Rightarrow> bool" where
  "wpanics (WPanic p) = True"
| "wpanics _ = False"

fun served :: "wphase \<Rightarrow> sid list" where
  "served (WServe w i) = [i]"
| "served _ = []"

text \<open>A worker that has connected starts the goroutine that closes its session.\<close>

definition new_closers :: "wphase \<Rightarrow> wphase \<Rightarrow> sid list \<Rightarrow> sid list" where
  "new_closers p p' is = (case p of WAnswered w \<Rightarrow> served p' @ is | _ \<Rightarrow> is)"

inductive life_step :: "life \<Rightarrow> life \<Rightarrow> bool" where
  l_spawn: "lf_main L = Spawning (Suc k) \<Longrightarrow>
    life_step L (L\<lparr>lf_main := Spawning k, lf_workers := lf_workers L @ [WStart]\<rparr>)"
| l_spawned: "lf_main L = Spawning 0 \<Longrightarrow> life_step L (L\<lparr>lf_main := Blocking\<rparr>)"
| l_stopping: "lf_main L = Blocking \<Longrightarrow> lf_ctx L \<Longrightarrow> life_step L (L\<lparr>lf_main := Joining\<rparr>)"
| l_joined: "lf_main L = Joining \<Longrightarrow> all_done L \<Longrightarrow> life_step L (L\<lparr>lf_main := StartReturned\<rparr>)"
| l_worker: "\<not> life_over L \<Longrightarrow> k < length (lf_workers L) \<Longrightarrow>
    worker_step (lf_ctx L) (lf_client L, lf_reconnects L, lf_workers L ! k) (c', n', p') \<Longrightarrow>
    life_step L (L\<lparr>lf_client := c', lf_reconnects := n', lf_workers := (lf_workers L)[k := p'],
      lf_closers := new_closers (lf_workers L ! k) p' (lf_closers L)\<rparr>)"
| l_standby: "\<not> life_over L \<Longrightarrow> standby_step (lf_ctx L) (lf_client L, lf_standby L) (c', p') \<Longrightarrow>
    life_step L (L\<lparr>lf_client := c', lf_standby := p'\<rparr>)"
| l_prober: "\<not> life_over L \<Longrightarrow> prober_step (lf_ctx L) (lf_client L, lf_prober L) (c', p') \<Longrightarrow>
    life_step L (L\<lparr>lf_client := c', lf_prober := p'\<rparr>)"
| l_health_done: "\<not> life_over L \<Longrightarrow> lf_health L \<Longrightarrow> lf_ctx L \<Longrightarrow>
    \<not> (lf_recycling L \<and> compression_on (cl_cfg (lf_client L))) \<Longrightarrow> life_step L (L\<lparr>lf_health := False\<rparr>)"
| l_closer: "\<not> life_over L \<Longrightarrow> lf_ctx L \<Longrightarrow> i \<in> set (lf_closers L) \<Longrightarrow>
    life_step L (L\<lparr>lf_client := close_sid i (lf_client L), lf_closers := remove1 i (lf_closers L)\<rparr>)"
| l_crash: "\<not> life_over L \<Longrightarrow>
    list_ex wpanics (lf_workers L) \<or> (\<exists>p. lf_standby L = SPanic p) \<or> (\<exists>p. lf_prober L = PPanic p) \<Longrightarrow>
    life_step L (L\<lparr>lf_main := Crashed\<rparr>)"

text \<open>
  What happens from outside: a tick of the health check and the return of the \<open>Close\<close> in it, the end of a session
  on the side of the peer, what ends the waits of workers and standby manager, an attempt of the DNS proxy to
  open a stream, and the cancellation of the context.
\<close>

inductive life_event :: "life \<Rightarrow> life \<Rightarrow> bool" where
  e_tick: "lf_health L \<Longrightarrow> \<not> lf_recycling L \<Longrightarrow> health_tick (lf_client L) c' b \<Longrightarrow>
    life_event L (L\<lparr>lf_client := c', lf_recycling := b\<rparr>)"
| e_recycled: "life_event L (L\<lparr>lf_recycling := False\<rparr>)"
| e_died: "life_event L (L\<lparr>lf_client := close_sid i (lf_client L)\<rparr>)"
| e_wake: "k < length (lf_workers L) \<Longrightarrow> peer_wakes (lf_workers L ! k) p' \<Longrightarrow>
    life_event L (L\<lparr>lf_workers := (lf_workers L)[k := p']\<rparr>)"
| e_standby: "standby_wakes (lf_standby L) p' \<Longrightarrow> life_event L (L\<lparr>lf_standby := p'\<rparr>)"
| e_open: "life_event L (L\<lparr>lf_client := (lf_client L)\<lparr>cl_sessIdx := cl_sessIdx (lf_client L) + 1\<rparr>\<rparr>)"
| e_cancel: "life_event L (L\<lparr>lf_ctx := True\<rparr>)"

inductive life_reachable :: "Config \<Rightarrow> life \<Rightarrow> bool" for cfg where
  life_init: "life_start cfg = Ok L \<Longrightarrow> life_reachable cfg L"
| life_next: "life_reachable cfg L \<Longrightarrow> life_step L L' \<Longrightarrow> life_reachable cfg L'"
| life_outside: "life_reachable cfg L \<Longrightarrow> life_event L L' \<Longrightarrow> life_reachable cfg L'"

section \<open>Which session is where\<close>

fun owned :: "wphase \<Rightarrow> sid list" where
  "owned (WReuse w i) = [i]"
| "owned (WAccept w i) = [i]"
| "owned (WServe w i) = [i]"
| "owned _ = []"

fun warm :: "wphase \<Rightarrow> sid list" where
  "warm (WReuse w i) = [i]"
| "warm (WAccept w i) = [i]"
| "warm _ = []"

fun held :: "sphase \<Rightarrow> sid list" where
  "held (SHold i) = [i]"
| "held _ = []"

definition sids :: "Client \<Rightarrow> sid list" where
  "sids c = map ps_session (cl_sessions c)"

text \<open>
  What a goroutine that owns the sessions \<open>own\<close> does to the sessions and the tables: it closes at most those,
  opens none again, and leaves the paths alone.
\<close>

definition closes :: "sid list \<Rightarrow> Client \<Rightarrow> Client \<Rightarrow> bool" where
  "closes own c c' \<longleftrightarrow> cl_paths c' = cl_paths c \<and> cl_next c \<le> cl_next c' \<and>
     (\<forall>i < cl_next c. (cl_closed c i \<longrightarrow> cl_closed c' i) \<and> (cl_closed c' i \<longrightarrow> cl_closed c i \<or> i \<in> set own))"

definition same_sids :: "Client \<Rightarrow> Client \<Rightarrow> bool" where
  "same_sids c c' \<longleftrightarrow> sids c' = sids c \<and> cl_standbyCh c' = cl_standbyCh c \<and> cl_next c' = cl_next c"

lemma connectAndServe_failed:
  "connectAndServe e p c = (c', ConnErr x) \<Longrightarrow> c' = c" "connectAndServe e p c = (c', ConnPanic q) \<Longrightarrow> c' = c"
  by (auto simp: connectAndServe_def Let_def split: if_splits outcome.splits option.splits prod.splits)

lemma dialSession_failed:
  "dialSession e c = (c', ConnErr x) \<Longrightarrow> c' = c" "dialSession e c = (c', ConnPanic q) \<Longrightarrow> c' = c"
  by (auto simp: dialSession_def Let_def split: if_splits outcome.splits prod.splits)

lemma adjust_level_sel [simp]:
  "cl_sessions (adjust_level d c) = cl_sessions c" "cl_standbyCh (adjust_level d c) = cl_standbyCh c"
  "cl_next (adjust_level d c) = cl_next c" "cl_paths (adjust_level d c) = cl_paths c"
  "cl_closed (adjust_level d c) = cl_closed c"
  by (simp_all add: adjust_level_def)

lemma sids_adjust [simp]: "sids (adjust_level d c) = sids c"
  by (simp add: sids_def)

lemma pool_inv_adjust: "pool_inv cfg c \<Longrightarrow> pool_inv cfg (adjust_level d c)"
  using pool_inv_step [OF pool_op.adjusted] by (simp add: adjust_level_def)

definition release :: "sid \<Rightarrow> Client \<Rightarrow> Client" where
  "release i c = close_sid i (removeSession i c)"

lemma release_sel [simp]:
  "sids (release i c) = remove1 i (sids c)" "cl_standbyCh (release i c) = cl_standbyCh c"
  "cl_next (release i c) = cl_next c" "cl_paths (release i c) = cl_paths c"
  "cl_closed (release i c) j = (j = i \<or> cl_closed c j)"
  by (auto simp: release_def close_sid_def removeSession_def sids_def remove_first_sids)

lemma pool_inv_release: "pool_inv cfg c \<Longrightarrow> pool_inv cfg (release i c)"
  using pool_inv_step [OF pool_op.ended [of i 0 c]] by (simp add: serve_end_def release_def)

lemma resume_none: "owned (resume a) = []" "warm (resume a) = []" "served (resume a) = []"
  by (cases a; simp)+

text \<open>How a worker moves sessions: not at all, from the standby channel, by connecting, or by letting one go.\<close>

lemma worker_effect:
  assumes "worker_step ctx (c, n, p) (c', n', p')" "pool_inv cfg c"
  shows "pool_inv cfg c' \<and> closes (owned p) c c' \<and>
    (same_sids c c' \<and> owned p' = owned p \<and> warm p' = warm p \<or>
     (\<exists>i. cl_standbyCh c = i # cl_standbyCh c' \<and> cl_next c' = cl_next c \<and> owned p = [] \<and> served p' = [] \<and>
       (sids c' = sids c \<and> owned p' = [] \<or> sids c' = sids c @ [i] \<and> owned p' = [i] \<and> warm p' = [i])) \<or>
     sids c' = sids c @ [cl_next c] \<and> cl_standbyCh c' = cl_standbyCh c \<and> cl_next c' = Suc (cl_next c) \<and>
       (\<exists>w. p = WAnswered w \<and> p' = WServe w (cl_next c)) \<or>
     (\<exists>i. owned p = [i] \<and> owned p' = [] \<and> sids c' = remove1 i (sids c) \<and> cl_standbyCh c' = cl_standbyCh c \<and>
       cl_next c' = cl_next c))"
  using assms
proof (cases rule: worker_step.cases)
  case (w_select_standby now i w)
  then show ?thesis
    using pool_inv_step [OF pool_op.standby_used assms(2)]
    by (auto simp: standby_take_def Let_def closes_def sids_def addSession_def split: list.splits if_splits)
next
  case (w_select_dead now w)
  then show ?thesis
    using pool_inv_step [OF pool_op.standby_used assms(2)]
    by (auto simp: standby_take_def Let_def closes_def sids_def split: list.splits if_splits)
next
  case (w_connect e w i ec cmp sc)
  then show ?thesis
    using pool_inv_step [OF pool_op.connect assms(2)] connectAndServe_Session [OF w_connect(5)]
    by (auto simp: new_session_def addSession_def sids_def closes_def)
next
  case (w_reuse_done w i)
  then show ?thesis
    using pool_inv_release [OF assms(2), of i] by (simp add: release_def [symmetric] closes_def)
next
  case (w_reuse_end i b w r)
  then show ?thesis
    using pool_inv_release [OF assms(2), of i] by (simp add: release_def [symmetric] closes_def)
next
  case (w_serve_end i life d w dur)
  then show ?thesis
    using pool_inv_release [OF assms(2), of i]
    by (auto simp: serve_end_def release_def [symmetric] closes_def)
next
  case (w_closed a)
  then show ?thesis using assms(2) by (simp add: closes_def same_sids_def pool_inv_adjust resume_none)
next
  case (w_returned w ev r)
  then show ?thesis using assms(2) by (simp add: closes_def same_sids_def pool_inv_adjust)
qed (auto simp: closes_def same_sids_def dest: connectAndServe_failed)

lemma standby_effect:
  assumes "standby_step ctx (c, p) (c', p')" "pool_inv cfg c" "set (held p) \<inter> set (pool_sids c) = {}" "\<forall>i \<in> set (held p). i < cl_next c"
  shows "pool_inv cfg c' \<and> closes (held p) c c' \<and> sids c' = sids c \<and>
    (cl_standbyCh c' = cl_standbyCh c \<and> cl_next c' = cl_next c \<and> (held p' = held p \<or> held p' = []) \<or>
     cl_standbyCh c' = cl_standbyCh c \<and> cl_next c' = Suc (cl_next c) \<and> held p = [] \<and> held p' = [cl_next c] \<or>
     cl_standbyCh c = [] \<and> cl_standbyCh c' = held p \<and> held p' = [] \<and> cl_next c' = cl_next c)"
  using assms
proof (cases rule: standby_step.cases)
  case (s_answer e i ec cmp sc)
  then show ?thesis
    using pool_inv_new [OF assms(2) dialSession_Session [OF s_answer(3)]] dialSession_Session [OF s_answer(3)]
    by (auto simp: new_session_def closes_def sids_def)
next
  case (s_hold i)
  then show ?thesis
    using assms(2-) by (auto simp: standby_put_def closes_def sids_def pool_inv_def pool_sids_def split: if_splits)
next
  case (s_hold_done i)
  then show ?thesis using assms(2) by (auto simp: closes_def sids_def close_sid_def)
qed (use assms(2) in \<open>auto simp: closes_def dest: dialSession_failed\<close>)

lemma prober_effect:
  assumes "prober_step ctx (c, p) (c', p')" "pool_inv cfg c"
  shows "pool_inv cfg c' \<and> closes [] c c' \<and> same_sids c c'"
  using assms
proof (cases rule: prober_step.cases)
  case (p_dial k rtt)
  then show ?thesis
    using pool_inv_step [OF pool_op.probed assms(2)] by (simp add: closes_def same_sids_def probe_path_def sids_def)
qed (simp_all add: closes_def same_sids_def)

text \<open>What the peer ends leaves the sessions with their owners.\<close>

lemma wakes_same: "peer_wakes p p' \<Longrightarrow> owned p' = owned p \<and> warm p' = warm p \<and> served p' = served p"
  by (induction rule: peer_wakes.induct) simp_all

lemma standby_wakes_same: "standby_wakes p p' \<Longrightarrow> held p' = held p"
  by (induction rule: standby_wakes.induct) simp_all

lemma map_concat_same: "k < length ws \<Longrightarrow> f p' = f (ws ! k) \<Longrightarrow> concat (map f (ws[k := p'])) = concat (map f ws)"
  by (metis list_update_id map_update)

section \<open>The invariant\<close>

definition owned_sids :: "life \<Rightarrow> sid list" where
  "owned_sids L = concat (map owned (lf_workers L))"

definition life_sids :: "life \<Rightarrow> sid list" where
  "life_sids L = owned_sids L @ cl_standbyCh (lf_client L) @ held (lf_standby L)"

text \<open>Every session the client keeps has exactly one owner, and those in the pool belong to workers.\<close>

definition inv_sids :: "Config \<Rightarrow> life \<Rightarrow> bool" where
  "inv_sids cfg L \<longleftrightarrow> pool_inv cfg (lf_client L) \<and> distinct (life_sids L) \<and>
     (\<forall>i \<in> set (life_sids L). i < cl_next (lf_client L)) \<and> set (sids (lf_client L)) \<subseteq> set (owned_sids L)"

lemma concat_update:
  assumes "k < length ws"
  shows "\<exists>A B. concat (map f ws) = A @ f (ws ! k) @ B \<and> (\<forall>p. concat (map f (ws[k := p])) = A @ f p @ B)"
proof -
  have "concat (map f ws) = concat (map f (take k ws)) @ f (ws ! k) @ concat (map f (drop (Suc k) ws))"
    using arg_cong [OF id_take_nth_drop [OF assms], of "\<lambda>xs. concat (map f xs)"] by simp
  moreover have "concat (map f (ws[k := p])) = concat (map f (take k ws)) @ f p @ concat (map f (drop (Suc k) ws))" for p
    by (simp add: upd_conv_take_nth_drop [OF assms])
  ultimately show ?thesis by blast
qed

lemma pool_inv_distinct: "pool_inv cfg c \<Longrightarrow> distinct (sids c) \<and> (\<forall>i \<in> set (sids c). i < cl_next c)"
  by (auto simp: pool_inv_def pool_sids_def sids_def)

lemma inv_sids_worker:
  assumes "inv_sids cfg L" "k < length (lf_workers L)"
    and "worker_step ctx (lf_client L, n, lf_workers L ! k) (c', n', p')"
  shows "inv_sids cfg (L\<lparr>lf_client := c', lf_reconnects := n'', lf_workers := (lf_workers L)[k := p'], lf_closers := cs\<rparr>)"
proof -
  let ?c = "lf_client L" and ?ws = "lf_workers L"
  have inv: "pool_inv cfg ?c" "distinct (life_sids L)" "\<forall>i \<in> set (life_sids L). i < cl_next ?c"
    "set (sids ?c) \<subseteq> set (owned_sids L)" using assms(1) by (auto simp: inv_sids_def)
  obtain A B where o: "owned_sids L = A @ owned (?ws ! k) @ B" "\<And>p. concat (map owned (?ws[k := p])) = A @ owned p @ B"
    unfolding owned_sids_def using concat_update [OF assms(2)] by metis
  note eff = worker_effect [OF assms(3) inv(1)] and d = pool_inv_distinct [OF inv(1)]
  have c': "pool_inv cfg c'" "cl_next ?c \<le> cl_next c'" using eff by (auto simp: closes_def)
  from eff consider "same_sids ?c c'" "owned p' = owned (?ws ! k)"
    | i where "cl_standbyCh ?c = i # cl_standbyCh c'" "owned (?ws ! k) = []" "cl_next c' = cl_next ?c"
        "sids c' = sids ?c \<and> owned p' = [] \<or> sids c' = sids ?c @ [i] \<and> owned p' = [i]"
    | "sids c' = sids ?c @ [cl_next ?c]" "cl_standbyCh c' = cl_standbyCh ?c" "cl_next c' = Suc (cl_next ?c)"
        "owned (?ws ! k) = []" "owned p' = [cl_next ?c]"
    | i where "owned (?ws ! k) = [i]" "owned p' = []" "sids c' = remove1 i (sids ?c)" "cl_standbyCh c' = cl_standbyCh ?c"
        "cl_next c' = cl_next ?c"
    by fastforce
  then show ?thesis
    using inv d c'(1) by cases (auto simp: inv_sids_def life_sids_def owned_sids_def [of "L\<lparr>lf_client := _, lf_reconnects := _, lf_workers := _, lf_closers := _\<rparr>"] o same_sids_def less_Suc_eq)
qed

lemma inv_sids_standby:
  assumes "inv_sids cfg L" "standby_step ctx (lf_client L, lf_standby L) (c', p')"
  shows "inv_sids cfg (L\<lparr>lf_client := c', lf_standby := p'\<rparr>)"
proof -
  let ?c = "lf_client L"
  have inv: "pool_inv cfg ?c" "distinct (life_sids L)" "\<forall>i \<in> set (life_sids L). i < cl_next ?c"
    "set (sids ?c) \<subseteq> set (owned_sids L)" using assms(1) by (auto simp: inv_sids_def)
  have "set (held (lf_standby L)) \<inter> set (pool_sids ?c) = {}"
    using inv(2,4) by (auto simp: life_sids_def pool_sids_def sids_def)
  moreover have "\<forall>i \<in> set (held (lf_standby L)). i < cl_next ?c" using inv(3) by (simp add: life_sids_def)
  ultimately have "pool_inv cfg c' \<and> sids c' = sids ?c \<and>
    (cl_standbyCh c' = cl_standbyCh ?c \<and> cl_next c' = cl_next ?c \<and> (held p' = held (lf_standby L) \<or> held p' = []) \<or>
     cl_standbyCh c' = cl_standbyCh ?c \<and> cl_next c' = Suc (cl_next ?c) \<and> held p' = [cl_next ?c] \<or>
     cl_standbyCh c' = held (lf_standby L) \<and> held p' = [] \<and> cl_next c' = cl_next ?c)"
    using standby_effect [OF assms(2) inv(1)] by blast
  then show ?thesis
    using inv by (auto simp: inv_sids_def life_sids_def owned_sids_def less_Suc_eq)
qed

lemma inv_sids_client:
  assumes "inv_sids cfg L" "pool_inv cfg c'" "set (sids c') \<subseteq> set (sids (lf_client L))"
    "cl_standbyCh c' = cl_standbyCh (lf_client L)" "cl_next c' = cl_next (lf_client L)"
  shows "inv_sids cfg (L\<lparr>lf_client := c'\<rparr>)"
  using assms by (auto simp: inv_sids_def life_sids_def owned_sids_def)

lemma inv_sids_more [simp]:
  "inv_sids cfg (L\<lparr>lf_main := m\<rparr>) = inv_sids cfg L" "inv_sids cfg (L\<lparr>lf_ctx := b\<rparr>) = inv_sids cfg L"
  "inv_sids cfg (L\<lparr>lf_health := h\<rparr>) = inv_sids cfg L" "inv_sids cfg (L\<lparr>lf_closers := cs\<rparr>) = inv_sids cfg L"
  "inv_sids cfg (L\<lparr>lf_prober := pp\<rparr>) = inv_sids cfg L" "inv_sids cfg (L\<lparr>lf_recycling := h\<rparr>) = inv_sids cfg L"
  by (simp_all add: inv_sids_def life_sids_def owned_sids_def)

lemma close_sid_keeps: "pool_inv cfg c \<Longrightarrow> pool_inv cfg (close_sid i c)"
  "sids (close_sid i c) = sids c" "cl_standbyCh (close_sid i c) = cl_standbyCh c" "cl_next (close_sid i c) = cl_next c"
  by (simp_all add: close_sid_def sids_def)

lemma inv_sids_close: "inv_sids cfg L \<Longrightarrow> inv_sids cfg (L\<lparr>lf_client := close_sid i (lf_client L)\<rparr>)"
  by (rule inv_sids_client) (simp_all add: close_sid_keeps inv_sids_def)

lemma health_tick_effect:
  "health_tick c c' b \<Longrightarrow> pool_inv cfg c \<Longrightarrow> pool_inv cfg c' \<and> set (sids c') \<subseteq> set (sids c) \<and> cl_standbyCh c' = cl_standbyCh c \<and>
     cl_next c' = cl_next c \<and> cl_paths c' = cl_paths c \<and> (\<forall>i. cl_closed c i \<longrightarrow> cl_closed c' i)"
proof (induction rule: health_tick.induct)
  case (h_clean c)
  then show ?case using pool_inv_step [OF pool_op.cleaned] by (auto simp: clean_tick_def sids_def)
next
  case (h_recycle c now)
  then show ?case
    using pool_inv_step [OF pool_op.recycled] by (auto simp: recycle_tick_def close_sid_def sids_def split: option.split)
qed

lemma opened_effect:
  assumes "pool_inv cfg c"
  shows "pool_inv cfg (c\<lparr>cl_sessIdx := k\<rparr>) \<and> closes [] c (c\<lparr>cl_sessIdx := k\<rparr>) \<and> same_sids c (c\<lparr>cl_sessIdx := k\<rparr>)"
  using assms by (auto simp: pool_inv_def pool_sids_def closes_def same_sids_def sids_def)

lemma inv_sids_step: "life_step L L' \<Longrightarrow> inv_sids cfg L \<Longrightarrow> inv_sids cfg L'"
proof (induction rule: life_step.induct)
  case (l_spawn L k)
  then show ?case by (simp add: inv_sids_def life_sids_def owned_sids_def)
next
  case (l_prober L c' p')
  have "inv_sids cfg (L\<lparr>lf_client := c'\<rparr>)"
    using prober_effect [OF l_prober.hyps(2)] l_prober.prems by (intro inv_sids_client) (auto simp: inv_sids_def same_sids_def)
  then show ?case by simp
next
  case (l_closer L i)
  then show ?case by (simp add: inv_sids_close)
next
  case (l_worker L k c' n' p')
  show ?case by (rule inv_sids_worker [OF l_worker.prems l_worker.hyps(2,3)])
qed (simp_all add: inv_sids_standby)

lemma inv_sids_event: "life_event L L' \<Longrightarrow> inv_sids cfg L \<Longrightarrow> inv_sids cfg L'"
proof (induction rule: life_event.induct)
  case (e_tick L c' b)
  then have "pool_inv cfg (lf_client L)" by (simp add: inv_sids_def)
  from health_tick_effect [OF e_tick.hyps(3) this] have "inv_sids cfg (L\<lparr>lf_client := c'\<rparr>)"
    using e_tick.prems by (intro inv_sids_client) auto
  then show ?case by simp
next
  case (e_wake k L p')
  then have "concat (map owned ((lf_workers L)[k := p'])) = owned_sids L"
    unfolding owned_sids_def using wakes_same by (intro map_concat_same) auto
  then show ?case using e_wake.prems by (simp add: inv_sids_def life_sids_def owned_sids_def)
next
  case (e_standby L p')
  then show ?case using standby_wakes_same [OF e_standby.hyps] by (simp add: inv_sids_def life_sids_def owned_sids_def)
next
  case (e_open L)
  then show ?case using opened_effect [of cfg "lf_client L"]
    by (intro inv_sids_client) (auto simp: inv_sids_def same_sids_def)
qed (simp_all add: inv_sids_close)

lemma life_start_Ok:
  assumes "life_start cfg = Ok L"
  shows "\<exists>c n. Start_pool (NewClient cfg) = Ok (c, n) \<and> L = \<lparr>lf_ctx = False, lf_client = c, lf_reconnects = 0,
    lf_main = Spawning (nat n), lf_workers = [], lf_standby = SWait, lf_prober = PWait, lf_health = True, lf_recycling = False, lf_closers = []\<rparr>"
  using assms by (cases "Start_pool (NewClient cfg)") (auto simp: life_start_def)

lemma reachable_sids: "life_reachable cfg L \<Longrightarrow> inv_sids cfg L"
proof (induction rule: life_reachable.induct)
  case (life_init L)
  from life_start_Ok [OF this] obtain c n where s: "Start_pool (NewClient cfg) = Ok (c, n)"
    and L: "L = \<lparr>lf_ctx = False, lf_client = c, lf_reconnects = 0, lf_main = Spawning (nat n), lf_workers = [],
      lf_standby = SWait, lf_prober = PWait, lf_health = True, lf_recycling = False, lf_closers = []\<rparr>" by blast
  have "cl_sessions c = [] \<and> cl_standbyCh c = []"
    using s by (auto simp: Start_pool_def NewClient_def Let_def split: list.splits if_splits)
  then show ?case using Start_pool_inv [OF s] by (simp add: L inv_sids_def life_sids_def owned_sids_def sids_def)
qed (auto intro: inv_sids_step inv_sids_event)

text \<open>
  The goroutines that wait for the context close sessions made by \<open>connectAndServe\<close>, all of them, and no session
  that came through the standby channel.
\<close>

definition close_ok :: "sid set \<Rightarrow> sid set \<Rightarrow> sid set \<Rightarrow> nat \<Rightarrow> (sid \<Rightarrow> bool) \<Rightarrow> bool" where
  "close_ok closers stby serving n cl \<longleftrightarrow> closers \<inter> stby = {} \<and> (\<forall>i \<in> closers. i < n) \<and>
     (\<forall>i \<in> serving. i \<in> closers \<or> cl i)"

lemma close_ok_fired:
  assumes "C - {i} \<subseteq> C''" "close_ok C W S n cl" "C'' \<subseteq> C"
  shows "close_ok C'' W S n (cl(i := True))"
  using assms unfolding close_ok_def by auto

definition warm_set :: "life \<Rightarrow> sid set" where
  "warm_set L = set (concat (map warm (lf_workers L))) \<union> set (cl_standbyCh (lf_client L)) \<union> set (held (lf_standby L))"

definition inv_close :: "life \<Rightarrow> bool" where
  "inv_close L \<longleftrightarrow> close_ok (set (lf_closers L)) (warm_set L) (set (concat (map served (lf_workers L))))
     (cl_next (lf_client L)) (cl_closed (lf_client L))"

lemma close_ok_mono:
  "close_ok C W S n cl \<Longrightarrow> W' \<subseteq> W \<union> {n..} \<Longrightarrow> S' \<subseteq> S \<Longrightarrow> n \<le> n' \<Longrightarrow> \<forall>i \<in> S. cl i \<longrightarrow> cl' i \<Longrightarrow> close_ok C W' S' n' cl'"
  unfolding close_ok_def by force

lemma update_subset: "set (concat (map f (ws[k := p]))) \<subseteq> set (concat (map f ws)) \<union> set (f p)"
  using set_update_subset_insert [of ws k p] by fastforce

lemma served_owned: "served p = (if warm p = [] then owned p else [])"
  by (cases p) simp_all

lemma warm_owned: "set (warm p) \<subseteq> set (owned p)"
  by (cases p) simp_all

lemma warm_sids: "set (concat (map warm (lf_workers L))) \<subseteq> set (life_sids L)"
  using warm_owned by (fastforce simp: life_sids_def owned_sids_def)

lemma served_sids: "set (concat (map served (lf_workers L))) \<subseteq> set (life_sids L)"
  by (fastforce simp: life_sids_def owned_sids_def served_owned split: if_splits)

lemma inv_sids_below:
  assumes "inv_sids cfg L"
  shows "warm_set L \<subseteq> {..< cl_next (lf_client L)}" "set (concat (map served (lf_workers L))) \<subseteq> {..< cl_next (lf_client L)}"
  using assms warm_sids [of L] served_sids [of L] by (auto simp: inv_sids_def warm_set_def life_sids_def)

lemma inv_close_worker:
  assumes "inv_close L" "inv_sids cfg L" "k < length (lf_workers L)"
    and "worker_step ctx (lf_client L, n, lf_workers L ! k) (c', n', p')"
  shows "inv_close (L\<lparr>lf_client := c', lf_reconnects := n'', lf_workers := (lf_workers L)[k := p'],
    lf_closers := new_closers (lf_workers L ! k) p' (lf_closers L)\<rparr>)" (is "inv_close ?L'")
proof -
  let ?c = "lf_client L" and ?ws = "lf_workers L" and ?p = "lf_workers L ! k"
  let ?served = "set (concat (map served ?ws))"
  have inv: "pool_inv cfg ?c" using assms(2) by (simp add: inv_sids_def)
  have ok: "close_ok (set (lf_closers L)) (warm_set L) ?served (cl_next ?c) (cl_closed ?c)"
    using assms(1) by (simp only: inv_close_def)
  note eff = worker_effect [OF assms(4) inv] and below = inv_sids_below [OF assms(2)]
  have mono: "\<forall>i \<in> ?served. cl_closed ?c i \<longrightarrow> cl_closed c' i" "cl_next ?c \<le> cl_next c'"
    using eff below(2) by (auto simp: closes_def)
  have sub: "set (concat (map warm (?ws[k := p']))) \<subseteq> set (concat (map warm ?ws)) \<union> set (warm p')"
    "set (concat (map served (?ws[k := p']))) \<subseteq> ?served \<union> set (served p')" by (rule update_subset)+
  have mem: "set (warm ?p) \<subseteq> warm_set L" "set (served ?p) \<subseteq> ?served"
    using nth_mem [OF assms(3)] by (auto simp: warm_set_def)
  have W': "warm_set ?L' = set (concat (map warm (?ws[k := p']))) \<union> set (cl_standbyCh c') \<union> set (held (lf_standby L))"
    by (simp add: warm_set_def)
  have same: ?thesis if "new_closers ?p p' (lf_closers L) = lf_closers L"
    "set (warm p') \<subseteq> warm_set L" "set (served p') \<subseteq> ?served" "set (cl_standbyCh c') \<subseteq> set (cl_standbyCh ?c)"
  proof -
    have "warm_set ?L' \<subseteq> warm_set L" using sub(1) that(2,4) unfolding W' warm_set_def [of L] by blast
    then have "close_ok (set (lf_closers L)) (warm_set ?L') (set (concat (map served (?ws[k := p'])))) (cl_next c') (cl_closed c')"
      using sub(2) that(3) mono by (intro close_ok_mono [OF ok]) auto
    then show ?thesis by (simp add: inv_close_def that(1))
  qed
  have nc: "new_closers ?p p' (lf_closers L) = lf_closers L" if "served p' = [] \<or> owned ?p \<noteq> []"
    using that by (auto simp: new_closers_def split: wphase.split)
  from eff consider "same_sids ?c c'" "owned p' = owned ?p" "warm p' = warm ?p"
    | i where "cl_standbyCh ?c = i # cl_standbyCh c'" "served p' = []" "set (warm p') \<subseteq> {i}"
    | w where "cl_standbyCh c' = cl_standbyCh ?c" "cl_next c' = Suc (cl_next ?c)" "?p = WAnswered w" "p' = WServe w (cl_next ?c)"
    | i where "owned ?p = [i]" "owned p' = []" "cl_standbyCh c' = cl_standbyCh ?c"
    using warm_owned [of p'] by fastforce
  then show ?thesis
  proof cases
    case 1
    then have "served p' = served ?p" by (simp add: served_owned)
    moreover have "served p' = [] \<or> owned ?p \<noteq> []" using 1 by (simp add: served_owned)
    ultimately show ?thesis using 1 mem by (intro same nc) (auto simp: same_sids_def)
  next
    case 2
    then have "set (warm p') \<subseteq> warm_set L" by (auto simp: warm_set_def)
    then show ?thesis using 2 by (intro same nc) auto
  next
    case 3
    have n: "new_closers ?p p' (lf_closers L) = cl_next ?c # lf_closers L" using 3 by (simp add: new_closers_def)
    have "warm_set ?L' \<subseteq> warm_set L" using sub(1) 3 unfolding W' warm_set_def [of L] by auto
    moreover have "cl_next ?c \<notin> warm_set L" using below(1) by auto
    ultimately have "set (cl_next ?c # lf_closers L) \<inter> warm_set ?L' = {}" using ok unfolding close_ok_def by auto
    moreover have "\<forall>i \<in> set (concat (map served (?ws[k := p']))). i \<in> set (cl_next ?c # lf_closers L) \<or> cl_closed c' i"
    proof
      fix i assume "i \<in> set (concat (map served (?ws[k := p'])))"
      then have "i \<in> ?served \<or> i = cl_next ?c" using sub(2) 3(4) by auto
      then show "i \<in> set (cl_next ?c # lf_closers L) \<or> cl_closed c' i"
        using ok mono(1) unfolding close_ok_def list.set by blast
    qed
    moreover have "\<forall>i \<in> set (cl_next ?c # lf_closers L). i < cl_next c'" using ok 3(2) unfolding close_ok_def by auto
    ultimately have "close_ok (set (cl_next ?c # lf_closers L)) (warm_set ?L') (set (concat (map served (?ws[k := p']))))
      (cl_next c') (cl_closed c')" unfolding close_ok_def by blast
    then show ?thesis by (simp add: inv_close_def n)
  next
    case 4
    then have "warm p' = []" "served p' = []" using warm_owned [of p'] by (auto simp: served_owned)
    then show ?thesis using 4 by (intro same nc) auto
  qed
qed

lemma inv_close_more [simp]:
  "inv_close (L\<lparr>lf_main := m\<rparr>) = inv_close L" "inv_close (L\<lparr>lf_ctx := b\<rparr>) = inv_close L"
  "inv_close (L\<lparr>lf_health := h\<rparr>) = inv_close L" "inv_close (L\<lparr>lf_prober := pp\<rparr>) = inv_close L"
  "inv_close (L\<lparr>lf_recycling := h\<rparr>) = inv_close L"
  by (simp_all add: inv_close_def warm_set_def)

lemma inv_close_weaken:
  assumes "inv_close L" "inv_sids cfg L" "lf_closers L' = lf_closers L" "lf_workers L' = lf_workers L"
    "warm_set L' \<subseteq> warm_set L \<union> {cl_next (lf_client L)..}" "cl_next (lf_client L) \<le> cl_next (lf_client L')"
    "\<forall>i < cl_next (lf_client L). cl_closed (lf_client L) i \<longrightarrow> cl_closed (lf_client L') i"
  shows "inv_close L'"
  using assms(1) unfolding inv_close_def assms(3,4)
  by (rule close_ok_mono) (use assms inv_sids_below [OF assms(2)] in auto)

lemma inv_close_client:
  assumes "inv_close L" "inv_sids cfg L" "cl_standbyCh c' = cl_standbyCh (lf_client L)" "cl_next c' = cl_next (lf_client L)"
    "\<forall>i < cl_next (lf_client L). cl_closed (lf_client L) i \<longrightarrow> cl_closed c' i"
  shows "inv_close (L\<lparr>lf_client := c'\<rparr>)"
  using assms(1,2) by (rule inv_close_weaken) (use assms(3-5) in \<open>simp_all add: warm_set_def\<close>)

lemma inv_close_standby:
  assumes "inv_close L" "inv_sids cfg L" "standby_step ctx (lf_client L, lf_standby L) (c', p')"
  shows "inv_close (L\<lparr>lf_client := c', lf_standby := p'\<rparr>)"
proof -
  let ?c = "lf_client L"
  have inv: "pool_inv cfg ?c" "distinct (life_sids L)" "\<forall>i \<in> set (life_sids L). i < cl_next ?c"
    "set (sids ?c) \<subseteq> set (owned_sids L)" using assms(2) by (auto simp: inv_sids_def)
  have "set (held (lf_standby L)) \<inter> set (pool_sids ?c) = {}"
    using inv(2,4) by (auto simp: life_sids_def pool_sids_def sids_def)
  moreover have "\<forall>i \<in> set (held (lf_standby L)). i < cl_next ?c" using inv(3) by (simp add: life_sids_def)
  ultimately have eff: "closes (held (lf_standby L)) ?c c'" "cl_next ?c \<le> cl_next c'"
    "set (cl_standbyCh c') \<union> set (held p') \<subseteq> set (cl_standbyCh ?c) \<union> set (held (lf_standby L)) \<union> {cl_next ?c}"
    using standby_effect [OF assms(3) inv(1)] by fastforce+
  from assms(1,2) show ?thesis
    by (rule inv_close_weaken) (use eff in \<open>auto simp: warm_set_def closes_def\<close>)
qed

lemma inv_close_step: "life_step L L' \<Longrightarrow> inv_close L \<Longrightarrow> inv_sids cfg L \<Longrightarrow> inv_close L'"
proof (induction rule: life_step.induct)
  case (l_spawn L k)
  then show ?case by (simp add: inv_close_def warm_set_def)
next
  case (l_worker L k c' n' p')
  show ?case by (rule inv_close_worker [OF l_worker.prems l_worker.hyps(2,3)])
next
  case (l_standby L c' p')
  show ?case by (rule inv_close_standby [OF l_standby.prems l_standby.hyps(2)])
next
  case (l_prober L c' p')
  have "inv_close (L\<lparr>lf_client := c'\<rparr>)"
    using prober_effect [OF l_prober.hyps(2)] l_prober.prems
    by (intro inv_close_client) (auto simp: inv_sids_def same_sids_def closes_def)
  then show ?case by simp
next
  case (l_closer L i)
  have "set (lf_closers L) - {i} \<subseteq> set (remove1 i (lf_closers L))" using in_set_remove1 by fast
  then have "close_ok (set (remove1 i (lf_closers L))) (warm_set L) (set (concat (map served (lf_workers L))))
      (cl_next (lf_client L)) ((cl_closed (lf_client L))(i := True))"
    using l_closer.prems(1) set_remove1_subset unfolding inv_close_def by (rule close_ok_fired)
  then show ?case by (simp add: inv_close_def warm_set_def close_sid_def)
qed simp_all

lemma inv_close_event: "life_event L L' \<Longrightarrow> inv_close L \<Longrightarrow> inv_sids cfg L \<Longrightarrow> inv_close L'"
proof (induction rule: life_event.induct)
  case (e_tick L c' b)
  then have "pool_inv cfg (lf_client L)" by (simp add: inv_sids_def)
  from health_tick_effect [OF e_tick.hyps(3) this] have "inv_close (L\<lparr>lf_client := c'\<rparr>)"
    using e_tick.prems by (intro inv_close_client) auto
  then show ?case by simp
next
  case (e_died L i)
  then show ?case by (intro inv_close_client) (auto simp: close_sid_def)
next
  case (e_wake k L p')
  then have "concat (map warm ((lf_workers L)[k := p'])) = concat (map warm (lf_workers L))"
    "concat (map served ((lf_workers L)[k := p'])) = concat (map served (lf_workers L))"
    using wakes_same by (auto intro!: map_concat_same)
  then show ?case using e_wake.prems by (simp add: inv_close_def warm_set_def)
next
  case (e_standby L p')
  then show ?case using standby_wakes_same [OF e_standby.hyps] by (simp add: inv_close_def warm_set_def)
next
  case (e_open L)
  then have "pool_inv cfg (lf_client L)" by (simp add: inv_sids_def)
  from opened_effect [OF this] show ?case
    using e_open.prems by (intro inv_close_client) (auto simp: same_sids_def closes_def)
qed simp_all

lemma reachable_close: "life_reachable cfg L \<Longrightarrow> inv_close L"
proof (induction rule: life_reachable.induct)
  case (life_init L)
  then obtain c n where "Start_pool (NewClient cfg) = Ok (c, n)"
    and L: "L = \<lparr>lf_ctx = False, lf_client = c, lf_reconnects = 0, lf_main = Spawning (nat n), lf_workers = [],
      lf_standby = SWait, lf_prober = PWait, lf_health = True, lf_recycling = False, lf_closers = []\<rparr>" using life_start_Ok by blast
  then show ?case by (simp add: inv_close_def close_ok_def)
qed (auto intro: inv_close_step inv_close_event reachable_sids)

text \<open>Indices into the path table, and the number of workers.\<close>

fun after_worker :: "after_close \<Rightarrow> worker option" where
  "after_worker (ThenTop w) = Some w"
| "after_worker (ThenReturned d w ev) = Some w"
| "after_worker ThenDone = None"

fun worker_of :: "wphase \<Rightarrow> worker option" where
  "worker_of (WTop w) = Some w"
| "worker_of (WSelect w) = Some w"
| "worker_of (WReuse w i) = Some w"
| "worker_of (WAccept w i) = Some w"
| "worker_of (WConnect w) = Some w"
| "worker_of (WTls w) = Some w"
| "worker_of (WDialled w) = Some w"
| "worker_of (WHandshake w) = Some w"
| "worker_of (WAnswered w) = Some w"
| "worker_of (WClosing a) = after_worker a"
| "worker_of (WClosed a) = after_worker a"
| "worker_of (WServe w i) = Some w"
| "worker_of (WReturned w ev) = Some w"
| "worker_of (WWait w) = Some w"
| "worker_of _ = None"

definition phase_ok :: "PathConfig list \<Rightarrow> wphase \<Rightarrow> bool" where
  "phase_ok paths p \<longleftrightarrow> (\<forall>w. worker_of p = Some w \<longrightarrow> worker_ok paths w)"

lemma resume_worker: "worker_of (resume a) = after_worker a"
  by (cases a) simp_all

lemma wakes_worker: "peer_wakes p p' \<Longrightarrow> worker_of p' = worker_of p"
  by (induction rule: peer_wakes.induct) simp_all

definition prober_ok :: "PathConfig list \<Rightarrow> pphase \<Rightarrow> bool" where
  "prober_ok paths p \<longleftrightarrow> (\<forall>k. p = PDial k \<longrightarrow> k < length paths) \<and> (\<forall>q. p \<noteq> PPanic q)"

fun to_spawn :: "start_phase \<Rightarrow> nat" where
  "to_spawn (Spawning k) = k"
| "to_spawn _ = 0"

definition pool_size :: "Config \<Rightarrow> nat" where
  "pool_size cfg = (case Start_pool (NewClient cfg) of Ok (c, n) \<Rightarrow> nat n | _ \<Rightarrow> 0)"

definition inv_index :: "Config \<Rightarrow> life \<Rightarrow> bool" where
  "inv_index cfg L \<longleftrightarrow> list_all (phase_ok (cl_paths (lf_client L))) (lf_workers L) \<and>
     prober_ok (cl_paths (lf_client L)) (lf_prober L) \<and> length (lf_workers L) + to_spawn (lf_main L) \<le> pool_size cfg"

lemma pool_inv_lat:
  assumes "pool_inv cfg c"
  shows "cl_paths c \<noteq> []" "length (cl_pathLatency c) = length (cl_paths c)" "bestPath (cl_pathLatency c) < length (cl_paths c)"
proof -
  show c: "cl_paths c \<noteq> []" "length (cl_pathLatency c) = length (cl_paths c)" using assms by (auto simp: pool_inv_def)
  then have "cl_pathLatency c \<noteq> []" by auto
  then show "bestPath (cl_pathLatency c) < length (cl_paths c)" using bestPath_spec c(2) by metis
qed

lemma worker_turn_Ok: "worker_ok ps w \<Longrightarrow> b < length ps \<Longrightarrow> worker_turn ps b ev w = Ok r \<Longrightarrow> worker_ok ps (tr_worker r)"
  using worker_turn_ok [of ps w b ev] by auto

lemma worker_turn_Reused: "worker_turn ps b Reused w = Ok r \<Longrightarrow> tr_worker r = w\<lparr>w_failCount := 0\<rparr>"
  by (auto simp: worker_turn_def Let_def split: if_splits)

lemma worker_phase:
  assumes "worker_step ctx (c, n, p) (c', n', p')" "pool_inv cfg c" "phase_ok (cl_paths c) p"
  shows "phase_ok (cl_paths c) p'"
  using assms
proof (cases rule: worker_step.cases)
  case w_start
  then show ?thesis using worker_start_ok pool_inv_lat [OF assms(2)] by (simp add: phase_ok_def)
next
  case (w_reuse_end i b w r)
  then show ?thesis
    using assms(3) worker_turn_Reused [OF w_reuse_end(6)] by (auto simp: phase_ok_def worker_ok_def maxFailsBeforeSwitch_def)
next
  case (w_returned w ev r)
  then show ?thesis using assms(3) worker_turn_Ok pool_inv_lat [OF assms(2)] by (auto simp: phase_ok_def)
qed (auto simp: phase_ok_def resume_worker)

lemma prober_phase:
  assumes "prober_step ctx (c, p) (c', p')" "pool_inv cfg c" "prober_ok (cl_paths c) p"
  shows "prober_ok (cl_paths c) p'"
  using assms pool_inv_lat [OF assms(2)] by (cases rule: prober_step.cases) (auto simp: prober_ok_def)

lemma inv_index_step: "life_step L L' \<Longrightarrow> inv_index cfg L \<Longrightarrow> inv_sids cfg L \<Longrightarrow> inv_index cfg L'"
proof (induction rule: life_step.induct)
  case (l_spawn L k)
  then show ?case by (simp add: inv_index_def phase_ok_def)
next
  case (l_worker L k c' n' p')
  then have inv: "pool_inv cfg (lf_client L)" by (simp add: inv_sids_def)
  have "phase_ok (cl_paths (lf_client L)) (lf_workers L ! k)"
    using l_worker by (simp add: inv_index_def list_all_length)
  then have "phase_ok (cl_paths (lf_client L)) p'" by (rule worker_phase [OF l_worker.hyps(3) inv])
  moreover have "cl_paths c' = cl_paths (lf_client L)" using worker_effect [OF l_worker.hyps(3) inv] by (simp add: closes_def)
  ultimately show ?case using l_worker.prems by (simp add: inv_index_def list_all_replace)
next
  case (l_standby L c' p')
  from inv_sids_standby [OF l_standby.prems(2) l_standby.hyps(2)] l_standby.prems(2)
  have "pool_inv cfg c'" "pool_inv cfg (lf_client L)" by (simp_all add: inv_sids_def)
  then have "cl_paths c' = cl_paths (lf_client L)" by (simp add: pool_inv_def)
  then show ?case using l_standby.prems by (simp add: inv_index_def)
next
  case (l_prober L c' p')
  then have inv: "pool_inv cfg (lf_client L)" by (simp add: inv_sids_def)
  have "prober_ok (cl_paths (lf_client L)) p'"
    using l_prober.prems(1) by (intro prober_phase [OF l_prober.hyps(2) inv]) (simp add: inv_index_def)
  then show ?case using prober_effect [OF l_prober.hyps(2) inv] l_prober.prems by (simp add: inv_index_def closes_def)
qed (simp_all add: inv_index_def close_sid_def)

lemma inv_index_event: "life_event L L' \<Longrightarrow> inv_index cfg L \<Longrightarrow> inv_sids cfg L \<Longrightarrow> inv_index cfg L'"
proof (induction rule: life_event.induct)
  case (e_tick L c' b)
  then have "pool_inv cfg (lf_client L)" by (simp add: inv_sids_def)
  from health_tick_effect [OF e_tick.hyps(3) this] show ?case using e_tick.prems by (simp add: inv_index_def)
next
  case (e_wake k L p')
  then have "phase_ok (cl_paths (lf_client L)) (lf_workers L ! k)" by (simp add: inv_index_def list_all_length)
  then have "phase_ok (cl_paths (lf_client L)) p'" using wakes_worker [OF e_wake.hyps(2)] by (simp add: phase_ok_def)
  then show ?case using e_wake.prems by (simp add: inv_index_def list_all_replace)
next
  case (e_open L)
  then show ?case by (simp add: inv_index_def)
qed (simp_all add: inv_index_def close_sid_def)

lemma reachable_index: "life_reachable cfg L \<Longrightarrow> inv_index cfg L"
proof (induction rule: life_reachable.induct)
  case (life_init L)
  then obtain c n where "Start_pool (NewClient cfg) = Ok (c, n)"
    and "L = \<lparr>lf_ctx = False, lf_client = c, lf_reconnects = 0, lf_main = Spawning (nat n), lf_workers = [],
      lf_standby = SWait, lf_prober = PWait, lf_health = True, lf_recycling = False, lf_closers = []\<rparr>" using life_start_Ok by blast
  then show ?case by (simp add: inv_index_def pool_size_def prober_ok_def)
qed (auto intro: inv_index_step inv_index_event reachable_sids)

lemma worker_sids_bound: "length (owned_sids L) \<le> length (lf_workers L)"
proof -
  have "length (owned p) \<le> 1" for p by (cases p) simp_all
  then have "length (concat (map owned ps)) \<le> length ps" for ps
    by (induction ps) (simp_all, metis One_nat_def add_le_mono plus_1_eq_Suc)
  then show ?thesis by (simp add: owned_sids_def)
qed

text \<open>
  C8: The sessions a running client keeps.  In every state that any interleaving of the workers, the standby
  manager, the prober, the health check and the peers can reach, no session has two owners, the pool holds
  no more sessions than it has workers, all sessions together are at most two more than that (one waiting in
  the channel and one that the standby manager holds while the channel is full), and no goroutine has left
  the path table.
\<close>

theorem life_sessions:
  assumes "life_reachable cfg L"
  shows "distinct (sids (lf_client L) @ cl_standbyCh (lf_client L) @ held (lf_standby L)) \<and>
    sessionCount (lf_client L) \<le> length (lf_workers L) \<and> length (lf_workers L) \<le> pool_size cfg \<and>
    length (sids (lf_client L) @ cl_standbyCh (lf_client L) @ held (lf_standby L)) \<le> pool_size cfg + 2 \<and>
    (\<forall>p \<in> set (lf_workers L). \<forall>w. worker_of p = Some w \<longrightarrow> w_pathIdx w < length (cl_paths (lf_client L))) \<and>
    (\<forall>q. lf_prober L \<noteq> PPanic q)"
proof -
  have s: "pool_inv cfg (lf_client L)" "distinct (life_sids L)" "set (sids (lf_client L)) \<subseteq> set (owned_sids L)"
    using reachable_sids [OF assms] by (auto simp: inv_sids_def)
  note x = reachable_index [OF assms]
  have "distinct (sids (lf_client L))" using pool_inv_distinct s(1) by blast
  then have "length (sids (lf_client L)) = card (set (sids (lf_client L)))" by (simp add: distinct_card)
  also have "\<dots> \<le> length (owned_sids L)" using card_mono [OF _ s(3)] card_length [of "owned_sids L"] by simp
  also have "\<dots> \<le> length (lf_workers L)" by (rule worker_sids_bound)
  finally have n: "length (sids (lf_client L)) \<le> length (lf_workers L)" .
  have "length (held (lf_standby L)) \<le> 1" by (cases "lf_standby L") simp_all
  moreover have "length (cl_standbyCh (lf_client L)) \<le> 1" using s(1) by (simp add: pool_inv_def)
  moreover have "length (lf_workers L) \<le> pool_size cfg" using x by (simp add: inv_index_def)
  moreover have "distinct (sids (lf_client L) @ cl_standbyCh (lf_client L) @ held (lf_standby L))"
    using s pool_inv_distinct [OF s(1)] by (auto simp: life_sids_def)
  ultimately show ?thesis
    using n x by (auto simp: sessionCount_def sids_def inv_index_def list_all_iff phase_ok_def worker_ok_def prober_ok_def)
qed

section \<open>Stopping\<close>

text \<open>How many steps are left once the context is cancelled.\<close>

fun wrank :: "wphase \<Rightarrow> nat" where
  "wrank WStart = 2"
| "wrank (WTop w) = 1"
| "wrank (WSelect w) = 5"
| "wrank (WReuse w i) = 4"
| "wrank (WAccept w i) = 4"
| "wrank (WConnect w) = 3"
| "wrank (WTls w) = 2"
| "wrank (WDialled w) = 2"
| "wrank (WHandshake w) = 6"
| "wrank (WAnswered w) = 6"
| "wrank (WServe w i) = 4"
| "wrank (WClosing a) = 3"
| "wrank (WClosed a) = 2"
| "wrank (WReturned w ev) = 1"
| "wrank (WWait w) = 2"
| "wrank WDone = 0"
| "wrank (WPanic p) = 0"

fun srank :: "sphase \<Rightarrow> nat" where
  "srank SWait = 2"
| "srank STop = 1"
| "srank SDial = 5"
| "srank SHandshake = 4"
| "srank SAnswered = 4"
| "srank (SHold i) = 3"
| "srank SClosing = 1"
| "srank SPause = 2"
| "srank SDone = 0"
| "srank (SPanic p) = 0"

fun prank :: "nat \<Rightarrow> pphase \<Rightarrow> nat" where
  "prank n PWait = 2"
| "prank n (PProbe k) = (if k < n then 1 else 3)"
| "prank n (PDial k) = 4"
| "prank n PDone = 0"
| "prank n (PPanic p) = 0"

fun mrank :: "start_phase \<Rightarrow> nat" where
  "mrank (Spawning k) = 3 * k + 3"
| "mrank Blocking = 2"
| "mrank Joining = 1"
| "mrank StartReturned = 0"
| "mrank Crashed = 0"

definition life_rank :: "life \<Rightarrow> nat" where
  "life_rank L = mrank (lf_main L) + sum_list (map wrank (lf_workers L)) + srank (lf_standby L) +
     prank (length (cl_paths (lf_client L))) (lf_prober L) + (if lf_health L then 1 else 0) + length (lf_closers L)"

text \<open>A worker that waits for a stream on a standby session that is alive.\<close>

definition standby_blocked :: "life \<Rightarrow> bool" where
  "standby_blocked L \<longleftrightarrow> (\<exists>w i. WAccept w i \<in> set (lf_workers L) \<and> \<not> cl_closed (lf_client L) i)"

text \<open>A goroutine that waits in a handshake.\<close>

fun in_handshake :: "wphase \<Rightarrow> bool" where
  "in_handshake (WTls w) = True"
| "in_handshake (WHandshake w) = True"
| "in_handshake _ = False"

definition handshake_blocked :: "life \<Rightarrow> bool" where
  "handshake_blocked L \<longleftrightarrow> (\<exists>p \<in> set (lf_workers L). in_handshake p) \<or> lf_standby L = SHandshake"

text \<open>A goroutine that waits in the \<open>Close\<close> of a compressed session.\<close>

definition close_blocked :: "life \<Rightarrow> bool" where
  "close_blocked L \<longleftrightarrow> compression_on (cl_cfg (lf_client L)) \<and>
     ((\<exists>a. WClosing a \<in> set (lf_workers L)) \<or> lf_standby L = SClosing \<or> lf_health L \<and> lf_recycling L)"

definition peer_blocked :: "life \<Rightarrow> bool" where
  "peer_blocked L \<longleftrightarrow> standby_blocked L \<or> handshake_blocked L \<or> close_blocked L"

definition life_stopping :: "life \<Rightarrow> bool" where
  "life_stopping L \<longleftrightarrow> lf_ctx L \<and> (\<exists>cfg. life_reachable cfg L)"

lemma resume_rank: "wrank (resume a) < 2"
  by (cases a) simp_all

lemma worker_rank:
  "worker_step True (c, n, p) (c', n', p') \<Longrightarrow>
     wrank p' + length (new_closers p p' cs) < wrank p + length cs"
  by (erule worker_step.cases) (auto simp: new_closers_def resume_none intro: resume_rank)

lemma wakes_rank: "peer_wakes p p' \<Longrightarrow> wrank p' \<le> wrank p"
  by (induction rule: peer_wakes.induct) simp_all

lemma standby_wakes_rank: "standby_wakes p p' \<Longrightarrow> srank p' \<le> srank p"
  by (induction rule: standby_wakes.induct) simp_all

lemma standby_rank: "standby_step True (c, p) (c', p') \<Longrightarrow> srank p' < srank p"
  by (erule standby_step.cases) simp_all

lemma prober_rank:
  "prober_step True (c, p) (c', p') \<Longrightarrow> cl_paths c \<noteq> [] \<Longrightarrow> prank (length (cl_paths c)) p' < prank (length (cl_paths c)) p"
  by (erule prober_step.cases) auto

lemma stopping_facts:
  assumes "life_stopping L"
  shows "lf_ctx L" "\<exists>cfg. inv_sids cfg L \<and> inv_index cfg L" "inv_close L" "cl_paths (lf_client L) \<noteq> []"
proof -
  obtain cfg where r: "life_reachable cfg L" "lf_ctx L" using assms by (auto simp: life_stopping_def)
  then show "lf_ctx L" "\<exists>cfg. inv_sids cfg L \<and> inv_index cfg L" "inv_close L"
    using reachable_sids reachable_index reachable_close by blast+
  have "pool_inv cfg (lf_client L)" using reachable_sids [OF r(1)] by (simp add: inv_sids_def)
  then show "cl_paths (lf_client L) \<noteq> []" by (rule pool_inv_lat)
qed

lemma stopping_step: "life_stopping L \<Longrightarrow> life_step L L' \<Longrightarrow> life_stopping L'"
proof -
  assume s: "life_stopping L" "life_step L L'"
  have "lf_ctx L' = lf_ctx L" using s(2) by (cases rule: life_step.cases) simp_all
  then show ?thesis using s life_next unfolding life_stopping_def by blast
qed

lemma stopping_event: "life_stopping L \<Longrightarrow> life_event L L' \<Longrightarrow> life_stopping L'"
proof -
  assume s: "life_stopping L" "life_event L L'"
  have "lf_ctx L \<Longrightarrow> lf_ctx L'" using s(2) by (cases rule: life_event.cases) simp_all
  then show ?thesis using s life_outside unfolding life_stopping_def by blast
qed

lemma life_rank_step:
  assumes "life_stopping L" "life_step L L'"
  shows "life_rank L' < life_rank L"
proof -
  note ctx = stopping_facts(1) [OF assms(1)] and paths = stopping_facts(4) [OF assms(1)]
  obtain cfg where inv: "pool_inv cfg (lf_client L)" "inv_sids cfg L" using stopping_facts(2) [OF assms(1)] by (auto simp: inv_sids_def)
  show ?thesis
    using assms(2)
  proof (cases rule: life_step.cases)
    case (l_worker k c' n' p')
    let ?cs = "new_closers (lf_workers L ! k) p' (lf_closers L)"
    have "wrank p' + length ?cs < wrank (lf_workers L ! k) + length (lf_closers L)"
      using worker_rank l_worker(4) ctx by simp
    moreover have "cl_paths c' = cl_paths (lf_client L)" using worker_effect [OF l_worker(4) inv(1)] by (simp add: closes_def)
    ultimately show ?thesis
      using sum_list_replace [OF l_worker(3), of wrank p'] unfolding l_worker(1) life_rank_def by simp
  next
    case (l_standby c' p')
    from inv_sids_standby [OF inv(2) l_standby(3)] have "pool_inv cfg c'" by (simp add: inv_sids_def)
    then have "cl_paths c' = cl_paths (lf_client L)" using inv(1) by (simp add: pool_inv_def)
    then show ?thesis using standby_rank l_standby ctx by (simp add: life_rank_def)
  next
    case (l_prober c' p')
    have "prank (length (cl_paths (lf_client L))) p' < prank (length (cl_paths (lf_client L))) (lf_prober L)"
      using prober_rank l_prober(3) ctx paths by simp
    moreover have "cl_paths c' = cl_paths (lf_client L)" using prober_effect [OF l_prober(3) inv(1)] by (simp add: closes_def)
    ultimately show ?thesis by (simp add: l_prober(1) life_rank_def)
  next
    case (l_closer i)
    then have "0 < length (lf_closers L)" by auto
    then show ?thesis using l_closer by (simp add: life_rank_def close_sid_def length_remove1)
  next
    case l_crash
    then show ?thesis by (cases "lf_main L") (simp_all add: life_rank_def life_over_def)
  qed (simp_all add: life_rank_def)
qed

lemma life_rank_event:
  assumes "life_stopping L" "life_event L L'"
  shows "life_rank L' \<le> life_rank L"
proof -
  obtain cfg where inv: "pool_inv cfg (lf_client L)" using stopping_facts(2) [OF assms(1)] by (auto simp: inv_sids_def)
  show ?thesis
    using assms(2)
  proof (cases rule: life_event.cases)
    case (e_tick c' b)
    then show ?thesis using health_tick_effect [OF e_tick(4) inv] by (simp add: life_rank_def)
  next
    case (e_wake k p')
    then show ?thesis
      using sum_list_replace [OF e_wake(2), of wrank p'] wakes_rank [OF e_wake(3)] by (simp add: life_rank_def)
  next
    case (e_standby p')
    then show ?thesis using standby_wakes_rank by (simp add: life_rank_def)
  qed (simp_all add: life_rank_def close_sid_def)
qed

lemma worker_can:
  assumes "p \<noteq> WDone" "\<not> wpanics p" "\<forall>i \<in> set (owned p). cl_closed c i" "phase_ok (cl_paths c) p"
    and "\<not> in_handshake p" "(\<exists>a. p = WClosing a) \<longrightarrow> \<not> compression_on (cl_cfg c)"
  shows "\<exists>c' n' p'. worker_step True (c, n, p) (c', n', p')"
proof (cases p)
  case (WAccept w i)
  have "worker_ok (cl_paths c) w" using assms(4) WAccept by (simp add: phase_ok_def)
  then obtain r where "worker_turn (cl_paths c) 0 Reused w = Ok r"
    using worker_turn_ok [of "cl_paths c" w 0 Reused] by (cases "cl_paths c") (auto simp: worker_ok_def)
  moreover have "cl_closed c i" using assms(3) WAccept by simp
  ultimately show ?thesis using w_reuse_end unfolding WAccept by blast
next
  case (WConnect w)
  let ?e = "undefined\<lparr>ce_dial := \<lambda>_ _ _. Err EOF\<rparr>"
  have "no_dial ?e" by (simp add: no_dial_def)
  moreover have "connectAndServe ?e (worker_path c w) c = (c, ConnErr (Msg ''empty address''))"
    if "trim_space (path_Addr (worker_path c w)) = ''''" using that by (simp add: connectAndServe_def Let_def)
  ultimately show ?thesis using w_dial_err w_dial w_dial_tls unfolding WConnect by metis
next
  case (WAnswered w)
  let ?e = "undefined\<lparr>ce_dial := \<lambda>_ _ _. Ok undefined, ce_ctx := None\<rparr>"
  have e: "dial_done ?e" by (simp add: dial_done_def)
  obtain c' r where "connectAndServe ?e (worker_path c w) c = (c', r)" by (rule prod.exhaust)
  then have "\<exists>p'. worker_step True (c, n, WAnswered w) (c', n, p')"
    by (cases r) (metis e w_connect, metis e w_connect_err, metis e w_connect_panic)
  then show ?thesis using WAnswered by blast
next
  case (WServe w i)
  obtain c' d where "serve_end i 0 c = (c', d)" by fastforce
  moreover have "cl_closed c i" using assms(3) WServe by simp
  ultimately show ?thesis using w_serve_end unfolding WServe by blast
next
  case (WClosing a)
  then show ?thesis using w_close [of c True n a] assms(6) by blast
qed (use assms in \<open>auto intro: w_start w_top_done [OF TrueI] w_select_done [OF TrueI] w_reuse_done [OF TrueI]
  w_dialled_done [OF TrueI] w_closed w_returned_done [OF TrueI] w_wait\<close>)

lemma standby_can:
  assumes "p \<noteq> SDone" "\<And>q. p \<noteq> SPanic q" "p \<noteq> SHandshake" "p = SClosing \<longrightarrow> \<not> compression_on (cl_cfg c)"
  shows "\<exists>c' p'. standby_step True (c, p) (c', p')"
proof (cases p)
  case SAnswered
  obtain c' r where "dialSession undefined c = (c', r)" by (rule prod.exhaust)
  then have "\<exists>p'. standby_step True (c, SAnswered) (c', p')"
    by (cases r) (metis s_answer, metis s_answer_err, metis s_answer_panic)
  then show ?thesis using SAnswered by blast
qed (use assms in \<open>auto intro: s_wait s_top_done [OF TrueI] s_dial s_hold_done [OF TrueI] s_close s_pause\<close>)

lemma prober_can: "p \<noteq> PDone \<Longrightarrow> (\<And>q. p \<noteq> PPanic q) \<Longrightarrow> \<exists>c' p'. prober_step True (c, p) (c', p')"
proof (cases p)
  case (PProbe k)
  then show ?thesis using p_round p_probe_done [OF TrueI] by (metis not_le)
next
  case (PDial k)
  then show ?thesis using p_dial p_dial_panic by (metis not_le)
qed (auto intro: p_wait)

lemma life_progress:
  assumes "life_stopping L" "\<not> life_over L" "\<not> peer_blocked L"
  shows "\<exists>L'. life_step L L'"
proof -
  let ?c = "lf_client L"
  note ctx = stopping_facts(1) [OF assms(1)]
  obtain cfg where inv: "inv_index cfg L" using stopping_facts(2) [OF assms(1)] by blast
  have close: "i \<in> set (lf_closers L) \<or> cl_closed ?c i" if "WServe w i \<in> set (lf_workers L)" for w i
    using stopping_facts(3) [OF assms(1)] that unfolding inv_close_def close_ok_def by fastforce
  have free: "\<not> standby_blocked L" "\<not> handshake_blocked L" "\<not> close_blocked L" using assms(3) by (auto simp: peer_blocked_def)
  consider k where "lf_main L = Spawning (Suc k)" | "lf_main L = Spawning 0" | "lf_main L = Blocking" | "lf_main L = Joining"
    using assms(2) by (metis life_over_def start_phase.exhaust nat.exhaust)
  then show ?thesis
  proof cases
    case 4
    consider "all_done L" | "lf_health L" | "lf_prober L \<noteq> PDone" | "lf_standby L \<noteq> SDone"
      | p where "p \<in> set (lf_workers L)" "p \<noteq> WDone" unfolding all_done_def list_all_iff by blast
    then show ?thesis
    proof cases
      case 1
      then show ?thesis using l_joined 4 by blast
    next
      case 2
      then show ?thesis using l_health_done [OF assms(2) 2 ctx] free(3) unfolding close_blocked_def by blast
    next
      case 3
      then show ?thesis using prober_can l_prober l_crash assms(2) ctx by metis
    next
      case 4
      have "lf_standby L \<noteq> SHandshake" "lf_standby L = SClosing \<longrightarrow> \<not> compression_on (cl_cfg ?c)"
        using free(2,3) by (auto simp: handshake_blocked_def close_blocked_def)
      then show ?thesis using standby_can [OF 4, of ?c] l_standby [OF assms(2)] l_crash [OF assms(2)] ctx by metis
    next
      case (5 p)
      then obtain k where k: "k < length (lf_workers L)" "lf_workers L ! k = p" by (auto simp: in_set_conv_nth)
      have h: "\<not> in_handshake p" "(\<exists>a. p = WClosing a) \<longrightarrow> \<not> compression_on (cl_cfg ?c)"
        using free(2,3) 5(1) by (auto simp: handshake_blocked_def close_blocked_def)
      consider "wpanics p" | w i where "p = WServe w i" "i \<in> set (lf_closers L)"
        | "\<not> wpanics p" "\<forall>i \<in> set (owned p). cl_closed ?c i"
        | w i where "p = WReuse w i"
        using close free(1) 5(1) unfolding standby_blocked_def by (cases p) auto
      then show ?thesis
      proof cases
        case 1
        then show ?thesis using l_crash assms(2) 5(1) unfolding list_ex_iff by blast
      next
        case (2 w i)
        then show ?thesis using l_closer assms(2) ctx by blast
      next
        case 3
        have "phase_ok (cl_paths ?c) p" using inv 5(1) by (simp add: inv_index_def list_all_iff)
        from worker_can [OF 5(2) 3 this h] show ?thesis using l_worker [OF assms(2) k(1)] ctx k(2) by metis
      next
        case (4 w i)
        have "worker_step (lf_ctx L) (?c, lf_reconnects L, lf_workers L ! k)
            (close_sid i (removeSession i ?c), lf_reconnects L, WClosing ThenDone)" using w_reuse_done ctx k(2) 4 by simp
        then show ?thesis using l_worker [OF assms(2) k(1)] by blast
      qed
    qed
  qed (use l_spawn l_spawned l_stopping ctx in blast)+
qed

interpretation client_stop: winding_down life_step life_event life_stopping life_rank life_over peer_blocked
  by unfold_locales (fact stopping_step stopping_event life_rank_step life_rank_event life_progress)+

lemma returned_done_step: "life_step L L' \<Longrightarrow> (lf_main L = StartReturned \<longrightarrow> all_done L) \<Longrightarrow> lf_main L' = StartReturned \<longrightarrow> all_done L'"
  by (erule life_step.cases) (auto simp: life_over_def all_done_def)

lemma wakes_not_done: "peer_wakes p p' \<Longrightarrow> p \<noteq> WDone"
  by (induction rule: peer_wakes.induct) simp_all

lemma returned_done_event: "life_event L L' \<Longrightarrow> (lf_main L = StartReturned \<longrightarrow> all_done L) \<Longrightarrow> lf_main L' = StartReturned \<longrightarrow> all_done L'"
proof (induction rule: life_event.induct)
  case (e_wake k L p')
  then have "\<not> all_done L" using wakes_not_done by (auto simp: all_done_def list_all_length)
  then show ?case using e_wake.prems by simp
next
  case (e_standby L p')
  then have "\<not> all_done L" by (auto simp: all_done_def elim: standby_wakes.cases)
  then show ?case using e_standby.prems by simp
qed (auto simp: all_done_def)

lemma reachable_returned: "life_reachable cfg L \<Longrightarrow> lf_main L = StartReturned \<longrightarrow> all_done L"
proof (induction rule: life_reachable.induct)
  case (life_init L)
  then show ?case using life_start_Ok [OF life_init] by auto
qed (use returned_done_step returned_done_event in blast)+

lemma all_done_empty:
  assumes "life_reachable cfg L" "all_done L"
  shows "cl_sessions (lf_client L) = []"
proof -
  have "owned_sids L = []" using assms(2) by (auto simp: all_done_def owned_sids_def list_all_iff)
  then show ?thesis using reachable_sids [OF assms(1)] by (simp add: inv_sids_def sids_def)
qed

lemma run_reachable: "run_with life_step life_event n L L' \<Longrightarrow> life_reachable cfg L \<Longrightarrow> life_reachable cfg L'"
  by (induction rule: run_with.induct) (auto intro: life_next life_outside)

text \<open>
  C11: How the client stops.  Once its context is cancelled, whatever the goroutines were doing, they take at
  most \<open>life_rank\<close> more steps in every schedule, however many events come from outside in between (ticks, peers
  that answer, open streams or close sessions).  When no step is left, \<open>Start\<close> has returned, every goroutine it
  waits for has ended and the pool is empty, unless the process has crashed or \<open>Start\<close> waits for the peer: a worker
  waits for a stream on a standby session that is alive, a worker or the standby manager is in a TLS or
  mimicry handshake that the peer has not answered, or, with compression, the \<open>Close\<close> of a session waits for
  its flush.  None of the three waits has a deadline or watches the context.
\<close>

theorem client_stops:
  assumes "life_reachable cfg L" "lf_ctx L" "run_with life_step life_event n L L'"
  shows "n + life_rank L' \<le> life_rank L \<and>
    (lf_main L' = StartReturned \<longrightarrow> all_done L' \<and> cl_sessions (lf_client L') = []) \<and>
    ((\<forall>L''. \<not> life_step L' L'') \<longrightarrow> lf_main L' = StartReturned \<or> lf_main L' = Crashed \<or>
       standby_blocked L' \<or> handshake_blocked L' \<or> close_blocked L')"
proof -
  have "life_stopping L" using assms(1,2) by (auto simp: life_stopping_def)
  then show ?thesis
    using client_stop.run_bounded [OF assms(3)] client_stop.run_ends [OF assms(3)]
      reachable_returned [OF run_reachable [OF assms(3,1)]] all_done_empty [OF run_reachable [OF assms(3,1)]]
    by (auto simp: life_over_def peer_blocked_def)
qed

text \<open>
  The handshake wait is real: a worker that is in it when the context ends stays there, and \<open>Start\<close> with it,
  however many steps the client takes.
\<close>

lemma handshake_step:
  assumes "life_step L L'" "k < length (lf_workers L)" "in_handshake (lf_workers L ! k)"
  shows "k < length (lf_workers L') \<and> lf_workers L' ! k = lf_workers L ! k"
  using assms(1)
proof (cases rule: life_step.cases)
  case (l_worker j c' n' p')
  have "j \<noteq> k" using l_worker(4) assms(3) by (auto elim: worker_step.cases)
  then show ?thesis using l_worker(1) assms(2) by simp
qed (use assms(2) in \<open>simp_all add: nth_append\<close>)

lemma handshake_blocks_stop:
  assumes "life_reachable cfg L" "k < length (lf_workers L)" "in_handshake (lf_workers L ! k)" "life_step\<^sup>*\<^sup>* L L'"
  shows "lf_main L' \<noteq> StartReturned \<and> lf_workers L' ! k = lf_workers L ! k"
proof -
  have "life_reachable cfg L' \<and> k < length (lf_workers L') \<and> lf_workers L' ! k = lf_workers L ! k"
    using assms(4)
  proof (induction rule: rtranclp_induct)
    case (step L1 L2)
    then show ?case using handshake_step [OF step.hyps(2), of k] life_next assms(3) by auto
  qed (use assms in blast)
  moreover from this have "\<not> all_done L'" using assms(3) by (auto simp: all_done_def list_all_length)
  ultimately show ?thesis using reachable_returned by blast
qed

section \<open>A standby session that outlives the context\<close>

lemma distinct_concat_nth:
  "distinct (concat xs) \<Longrightarrow> j < length xs \<Longrightarrow> k < length xs \<Longrightarrow> j \<noteq> k \<Longrightarrow> set (xs ! j) \<inter> set (xs ! k) = {}"
proof (induction xs arbitrary: j k)
  case (Cons x xs)
  have "set x \<inter> set (xs ! m) = {}" if "m < length xs" for m using Cons.prems(1) nth_mem [OF that] by auto
  then show ?case using Cons by (cases j; cases k) (auto simp: Int_commute)
qed simp

lemma blocked_step:
  assumes "life_step L L'" "life_reachable cfg L" "lf_ctx L" "\<not> lf_health L"
    and "k < length (lf_workers L)" "lf_workers L ! k = WAccept w i" "\<not> cl_closed (lf_client L) i"
  shows "\<not> lf_health L' \<and> lf_ctx L' \<and> k < length (lf_workers L') \<and> lf_workers L' ! k = WAccept w i \<and>
    \<not> cl_closed (lf_client L') i"
proof -
  have inv: "inv_sids cfg L" "pool_inv cfg (lf_client L)" "distinct (life_sids L)" "\<forall>j \<in> set (life_sids L). j < cl_next (lf_client L)"
    "set (sids (lf_client L)) \<subseteq> set (owned_sids L)"
    using reachable_sids [OF assms(2)] by (auto simp: inv_sids_def)
  have own: "i \<in> set (owned_sids L)" "i \<in> warm_set L"
    using nth_mem [OF assms(5)] assms(6) by (force simp: owned_sids_def warm_set_def)+
  then have lt: "i < cl_next (lf_client L)" and nh: "i \<notin> set (held (lf_standby L))" using inv(3,4) by (auto simp: life_sids_def)
  have keep: "\<not> cl_closed c' i" if "closes own (lf_client L) c'" "i \<notin> set own" for own c'
    using that lt assms(7) by (auto simp: closes_def)
  show ?thesis
    using assms(1)
  proof (cases rule: life_step.cases)
    case (l_worker j c' n' p')
    have "j \<noteq> k"
    proof
      assume "j = k"
      then have "worker_step (lf_ctx L) (lf_client L, lf_reconnects L, WAccept w i) (c', n', p')" using l_worker(4) assms(6) by simp
      then show False using assms(7) by (elim w_acceptE) simp
    qed
    then have "i \<notin> set (owned (lf_workers L ! j))"
      using distinct_concat_nth [of "map owned (lf_workers L)" j k] inv(3) l_worker(3) assms(5,6)
      by (auto simp: life_sids_def owned_sids_def)
    then show ?thesis
      using keep worker_effect [OF l_worker(4) inv(2)] l_worker \<open>j \<noteq> k\<close> assms by auto
  next
    case (l_standby c' p')
    have "set (held (lf_standby L)) \<inter> set (pool_sids (lf_client L)) = {}"
      using inv(3,5) by (auto simp: life_sids_def pool_sids_def sids_def)
    moreover have "\<forall>j \<in> set (held (lf_standby L)). j < cl_next (lf_client L)" using inv(4) by (simp add: life_sids_def)
    ultimately show ?thesis using keep nh standby_effect [OF l_standby(3) inv(2)] l_standby assms by auto
  next
    case (l_prober c' p')
    then show ?thesis using keep [of "[]"] prober_effect [OF l_prober(3) inv(2)] assms by auto
  next
    case (l_closer j)
    have "j \<noteq> i" using reachable_close [OF assms(2)] own(2) l_closer(4) by (auto simp: inv_close_def close_ok_def)
    then show ?thesis using l_closer assms by (simp add: close_sid_def)
  qed (use assms in \<open>simp_all add: nth_append\<close>)
qed

text \<open>
  C25: A standby session blocks the stop.  A session taken from the standby channel, unlike one made by
  \<open>connectAndServe\<close>, has no goroutine that closes it when the context ends.  If a worker waits for a stream
  on such a session and the health check has ended, then no steps of the client, as many as there may be,
  bring \<open>Start\<close> to return: the worker waits and the session is open until the peer acts.
\<close>

theorem standby_blocks_stop:
  assumes "life_reachable cfg L" "lf_ctx L" "\<not> lf_health L"
    and "k < length (lf_workers L)" "lf_workers L ! k = WAccept w i" "\<not> cl_closed (lf_client L) i"
    and "life_step\<^sup>*\<^sup>* L L'"
  shows "lf_main L' \<noteq> StartReturned \<and> lf_workers L' ! k = WAccept w i \<and> \<not> cl_closed (lf_client L') i"
proof -
  have "life_reachable cfg L' \<and> \<not> lf_health L' \<and> lf_ctx L' \<and> k < length (lf_workers L') \<and>
      lf_workers L' ! k = WAccept w i \<and> \<not> cl_closed (lf_client L') i"
    using assms(7)
  proof (induction rule: rtranclp_induct)
    case (step L1 L2)
    then show ?case using blocked_step [OF step.hyps(2)] life_next by blast
  qed (use assms in blast)
  moreover from this have "\<not> all_done L'" by (auto simp: all_done_def list_all_length)
  ultimately show ?thesis using reachable_returned by blast
qed

section \<open>Two runs\<close>

definition demo_life :: "Client \<Rightarrow> bool \<Rightarrow> start_phase \<Rightarrow> wphase list \<Rightarrow> sphase \<Rightarrow> pphase \<Rightarrow> bool \<Rightarrow> life" where
  "demo_life c ctx m ws s p h = \<lparr>lf_ctx = ctx, lf_client = c, lf_reconnects = 0, lf_main = m, lf_workers = ws,
     lf_standby = s, lf_prober = p, lf_health = h, lf_recycling = False, lf_closers = []\<rparr>"

lemma demo_steps:
  "life_step (demo_life c x (Spawning (Suc k)) ws s p h) (demo_life c x (Spawning k) (ws @ [WStart]) s p h)"
  "life_step (demo_life c x (Spawning 0) ws s p h) (demo_life c x Blocking ws s p h)"
  "life_step (demo_life c True Blocking ws s p h) (demo_life c True Joining ws s p h)"
  "list_all (\<lambda>q. q = WDone) ws \<Longrightarrow>
     life_step (demo_life c x Joining ws SDone PDone False) (demo_life c x StartReturned ws SDone PDone False)"
  "m = Blocking \<or> m = Joining \<Longrightarrow> worker_step x (c, 0, q) (c', 0, q') \<Longrightarrow> served q' = [] \<Longrightarrow>
     life_step (demo_life c x m [q] s p h) (demo_life c' x m [q'] s p h)"
  "m = Blocking \<or> m = Joining \<Longrightarrow> standby_step x (c, s) (c', s') \<Longrightarrow>
     life_step (demo_life c x m ws s p h) (demo_life c' x m ws s' p h)"
  "m = Blocking \<or> m = Joining \<Longrightarrow> prober_step x (c, p) (c', p') \<Longrightarrow>
     life_step (demo_life c x m ws s p h) (demo_life c' x m ws s p' h)"
  "m = Blocking \<or> m = Joining \<Longrightarrow> life_step (demo_life c True m ws s p True) (demo_life c True m ws s p False)"
  using l_spawn [of "demo_life c x (Spawning (Suc k)) ws s p h" k] l_spawned [of "demo_life c x (Spawning 0) ws s p h"]
    l_stopping [of "demo_life c True Blocking ws s p h"] l_joined [of "demo_life c x Joining ws SDone PDone False"]
    l_worker [of "demo_life c x m [q] s p h" 0 c' 0 q'] l_standby [of "demo_life c x m ws s p h" c' s']
    l_prober [of "demo_life c x m ws s p h" c' p'] l_health_done [of "demo_life c True m ws s p True"]
  by (auto simp: demo_life_def life_over_def all_done_def new_closers_def split: wphase.splits)

lemma demo_life_reachable: "life_reachable demo_cfg (demo_life demo_client False (Spawning 1) [] SWait PWait True)"
  using demo_client_start unfolding demo_life_def by (intro life_init) (simp add: life_start_def demo_client_def)

lemma demo_cancel: "life_reachable cfg (demo_life c x m ws s p h) \<Longrightarrow> life_reachable cfg (demo_life c True m ws s p h)"
  using life_outside [OF _ e_cancel] by (fastforce simp: demo_life_def)

theorem client_stops_witness:
  "\<exists>L'. run_with life_step life_event 9 (demo_life demo_client True (Spawning 1) [] SWait PWait True) L' \<and>
     lf_main L' = StartReturned \<and> all_done L' \<and> cl_sessions (lf_client L') = []"
proof -
  let ?L = "\<lambda>m ws. demo_life demo_client True m ws" and ?run = "run_with life_step life_event"
  define L where "L = ?L (Spawning 1) [] SWait PWait True"
  define w where "w = worker_start (cl_pathLatency demo_client)"
  have "?run 0 L (?L (Spawning (Suc 0)) [] SWait PWait True)" unfolding L_def by (simp add: run_refl)
  from run_step [OF this demo_steps(1)] have "?run 1 L (?L (Spawning 0) [WStart] SWait PWait True)" by simp
  from run_step [OF this demo_steps(2)] have "?run 2 L (?L Blocking [WStart] SWait PWait True)" by (simp add: numeral_2_eq_2)
  from run_step [OF this demo_steps(3)] have "?run 3 L (?L Joining [WStart] SWait PWait True)" by simp
  from run_step [OF this demo_steps(5) [OF _ w_start]] have "?run 4 L (?L Joining [WTop w] SWait PWait True)"
    by (simp add: w_def)
  from run_step [OF this demo_steps(5) [OF _ w_top_done]] have "?run 5 L (?L Joining [WDone] SWait PWait True)" by simp
  from run_step [OF this demo_steps(6) [OF _ s_wait_done]] have "?run 6 L (?L Joining [WDone] SDone PWait True)" by simp
  from run_step [OF this demo_steps(7) [OF _ p_wait_done]] have "?run 7 L (?L Joining [WDone] SDone PDone True)" by simp
  from run_step [OF this demo_steps(8)] have "?run 8 L (?L Joining [WDone] SDone PDone False)" by simp
  from run_step [OF this demo_steps(4)] have r: "?run 9 L (?L StartReturned [WDone] SDone PDone False)" by simp
  have "life_reachable demo_cfg L" using demo_cancel [OF demo_life_reachable] by (simp add: L_def)
  from client_stops [OF this _ r] have "all_done (?L StartReturned [WDone] SDone PDone False)"
    "cl_sessions (lf_client (?L StartReturned [WDone] SDone PDone False)) = []"
    by (simp_all add: L_def demo_life_def)
  then show ?thesis using r unfolding L_def
    by (intro exI [of _ "?L StartReturned [WDone] SDone PDone False"]) (simp add: demo_life_def)
qed

lemma demo_plain: "dialer_of (cl_cfg demo_client) (path_transport (cl_cfg demo_client) demo_path) \<noteq> DialTLS"
  unfolding demo_client_def NewClient_def demo_cfg_def zero_Config_def demo_path_def Let_def
  by code_simp

text \<open>The state of \<open>handshake_blocks_stop\<close> is reachable: the only worker dials, and its peer stays silent.\<close>

lemma silent_peer_blocks_stop:
  "\<exists>L. life_reachable demo_cfg L \<and> lf_ctx L \<and> handshake_blocked L \<and>
     (\<forall>L'. life_step\<^sup>*\<^sup>* L L' \<longrightarrow> lf_main L' \<noteq> StartReturned)"
proof -
  let ?L = "\<lambda>x p. demo_life demo_client x Blocking [p] SWait PWait True" and ?r = "life_reachable demo_cfg"
  define w where "w = worker_start (cl_pathLatency demo_client)"
  have "pool_inv demo_cfg demo_client" by (rule pool_reachable_inv [OF demo_client_reachable])
  then have "worker_ok (cl_paths demo_client) w" using worker_start_ok pool_inv_lat by (simp add: w_def)
  then have idx: "w_pathIdx w < length (cl_paths demo_client)" by (simp add: worker_ok_def)
  then have p: "worker_path demo_client w = demo_path" by (simp add: worker_path_def demo_client_fields)
  have dial: "trim_space (path_Addr (worker_path demo_client w)) \<noteq> ''''" "\<not> dials_tls demo_client (worker_path demo_client w)"
    using demo_path_addr by (simp_all add: p dials_tls_def demo_plain)
  have ch: "cl_standbyCh demo_client = []" by (simp add: demo_client_def NewClient_def Let_def)
  have "?r (demo_life demo_client False (Spawning (Suc 0)) [] SWait PWait True)" using demo_life_reachable by simp
  from life_next [OF this demo_steps(1)] have "?r (demo_life demo_client False (Spawning 0) [WStart] SWait PWait True)" by simp
  from life_next [OF this demo_steps(2)] have "?r (?L False WStart)" .
  from life_next [OF this demo_steps(5) [OF _ w_start]] have "?r (?L False (WTop w))" by (simp add: w_def)
  from life_next [OF this demo_steps(5) [OF _ w_top [OF _ idx]]] have "?r (?L False (WSelect w))" by simp
  from life_next [OF this demo_steps(5) [OF _ w_select_default]] have "?r (?L False (WConnect w))" using ch by simp
  from life_next [OF this demo_steps(5) [OF _ w_dial [OF dial]]] have "?r (?L False (WDialled w))" by simp
  from life_next [OF this demo_steps(5) [OF _ w_dialled]] have "?r (?L False (WHandshake w))" by simp
  from demo_cancel [OF this] have r: "?r (?L True (WHandshake w))" .
  have f: "0 < length (lf_workers (?L True (WHandshake w)))" "in_handshake (lf_workers (?L True (WHandshake w)) ! 0)"
    by (simp_all add: demo_life_def)
  have "lf_ctx (?L True (WHandshake w))" "handshake_blocked (?L True (WHandshake w))"
    by (simp_all add: demo_life_def handshake_blocked_def)
  then show ?thesis using r handshake_blocks_stop [OF r f] by blast
qed

text \<open>The standby manager dials a session, and the only worker takes it.\<close>

definition demo_warm :: Client where
  "demo_warm = addSession 0 9 (fst (new_session demo_client))"

lemma demo_client_latency: "length (cl_pathLatency demo_client) = Suc 0"
  by (simp add: demo_client_def NewClient_def Let_def demo_cfg_def)

lemma demo_blocked:
  "\<exists>w. life_reachable demo_cfg (demo_life demo_warm True Blocking [WAccept w 0] SPause PWait False)"
proof -
  let ?L = "demo_life" and ?c1 = "fst (new_session demo_client)" and ?r = "life_reachable demo_cfg"
  let ?c2 = "?c1\<lparr>cl_standbyCh := [0]\<rparr>"
  obtain ec cmp sc where dial: "dialSession (demo_connect_env (bytes_of switchResp)) demo_client = (?c1, Session 0 ec cmp sc)"
    using demo_dial [of demo_client] by (auto simp: demo_client_fields demo_client_latency)
  have ch: "cl_standbyCh ?c1 = []" "cl_sessions ?c1 = []" "\<not> cl_closed ?c1 0" "cl_paths ?c1 \<noteq> []"
    using demo_client_fields by (simp_all add: new_session_def demo_client_def NewClient_def Let_def demo_cfg_def)
  define w where "w = worker_start (cl_pathLatency ?c2)"
  have put: "standby_put 0 ?c1 = Some ?c2" using ch by (simp add: standby_put_def)
  have take: "standby_take 9 ?c2 = Some (demo_warm, Some 0)"
    using ch by (simp add: standby_take_def demo_warm_def addSession_def Let_def)
  have "pool_inv demo_cfg ?c1" using pool_inv_new [OF pool_reachable_inv [OF demo_client_reachable]] by (metis prod.collapse)
  then have "worker_ok (cl_paths ?c1) w" using worker_start_ok pool_inv_lat by (simp add: w_def)
  then have idx: "w_pathIdx w < length (cl_paths ?c2)" by (simp add: worker_ok_def)
  have "?r (?L demo_client False (Spawning (Suc 0)) [] SWait PWait True)" using demo_life_reachable by simp
  from life_next [OF this demo_steps(1)] have "?r (?L demo_client False (Spawning 0) [WStart] SWait PWait True)" by simp
  from life_next [OF this demo_steps(2)] have "?r (?L demo_client False Blocking [WStart] SWait PWait True)" .
  from life_next [OF this demo_steps(6) [OF _ s_wait]] have "?r (?L demo_client False Blocking [WStart] STop PWait True)" by simp
  from life_next [OF this demo_steps(6) [OF _ s_top]] have "?r (?L demo_client False Blocking [WStart] SDial PWait True)" by simp
  from life_next [OF this demo_steps(6) [OF _ s_dial]] have "?r (?L demo_client False Blocking [WStart] SHandshake PWait True)" by simp
  from life_outside [OF this e_standby] have "?r (?L demo_client False Blocking [WStart] SAnswered PWait True)"
    by (simp add: demo_life_def wake_standby)
  from life_next [OF this demo_steps(6) [OF _ s_answer [OF dial]]] have "?r (?L ?c1 False Blocking [WStart] (SHold 0) PWait True)" by simp
  from life_next [OF this demo_steps(6) [OF _ s_hold [OF put]]] have "?r (?L ?c2 False Blocking [WStart] SPause PWait True)" by simp
  from life_next [OF this demo_steps(5) [OF _ w_start]] have "?r (?L ?c2 False Blocking [WTop w] SPause PWait True)"
    by (simp add: w_def)
  from life_next [OF this demo_steps(5) [OF _ w_top [OF _ idx]]] have "?r (?L ?c2 False Blocking [WSelect w] SPause PWait True)" by simp
  from life_next [OF this demo_steps(5) [OF _ w_select_standby [OF take]]]
  have "?r (?L demo_warm False Blocking [WReuse w 0] SPause PWait True)" by simp
  from life_next [OF this demo_steps(5) [OF _ w_reuse]] have "?r (?L demo_warm False Blocking [WAccept w 0] SPause PWait True)" by simp
  from life_next [OF demo_cancel [OF this] demo_steps(8)] show ?thesis by blast
qed

lemma demo_warm_open: "\<not> cl_closed demo_warm 0" "sids demo_warm = [0]"
  using demo_client_fields by (simp_all add: demo_warm_def addSession_def new_session_def sids_def)

theorem standby_blocks_stop_witness:
  "\<exists>L. life_reachable demo_cfg L \<and> lf_ctx L \<and> (\<forall>L'. life_step\<^sup>*\<^sup>* L L' \<longrightarrow> lf_main L' \<noteq> StartReturned \<and> \<not> cl_closed (lf_client L') 0)"
proof -
  obtain w where r: "life_reachable demo_cfg (demo_life demo_warm True Blocking [WAccept w 0] SPause PWait False)" (is "life_reachable _ ?L")
    using demo_blocked by blast
  have f: "lf_ctx ?L" "\<not> lf_health ?L" "0 < length (lf_workers ?L)" "lf_workers ?L ! 0 = WAccept w 0" "\<not> cl_closed (lf_client ?L) 0"
    using demo_warm_open by (simp_all add: demo_life_def)
  have "lf_main L' \<noteq> StartReturned \<and> \<not> cl_closed (lf_client L') 0" if "life_step\<^sup>*\<^sup>* ?L L'" for L'
    using standby_blocks_stop [OF r f that] by blast
  then show ?thesis using r f(1) by blast
qed

theorem life_sessions_witness:
  "\<exists>L. life_reachable demo_cfg L \<and> sids (lf_client L) = [0] \<and> sessionCount (lf_client L) \<le> length (lf_workers L) \<and>
     length (lf_workers L) = 1"
proof -
  obtain w where r: "life_reachable demo_cfg (demo_life demo_warm True Blocking [WAccept w 0] SPause PWait False)" (is "life_reachable _ ?L")
    using demo_blocked by blast
  from life_sessions [OF r] r demo_warm_open show ?thesis by (intro exI [of _ ?L]) (simp add: demo_life_def)
qed

end
