(* ===== verification/Server_Reverse.thy ===== *)
theory Server_Reverse
  imports Server_Sessions Relay
begin

text \<open>
  The reverse listeners of \<^verbatim>\<open>server.go\<close>: the ports \<open>Start\<close> opens, \<open>handleReverseTCP\<close> for an accepted TCP
  connection, and the UDP listener with its table of peers as a machine driven by events (a datagram
  arrives, the cleanup ticks, a stream delivers, a stream dies).
\<close>

section \<open>Listeners\<close>

datatype protocol = TCP | UDP

definition reverse_listeners :: "Config \<Rightarrow> (protocol \<times> string \<times> string) list" where
  "reverse_listeners cfg =
     map (Pair TCP) (List.map_filter SplitMap (ForwardTCP cfg)) @
     map (Pair UDP) (List.map_filter SplitMap (ForwardUDP cfg))"

section \<open>Reverse TCP\<close>

text \<open>
  A connection for which no stream can be opened is given a second attempt two seconds later, on the
  server as it is then (\<open>meanwhile\<close> is what other goroutines do to it).  The result is the stream that
  \<open>relay\<close> gets, or None when the local connection is closed.
\<close>

type_synonym 'st opener = "(sid \<Rightarrow> goerror + 'st) \<times> string list"

definition handleReverseTCP ::
    "conn opener \<Rightarrow> (Server \<Rightarrow> Server) \<Rightarrow> conn opener \<Rightarrow> string \<Rightarrow> Server \<Rightarrow> Server \<times> conn option outcome" where
  "handleReverseTCP first meanwhile again target s =
     (let finish = (\<lambda>(s, stream). case sendTarget stream (''tcp://'' @ target) of
                      (st, Some e) \<Rightarrow> (s, Ok None) | (st, None) \<Rightarrow> (s, Ok (Some st)))
      in case openStream (fst first) (snd first) s of
           (s, Ok stream) \<Rightarrow> finish (s, stream)
         | (s, Panic p) \<Rightarrow> (s, Panic p)
         | (s, Err e) \<Rightarrow>
             (case openStream (fst again) (snd again) (meanwhile s) of
                (s, Ok stream) \<Rightarrow> finish (s, stream)
              | (s, Panic p) \<Rightarrow> (s, Panic p)
              | (s, Err e) \<Rightarrow> (s, Ok None)))"

section \<open>Reverse UDP\<close>

text \<open>A peer's stream is a connection; times are seconds.  The address is the key of the table.\<close>

record udpPeer =
  up_lastSeen :: int
  up_stream :: conn

record udp_listener =
  ul_peers :: "string \<rightharpoonup> udpPeer"
  ul_server :: Server
  ul_replies :: "(string \<times> bytes) list"   \<comment> \<open>datagrams written to UDP peers\<close>

definition udp_new_peer :: "conn opener \<Rightarrow> string \<Rightarrow> int \<Rightarrow> udp_listener \<Rightarrow> udp_listener \<times> udpPeer option" where
  "udp_new_peer opener target now u =
     (case openStream (fst opener) (snd opener) (ul_server u) of
        (s, Ok stream) \<Rightarrow>
          (u\<lparr>ul_server := s\<rparr>,
           case sendTarget stream (''udp://'' @ target) of
             (st, Some e) \<Rightarrow> None
           | (st, None) \<Rightarrow> Some \<lparr>up_lastSeen = now, up_stream = st\<rparr>)
      | (s, _) \<Rightarrow> (u\<lparr>ul_server := s\<rparr>, None))"

text \<open>The loop body for one datagram: an empty one is skipped, and the result of \<open>Write\<close> is ignored.\<close>

definition udp_packet :: "conn opener \<Rightarrow> string \<Rightarrow> int \<Rightarrow> string \<Rightarrow> bytes \<Rightarrow> udp_listener \<Rightarrow> udp_listener" where
  "udp_packet opener target now key pkt u =
     (if pkt = [] then u
      else
        case (case ul_peers u key of Some p \<Rightarrow> (u, Some p) | None \<Rightarrow> udp_new_peer opener target now u) of
          (u, None) \<Rightarrow> u
        | (u, Some p) \<Rightarrow>
            u\<lparr>ul_peers := (ul_peers u)(key \<mapsto>
               p\<lparr>up_lastSeen := now, up_stream := fst (conn_write (up_stream p) pkt)\<rparr>)\<rparr>)"

definition udp_cleanup :: "int \<Rightarrow> string list \<Rightarrow> udp_listener \<Rightarrow> udp_listener" where
  "udp_cleanup now ks u = u\<lparr>ul_peers := sweep (\<lambda>p. now - up_lastSeen p > 120) ks (ul_peers u)\<rparr>"

text \<open>One turn of the reply goroutine of a peer: what a \<open>Read\<close> of \<open>n\<close> bytes returns becomes one datagram.\<close>

definition udp_reply :: "string \<Rightarrow> nat \<Rightarrow> udp_listener \<Rightarrow> udp_listener" where
  "udp_reply key n u =
     (case ul_peers u key of
        None \<Rightarrow> u
      | Some p \<Rightarrow>
          let st = up_stream p; rb = take (min n 65535) (conn_in st)
          in if conn_closed st \<or> rb = [] then u
             else u\<lparr>ul_peers := (ul_peers u)(key \<mapsto> p\<lparr>up_stream := st\<lparr>conn_in := drop (length rb) (conn_in st)\<rparr>\<rparr>),
                    ul_replies := ul_replies u @ [(key, rb)]\<rparr>)"

text \<open>The session below a stream dies; nothing tells the listener.\<close>

definition udp_stream_dies :: "string \<Rightarrow> udp_listener \<Rightarrow> udp_listener" where
  "udp_stream_dies key u =
     (case ul_peers u key of
        None \<Rightarrow> u
      | Some p \<Rightarrow> u\<lparr>ul_peers := (ul_peers u)(key \<mapsto> p\<lparr>up_stream := conn_close (up_stream p)\<rparr>)\<rparr>)"

datatype udp_event = Packet "conn opener" int string bytes | Tick int "string list" | Reply string nat | Dies string

fun udp_handle :: "string \<Rightarrow> udp_event \<Rightarrow> udp_listener \<Rightarrow> udp_listener" where
  "udp_handle target (Packet opener now key pkt) u = udp_packet opener target now key pkt u"
| "udp_handle target (Tick now ks) u = udp_cleanup now ks u"
| "udp_handle target (Reply key n) u = udp_reply key n u"
| "udp_handle target (Dies key) u = udp_stream_dies key u"

definition udp_run :: "string \<Rightarrow> udp_event list \<Rightarrow> udp_listener \<Rightarrow> udp_listener" where
  "udp_run target evs u = fold (udp_handle target) evs u"

section \<open>One peer among the others\<close>

text \<open>The datagrams of a peer in a run, and whether every cleanup tick finds it fresh.\<close>

fun packets_of :: "string \<Rightarrow> udp_event list \<Rightarrow> bytes list" where
  "packets_of k [] = []"
| "packets_of k (Packet opener t k' d # evs) = (if k' = k then d # packets_of k evs else packets_of k evs)"
| "packets_of k (_ # evs) = packets_of k evs"

fun kept_fresh :: "string \<Rightarrow> int \<Rightarrow> udp_event list \<Rightarrow> bool" where
  "kept_fresh k seen [] \<longleftrightarrow> True"
| "kept_fresh k seen (Packet opener t k' d # evs) \<longleftrightarrow> kept_fresh k (if k' = k \<and> d \<noteq> [] then t else seen) evs"
| "kept_fresh k seen (Tick t ks # evs) \<longleftrightarrow> t - seen \<le> 120 \<and> kept_fresh k seen evs"
| "kept_fresh k seen (_ # evs) \<longleftrightarrow> kept_fresh k seen evs"

lemma udp_new_peer_peers [simp]: "ul_peers (fst (udp_new_peer opener target now u)) = ul_peers u"
  by (simp add: udp_new_peer_def split: prod.split outcome.split)

lemma udp_packet_other: "k' \<noteq> k \<Longrightarrow> ul_peers (udp_packet opener target t k' d u) k = ul_peers u k"
  using udp_new_peer_peers [of opener target t u]
  by (cases "udp_new_peer opener target t u") (auto simp: udp_packet_def split: option.split)

lemma udp_packet_known:
  "ul_peers u k = Some p \<Longrightarrow> d \<noteq> [] \<Longrightarrow> udp_packet opener target t k d u =
     u\<lparr>ul_peers := (ul_peers u)(k \<mapsto> p\<lparr>up_lastSeen := t, up_stream := fst (conn_write (up_stream p) d)\<rparr>)\<rparr>"
  by (simp add: udp_packet_def)

text \<open>What a run does to the stream of a peer that is never swept: \<open>follow\<close> keeps track of it alone.\<close>

fun follow :: "string \<Rightarrow> udp_event list \<Rightarrow> udpPeer \<Rightarrow> udpPeer" where
  "follow k [] p = p"
| "follow k (Packet opener t k' d # evs) p =
     follow k evs (if k' = k \<and> d \<noteq> [] then p\<lparr>up_lastSeen := t, up_stream := fst (conn_write (up_stream p) d)\<rparr> else p)"
| "follow k (Tick t ks # evs) p = follow k evs p"
| "follow k (Reply k' n # evs) p =
     follow k evs (if k' = k \<and> \<not> conn_closed (up_stream p)
       then p\<lparr>up_stream := (up_stream p)\<lparr>conn_in := drop (min n 65535) (conn_in (up_stream p))\<rparr>\<rparr> else p)"
| "follow k (Dies k' # evs) p = follow k evs (if k' = k then p\<lparr>up_stream := conn_close (up_stream p)\<rparr> else p)"

lemma reply_peer:
  "ul_peers u k = Some p \<Longrightarrow> ul_peers (udp_reply k' n u) k =
     Some (if k' = k \<and> \<not> conn_closed (up_stream p)
       then p\<lparr>up_stream := (up_stream p)\<lparr>conn_in := drop (min n 65535) (conn_in (up_stream p))\<rparr>\<rparr> else p)"
  by (cases p) (auto simp: udp_reply_def Let_def min_def split: option.split)

lemma udp_run_follow:
  "ul_peers u k = Some p \<Longrightarrow> kept_fresh k (up_lastSeen p) evs \<Longrightarrow>
   ul_peers (udp_run target evs u) k = Some (follow k evs p)"
proof (induction k evs p arbitrary: u rule: follow.induct)
  case (2 k opener t k' d evs p)
  let ?p = "if k' = k \<and> d \<noteq> [] then p\<lparr>up_lastSeen := t, up_stream := fst (conn_write (up_stream p) d)\<rparr> else p"
  have "ul_peers (udp_packet opener target t k' d u) k = Some ?p"
  proof (cases "k' = k \<and> d \<noteq> []")
    case True
    then show ?thesis using udp_packet_known [OF 2(2)] by simp
  next
    case False
    then show ?thesis using 2(2) udp_packet_other [of k' k] by (cases "k' = k") (auto simp: udp_packet_def)
  qed
  moreover have "kept_fresh k (up_lastSeen ?p) evs" using 2(3) by (auto split: if_splits)
  ultimately show ?case using 2(1) by (simp add: udp_run_def)
next
  case (3 k t ks evs p)
  then show ?case by (simp add: udp_run_def udp_cleanup_def sweep_lookup)
next
  case (4 k k' n evs p)
  from reply_peer [OF 4(2), of k' n] show ?case using 4(1) 4(3) by (simp add: udp_run_def split: if_splits)
next
  case (5 k k' evs p)
  then show ?case by (simp add: udp_run_def udp_stream_dies_def split: option.split)
qed (simp add: udp_run_def)

lemma follow_dead:
  "conn_closed (up_stream p) \<Longrightarrow>
   conn_out (up_stream (follow k evs p)) = conn_out (up_stream p) \<and> conn_closed (up_stream (follow k evs p))"
  by (induction k evs p rule: follow.induct) (simp_all add: conn_write_def conn_close_def)

lemma follow_alive:
  "\<not> conn_closed (up_stream p) \<Longrightarrow> conn_room (up_stream p) = None \<Longrightarrow> Dies k \<notin> set evs \<Longrightarrow>
   conn_out (up_stream (follow k evs p)) = conn_out (up_stream p) @ concat (packets_of k evs)"
  by (induction k evs p rule: follow.induct) (auto simp: conn_write_unlimited)

lemma udp_packet_first:
  assumes "ul_peers u k = None" "d \<noteq> []" "openStream (fst opener) (snd opener) (ul_server u) = (s, Ok st)"
    and "\<not> conn_closed st" "conn_room st = None"
  shows "udp_packet opener target t k d u = u\<lparr>ul_server := s, ul_peers := (ul_peers u)(k \<mapsto>
    \<lparr>up_lastSeen = t, up_stream = st\<lparr>conn_out := conn_out st @
       put_uint16 (word_of_nat (length (''udp://'' @ target))) @ bytes_of (''udp://'' @ target) @ d\<rparr>\<rparr>)\<rparr>"
proof -
  have "udp_new_peer opener target t u = (u\<lparr>ul_server := s\<rparr>, Some \<lparr>up_lastSeen = t, up_stream = st\<lparr>conn_out := conn_out st @
       put_uint16 (word_of_nat (length (''udp://'' @ target))) @ bytes_of (''udp://'' @ target)\<rparr>\<rparr>)"
    unfolding udp_new_peer_def assms(3) prod.case outcome.case sendTarget_ok [OF assms(4,5)] option.case by (rule refl)
  then show ?thesis using assms(1,2,4,5) by (simp add: udp_packet_def conn_write_unlimited)
qed

text \<open>
  C18: The stream of a UDP peer carries its datagrams.  When the first datagram of a peer opens a stream,
  then in every run of events in which each cleanup finds the peer fresh and its stream does not die,
  whatever the other peers do, the stream has carried the target header followed by the datagrams of this
  peer and no other, in order, all of them, without anything between them.  The client's end dials the
  target and then reads the concatenation; the boundaries of the datagrams are not in the stream.
\<close>

theorem udp_peer_stream:
  assumes "ul_peers u k = None" "d \<noteq> []" "openStream (fst opener) (snd opener) (ul_server u) = (s, Ok st)"
    and "\<not> conn_closed st" "conn_room st = None" "conn_out st = []"
    and "kept_fresh k t evs" "Dies k \<notin> set evs" "0 < length target" "length target \<le> 4090"
    and "u' = udp_run target (Packet opener t k d # evs) u"
  shows "\<exists>p. ul_peers u' k = Some p \<and>
    conn_out (up_stream p) = put_uint16 (word_of_nat (length (''udp://'' @ target))) @ bytes_of (''udp://'' @ target) @
      concat (packets_of k (Packet opener t k d # evs)) \<and>
    (\<forall>cl. \<not> conn_closed cl \<and> conn_in cl = conn_out (up_stream p) \<longrightarrow>
       handleReverseStream dial cl =
         (case dial ''udp'' target of
            None \<Rightarrow> (conn_close (cl\<lparr>conn_in := concat (packets_of k (Packet opener t k d # evs))\<rparr>), DialFailed ''udp'' target)
          | Some r \<Rightarrow> (cl\<lparr>conn_in := concat (packets_of k (Packet opener t k d # evs))\<rparr>, Relayed ''udp'' target r)))"
proof -
  let ?tg = "''udp://'' @ target" and ?all = "concat (packets_of k (Packet opener t k d # evs))"
  let ?hdr = "put_uint16 (word_of_nat (length ?tg)) @ bytes_of ?tg"
  define p where "p = \<lparr>up_lastSeen = t, up_stream = st\<lparr>conn_out := ?hdr @ d\<rparr>\<rparr>"
  have "ul_peers (udp_packet opener target t k d u) k = Some p"
    using udp_packet_first [OF assms(1-5)] assms(6) by (simp add: p_def)
  then have "ul_peers u' k = Some (follow k evs p)"
    using udp_run_follow [of _ k p evs] assms(7,11) by (simp add: udp_run_def p_def)
  moreover have out: "conn_out (up_stream (follow k evs p)) = ?hdr @ ?all"
    using follow_alive [of p k evs] assms(4,5,8) by (simp add: p_def)
  moreover have "handleReverseStream dial cl =
      (case dial ''udp'' target of
         None \<Rightarrow> (conn_close (cl\<lparr>conn_in := ?all\<rparr>), DialFailed ''udp'' target)
       | Some r \<Rightarrow> (cl\<lparr>conn_in := ?all\<rparr>, Relayed ''udp'' target r))"
    if "\<not> conn_closed cl" "conn_in cl = conn_out (up_stream (follow k evs p))" for cl
  proof -
    have "read_target cl = (cl\<lparr>conn_in := ?all\<rparr>, Some ?tg)"
      using read_target_sent [of cl ?tg ?all "length ?tg"] that out assms(9,10) by simp
    then show ?thesis unfolding handleReverseStream_def by (simp only: prod.case option.case splitTarget_scheme)
  qed
  ultimately show ?thesis by auto
qed

definition udp_demo :: udp_listener where
  "udp_demo = \<lparr>ul_peers = (\<lambda>_. None), ul_server = one_session, ul_replies = []\<rparr>"

definition udp_opener :: "conn opener" where
  "udp_opener = (\<lambda>_. Inr \<lparr>conn_in = [], conn_out = [], conn_room = None, conn_closed = False\<rparr>, [''1.2.3.4:5''])"

lemma udp_demo_open:
  "openStream (fst udp_opener) (snd udp_opener) (ul_server udp_demo) =
     (one_session, Ok \<lparr>conn_in = [], conn_out = [], conn_room = None, conn_closed = False\<rparr>)"
  by (simp add: udp_opener_def udp_demo_def openStream_def one_session_sel)

theorem udp_peer_stream_witness:
  "\<exists>p. ul_peers (udp_run ''h:1'' [Packet udp_opener 0 ''a'' [1, 2], Packet udp_opener 1 ''b'' [9], Tick 100 [''a'', ''b''],
      Packet udp_opener 110 ''a'' [3]] udp_demo) ''a'' = Some p \<and>
     conn_out (up_stream p) = put_uint16 9 @ bytes_of ''udp://h:1'' @ [1, 2, 3]"
  using udp_peer_stream [OF _ _ udp_demo_open, of "''a''" "[1, 2]" 0
      "[Packet udp_opener 1 ''b'' [9], Tick 100 [''a'', ''b''], Packet udp_opener 110 ''a'' [3]]" "''h:1''" _ "\<lambda>_ _. Some ()"]
  by (auto simp: udp_demo_def)

text \<open>
  C37: A peer outlives its stream.  Once the session below a peer's stream has died, every further datagram
  of that peer is lost: as long as the peer sends often enough that each cleanup tick finds it fresh, it
  stays in the table with the dead stream, nothing is written to any stream for it and no new stream is
  opened, although other sessions may be usable.
\<close>

theorem udp_peer_stuck:
  assumes "ul_peers u k = Some p" "conn_closed (up_stream p)" "kept_fresh k (up_lastSeen p) evs"
  shows "\<exists>p'. ul_peers (udp_run target evs u) k = Some p' \<and> conn_closed (up_stream p') \<and>
    conn_out (up_stream p') = conn_out (up_stream p)"
  using udp_run_follow [OF assms(1,3)] follow_dead [OF assms(2)] by auto

definition udp_dead :: udp_listener where
  "udp_dead = udp_run ''h:1'' [Packet udp_opener 0 ''a'' [1], Dies ''a''] udp_demo"

theorem udp_peer_stuck_witness:
  "\<exists>p'. ul_peers (udp_run ''h:1'' [Packet udp_opener 90 ''a'' [2], Tick 120 [''a''], Packet udp_opener 200 ''a'' [3],
       Tick 300 [''a'']] udp_dead) ''a'' = Some p' \<and> conn_out (up_stream p') = put_uint16 9 @ bytes_of ''udp://h:1'' @ [1]"
proof -
  let ?p = "\<lparr>up_lastSeen = 0, up_stream = \<lparr>conn_in = [], conn_out = put_uint16 9 @ bytes_of ''udp://h:1'' @ [1],
    conn_room = None, conn_closed = True\<rparr>\<rparr>"
  have "ul_peers udp_dead ''a'' = Some ?p"
    using udp_packet_first [OF _ _ udp_demo_open, of "''a''" "[1]" "''h:1''" 0]
    by (simp add: udp_dead_def udp_run_def udp_stream_dies_def conn_close_def udp_demo_def)
  from udp_peer_stuck [OF this, of "[Packet udp_opener 90 ''a'' [2], Tick 120 [''a''], Packet udp_opener 200 ''a'' [3],
       Tick 300 [''a'']]" "''h:1''"] show ?thesis by auto
qed

section \<open>A TCP connection through both ends\<close>

lemma handleReverseTCP_stream:
  assumes "openStream (fst opener) (snd opener) s = (s', Ok st0)" "\<not> conn_closed st0" "conn_room st0 = None"
  shows "handleReverseTCP opener meanwhile again target s = (s', Ok (Some (st0\<lparr>conn_out := conn_out st0 @
    put_uint16 (word_of_nat (length (''tcp://'' @ target))) @ bytes_of (''tcp://'' @ target)\<rparr>)))"
  unfolding handleReverseTCP_def Let_def assms(1) prod.case outcome.case sendTarget_ok [OF assms(2,3)] option.case by (rule refl)

text \<open>
  C3: A TCP connection to a port of the server, end to end.  The server opens a stream, announces the target
  and relays; the client reads the announcement, dials exactly that target and relays.  When the stream
  between the two hands on the bytes written to it in order, then in every interleaving of the four copying
  goroutines the target has received a prefix of what the connecting side has sent, the connecting side a
  prefix of what the target has sent, nothing added or out of order, and all of it once both relays have
  nothing left to read and still run in that direction.
\<close>

theorem reverse_tcp_end_to_end:
  assumes "openStream (fst opener) (snd opener) s = (s', Ok st0)" "\<not> conn_closed st0" "conn_room st0 = None"
      "conn_out st0 = []" "0 < length target" "length target \<le> 4090"
    and "handleReverseTCP opener meanwhile again target s = (s'', Ok (Some st))"
    and "relay_step\<^sup>*\<^sup>* (relay_start local st ea eb statS) sS"
    and "\<not> conn_closed cl" "conn_out cl = []" "handleReverseStream dial cl = (cl', Relayed network addr remote)"
    and "relay_step\<^sup>*\<^sup>* (relay_start cl' remote ec er statC) sC"
    and "conn_in cl = conn_out (end_b sS)" "conn_in st0 = conn_out (end_a sC)"
    and "int64_range (BytesSent statS)" "int64_range (BytesRecv statS)" "int64_range (BytesSent statC)" "int64_range (BytesRecv statC)"
  shows "network = ''tcp'' \<and> addr = target \<and> dial ''tcp'' target = Some remote \<and>
    (\<exists>k. conn_out (end_b sC) = conn_out remote @ take k (conn_in local) \<and>
       (cp_to_b sS = Copying \<and> conn_in (end_a sS) = [] \<and> cp_to_b sC = Copying \<and> conn_in (end_a sC) = [] \<longrightarrow>
        take k (conn_in local) = conn_in local)) \<and>
    (\<exists>j. conn_out (end_a sS) = conn_out local @ take j (conn_in remote) \<and>
       (cp_to_a sC = Copying \<and> conn_in (end_b sC) = [] \<and> cp_to_a sS = Copying \<and> conn_in (end_b sS) = [] \<longrightarrow>
        take j (conn_in remote) = conn_in remote))"
proof -
  let ?tg = "''tcp://'' @ target"
  let ?hdr = "put_uint16 (word_of_nat (length ?tg)) @ bytes_of ?tg"
  have st: "st = st0\<lparr>conn_out := ?hdr\<rparr>" using handleReverseTCP_stream [OF assms(1-3)] assms(4,7) by simp
  note S = relay_flows [OF assms(15,16,8)] and C = relay_flows [OF assms(17,18,12)]
  obtain rest where rest: "conn_out (end_b sS) = ?hdr @ rest" using S(1) by (auto simp: flow_inv_def st)
  have rt: "read_target cl = (cl\<lparr>conn_in := rest\<rparr>, Some ?tg)"
    using read_target_sent [of cl ?tg rest "length ?tg"] assms(5,6,9,13) rest by simp
  have cl: "cl' = cl\<lparr>conn_in := rest\<rparr>" "network = ''tcp''" "addr = target" "dial ''tcp'' target = Some remote"
    using assms(11) by (auto simp: handleReverseStream_def rt splitTarget_scheme(1) [simplified] split: option.splits)
  have "conn_out (end_b sS) = conn_out st @ conn_in cl'" using rest by (simp add: st cl)
  from flow_chain [OF S(1) C(1) this] have fwd: "\<exists>k. conn_out (end_b sC) = conn_out remote @ take k (conn_in local) \<and>
       (cp_to_b sS = Copying \<and> conn_in (end_a sS) = [] \<and> cp_to_b sC = Copying \<and> conn_in (end_a sC) = [] \<longrightarrow>
        take k (conn_in local) = conn_in local)" .
  have "conn_out (end_a sC) = conn_out cl' @ conn_in st" using assms(10,14) by (simp add: st cl)
  from flow_chain [OF C(2) S(2) this] fwd cl show ?thesis by blast
qed

lemma relay_one_chunk:
  assumes "conn_in a = d" "0 < length d" "length d \<le> relayBufSize" "\<not> conn_closed b" "conn_room b = None"
  shows "\<exists>s. relay_step (relay_start a b ea eb st) s \<and> end_a s = a\<lparr>conn_in := []\<rparr> \<and>
    end_b s = b\<lparr>conn_out := conn_out b @ d\<rparr> \<and> cp_to_b s = Copying"
proof -
  let ?s = "relay_start a b ea eb st"
  have "cp_step (eof_a ?s) (end_a ?s, end_b ?s, BytesRecv (rl_stats ?s), cp_to_b ?s)
      (a\<lparr>conn_in := []\<rparr>, b\<lparr>conn_out := conn_out b @ d\<rparr>, MeasuredReader_Read (BytesRecv (rl_stats ?s)) d, Copying)"
    using cp_chunk [of a d "[]" b] assms conn_write_unlimited [OF assms(4,5)] by (simp add: relay_start_def)
  from to_b [OF this] show ?thesis by (metis (no_types, lifting) relay.select_convs relay.update_convs relay.surjective)
qed

theorem reverse_tcp_end_to_end_witness:
  "\<exists>sS sC. relay_step\<^sup>*\<^sup>* (relay_start (demo_stream\<lparr>conn_in := [7, 8]\<rparr>)
        (demo_stream\<lparr>conn_out := put_uint16 9 @ bytes_of ''tcp://h:1''\<rparr>) True False (init_Stats 0)) sS \<and>
     relay_step\<^sup>*\<^sup>* (relay_start (demo_stream\<lparr>conn_in := [7, 8]\<rparr>) demo_stream False False (init_Stats 0)) sC \<and>
     conn_out (end_b sC) = [7, 8] \<and> conn_out (end_a sS) = []"
proof -
  let ?hdr = "put_uint16 9 @ bytes_of ''tcp://h:1''" and ?i = "demo_stream\<lparr>conn_in := [7, 8]\<rparr>"
  let ?st = "demo_stream\<lparr>conn_out := ?hdr\<rparr>" and ?cl = "demo_stream\<lparr>conn_in := ?hdr @ [7, 8]\<rparr>"
  have open_s: "openStream (fst udp_opener) (snd udp_opener) one_session = (one_session, Ok demo_stream)"
    using udp_demo_open by (simp add: udp_demo_def demo_stream_def)
  have d: "\<not> conn_closed demo_stream" "conn_room demo_stream = None" "conn_out demo_stream = []" "conn_in demo_stream = []"
    by (simp_all add: demo_stream_def)
  have h: "handleReverseTCP udp_opener id udp_opener ''h:1'' one_session = (one_session, Ok (Some ?st))"
    using handleReverseTCP_stream [OF open_s d(1,2)] by (simp add: d)
  have len: "length [7, 8 :: byte] \<le> relayBufSize" by (simp add: relayBufSize_def)
  obtain sS where S: "relay_step (relay_start ?i ?st True False (init_Stats 0)) sS" "end_a sS = demo_stream"
    "end_b sS = demo_stream\<lparr>conn_out := ?hdr @ [7, 8]\<rparr>" "cp_to_b sS = Copying"
    using relay_one_chunk [of ?i "[7, 8]" ?st True False "init_Stats 0"] len d by (auto simp: demo_stream_def)
  obtain sC where C: "relay_step (relay_start ?i demo_stream False False (init_Stats 0)) sC" "end_a sC = demo_stream"
    "cp_to_b sC = Copying"
    using relay_one_chunk [of ?i "[7, 8]" demo_stream False False "init_Stats 0"] len d by (auto simp: demo_stream_def)
  have "read_target ?cl = (?i, Some ''tcp://h:1'')"
    using read_target_sent [of ?cl "''tcp://h:1''" "[7, 8]" 9] d by (simp add: demo_stream_def)
  then have r: "handleReverseStream (\<lambda>_ _. Some demo_stream) ?cl = (?i, Relayed ''tcp'' ''h:1'' demo_stream)"
    using splitTarget_scheme(1) [of "''h:1''"] by (simp add: handleReverseStream_def)
  have range: "int64_range (BytesSent (init_Stats 0))" "int64_range (BytesRecv (init_Stats 0))"
    by (simp_all add: init_Stats_def int64_range_def)
  have S': "relay_step\<^sup>*\<^sup>* (relay_start ?i ?st True False (init_Stats 0)) sS" using S(1) by (rule r_into_rtranclp)
  have C': "relay_step\<^sup>*\<^sup>* (relay_start ?i demo_stream False False (init_Stats 0)) sC" using C(1) by (rule r_into_rtranclp)
  from reverse_tcp_end_to_end [OF open_s d(1,2,3) _ _ h S' _ _ r C' _ _ range range]
  obtain k j where "conn_out (end_b sC) = take k [7, 8]" "take k [7, 8 :: byte] = [7, 8]" "conn_out (end_a sS) = []"
    using S C d by auto
  then show ?thesis using S' C' by metis
qed

end
