(* ===== verification/Server_Lifecycle.thy ===== *)
theory Server_Lifecycle
  imports Server_Http Server_Reverse Shutdown
begin

text \<open>
  \<open>Server.Start\<close> (\<^verbatim>\<open>server.go\<close>): the reverse listeners and the session cleanup it waits for, the goroutines that
  close a listener and sweep the peers of a UDP listener, the HTTP server with its error channel, and the
  final select between the end of the context and a failure of the HTTP server.
\<close>

section \<open>A reverse listener\<close>

text \<open>
  \<open>startReverseTCP\<close> and \<open>startReverseUDP\<close>.  \<open>LListen\<close>: the socket is not open yet; \<open>LAccept\<close>: in \<open>Accept\<close> or
  \<open>ReadFromUDP\<close>; \<open>LSleep\<close>: the pause of a TCP listener after an error.  What the handlers do is in
  \<^theory_text>\<open>Server_Reverse\<close>.  A TCP connection gets a goroutine of its own, but a UDP listener handles each datagram
  itself, in \<open>LBusy\<close>: it opens a stream, sends the target and writes the packet to the stream, which waits without
  a deadline as long as the client at the other end does not read.
\<close>

datatype lphase = LListen | LAccept | LBusy | LSleep | LDone

datatype sock = NoSocket | Listening | SocketClosed

record listener =
  li_spec :: "protocol \<times> string \<times> string"
  li_phase :: lphase
  li_sock :: sock
  li_closer :: bool      \<comment> \<open>the goroutine that closes the socket when the context ends\<close>
  li_sweeper :: bool     \<comment> \<open>the goroutine that sweeps stale UDP peers\<close>

definition new_listener :: "protocol \<times> string \<times> string \<Rightarrow> listener" where
  "new_listener m = \<lparr>li_spec = m, li_phase = LListen, li_sock = NoSocket, li_closer = False, li_sweeper = False\<rparr>"

text \<open>What \<open>return\<close> does: the deferred \<open>ln.Close()\<close>.\<close>

definition listener_return :: "listener \<Rightarrow> listener" where
  "listener_return l = l\<lparr>li_phase := LDone, li_sock := (if li_sock l = NoSocket then NoSocket else SocketClosed)\<rparr>"

definition accept_failed :: "bool \<Rightarrow> listener \<Rightarrow> listener" where
  "accept_failed ctx l =
     (if ctx then listener_return l
      else case fst (li_spec l) of TCP \<Rightarrow> l\<lparr>li_phase := LSleep\<rparr> | UDP \<Rightarrow> l)"

text \<open>The socket is open; two goroutines watch the context, the second only for UDP.\<close>

definition listener_opened :: "listener \<Rightarrow> listener" where
  "listener_opened l =
     l\<lparr>li_phase := LAccept, li_sock := Listening, li_closer := True, li_sweeper := (fst (li_spec l) = UDP)\<rparr>"

inductive listener_step :: "bool \<Rightarrow> listener \<Rightarrow> listener \<Rightarrow> bool" for ctx where
  li_failed: "li_phase l = LListen \<Longrightarrow> listener_step ctx l (listener_return l)"
| li_open: "li_phase l = LListen \<Longrightarrow> listener_step ctx l (listener_opened l)"
| li_accept: "li_phase l = LAccept \<Longrightarrow> li_sock l = SocketClosed \<Longrightarrow> listener_step ctx l (accept_failed ctx l)"
| li_wake: "li_phase l = LSleep \<Longrightarrow> listener_step ctx l (l\<lparr>li_phase := LAccept\<rparr>)"
| li_close: "ctx \<Longrightarrow> li_closer l \<Longrightarrow> listener_step ctx l (l\<lparr>li_closer := False, li_sock := SocketClosed\<rparr>)"
| li_swept: "ctx \<Longrightarrow> li_sweeper l \<Longrightarrow> listener_step ctx l (l\<lparr>li_sweeper := False\<rparr>)"

section \<open>Start\<close>

datatype http_phase = HttpServing | HttpFailed goerror | HttpShut

datatype srv_main = SrvSelect | SrvShutdown | SrvJoin | SrvReturned "goerror option"

record srv_life =
  sv_ctx :: bool
  sv_main :: srv_main
  sv_routes :: "(string \<times> handler) list"
  sv_http :: http_phase
  sv_listeners :: "listener list"
  sv_cleanup :: bool             \<comment> \<open>\<open>cleanupSessions\<close> still running\<close>
  sv_closing :: bool             \<comment> \<open>it is in the \<open>Close\<close> of a zombie session, or waits for the lock of one that is\<close>
  sv_server :: Server

text \<open>The registration of routes can panic; the listeners have been started by then.\<close>

definition server_start :: "Config \<Rightarrow> srv_life outcome" where
  "server_start cfg =
     and_then (start_routes (Some (Mimic cfg))) (\<lambda>routes.
       Ok \<lparr>sv_ctx = False, sv_main = SrvSelect, sv_routes = routes, sv_http = HttpServing,
           sv_listeners = map new_listener (reverse_listeners cfg), sv_cleanup = True, sv_closing = False, sv_server = NewServer cfg\<rparr>)"

definition srv_all_done :: "srv_life \<Rightarrow> bool" where
  "srv_all_done L \<longleftrightarrow> list_all (\<lambda>l. li_phase l = LDone) (sv_listeners L) \<and> \<not> sv_cleanup L"

text \<open>With compression, \<open>Close\<close> flushes what a \<open>Write\<close> that is stuck has left in the buffer, and so waits for the peer.\<close>

definition cleanup_blocked :: "srv_life \<Rightarrow> bool" where
  "cleanup_blocked L \<longleftrightarrow> sv_cleanup L \<and> sv_closing L \<and> compression_on (srv_Config (sv_server L))"

definition udp_blocked :: "srv_life \<Rightarrow> bool" where
  "udp_blocked L \<longleftrightarrow> (\<exists>l \<in> set (sv_listeners L). fst (li_spec l) = UDP \<and> li_phase l = LBusy)"

definition srv_over :: "srv_life \<Rightarrow> bool" where
  "srv_over L \<longleftrightarrow> (\<exists>r. sv_main L = SrvReturned r)"

inductive sv_step :: "srv_life \<Rightarrow> srv_life \<Rightarrow> bool" where
  sv_failed: "sv_main L = SrvSelect \<Longrightarrow> sv_http L = HttpFailed e \<Longrightarrow>
    sv_step L (L\<lparr>sv_main := SrvReturned (Some (Wrapped ''HTTP server failed'' e))\<rparr>)"
| sv_stop: "sv_main L = SrvSelect \<Longrightarrow> sv_ctx L \<Longrightarrow> sv_step L (L\<lparr>sv_main := SrvShutdown\<rparr>)"
| sv_shut: "sv_main L = SrvShutdown \<Longrightarrow> sv_step L (L\<lparr>sv_main := SrvJoin, sv_http := HttpShut\<rparr>)"
| sv_join: "sv_main L = SrvJoin \<Longrightarrow> srv_all_done L \<Longrightarrow> sv_step L (L\<lparr>sv_main := SrvReturned None\<rparr>)"
| sv_listener: "\<not> srv_over L \<Longrightarrow> k < length (sv_listeners L) \<Longrightarrow> listener_step (sv_ctx L) (sv_listeners L ! k) l' \<Longrightarrow>
    sv_step L (L\<lparr>sv_listeners := (sv_listeners L)[k := l']\<rparr>)"
| sv_clean_done: "\<not> srv_over L \<Longrightarrow> sv_cleanup L \<Longrightarrow> sv_ctx L \<Longrightarrow> \<not> cleanup_blocked L \<Longrightarrow> sv_step L (L\<lparr>sv_cleanup := False\<rparr>)"

text \<open>
  From outside: a tick of the cleanup and the return of the \<open>Close\<close> in it, anything that handlers and sessions do
  to the session table, an \<open>Accept\<close> that fails although its listener is open, a datagram and the end of its
  handling, a failure of the HTTP server, the cancellation.
\<close>

inductive sv_event :: "srv_life \<Rightarrow> srv_life \<Rightarrow> bool" where
  v_tick: "sv_cleanup L \<Longrightarrow> \<not> sv_closing L \<Longrightarrow>
    sv_event L (L\<lparr>sv_server := cleanupSessions now order (sv_server L), sv_closing := b\<rparr>)"
| v_closed: "sv_event L (L\<lparr>sv_closing := False\<rparr>)"
| v_sessions: "srv_step (sv_server L, ps) (s', ps') \<Longrightarrow> sv_event L (L\<lparr>sv_server := s'\<rparr>)"
| v_accept: "k < length (sv_listeners L) \<Longrightarrow> li_phase (sv_listeners L ! k) = LAccept \<Longrightarrow>
    sv_event L (L\<lparr>sv_listeners := (sv_listeners L)[k := accept_failed (sv_ctx L) (sv_listeners L ! k)]\<rparr>)"
| v_datagram: "k < length (sv_listeners L) \<Longrightarrow> li_phase (sv_listeners L ! k) = LAccept \<Longrightarrow>
    fst (li_spec (sv_listeners L ! k)) = UDP \<Longrightarrow> li_sock (sv_listeners L ! k) = Listening \<Longrightarrow>
    sv_event L (L\<lparr>sv_listeners := (sv_listeners L)[k := (sv_listeners L ! k)\<lparr>li_phase := LBusy\<rparr>]\<rparr>)"
| v_handled: "k < length (sv_listeners L) \<Longrightarrow> li_phase (sv_listeners L ! k) = LBusy \<Longrightarrow>
    sv_event L (L\<lparr>sv_listeners := (sv_listeners L)[k := (sv_listeners L ! k)\<lparr>li_phase := LAccept\<rparr>]\<rparr>)"
| v_http: "sv_http L = HttpServing \<Longrightarrow> sv_event L (L\<lparr>sv_http := HttpFailed e\<rparr>)"
| v_cancel: "sv_event L (L\<lparr>sv_ctx := True\<rparr>)"

inductive sv_reachable :: "Config \<Rightarrow> srv_life \<Rightarrow> bool" for cfg where
  sv_init: "server_start cfg = Ok L \<Longrightarrow> sv_reachable cfg L"
| sv_next: "sv_reachable cfg L \<Longrightarrow> sv_step L L' \<Longrightarrow> sv_reachable cfg L'"
| sv_outside: "sv_reachable cfg L \<Longrightarrow> sv_event L L' \<Longrightarrow> sv_reachable cfg L'"

section \<open>Invariant\<close>

text \<open>
  A listener that is neither before its start nor at its end has a socket, which is closed or will be closed
  when the context ends; one that has ended leaves no socket open; and the set of configured ports is kept.
\<close>

fun listener_ok :: "listener \<Rightarrow> bool" where
  "listener_ok l = (case li_phase l of
     LListen \<Rightarrow> li_sock l = NoSocket \<and> \<not> li_closer l \<and> \<not> li_sweeper l
   | LDone \<Rightarrow> li_sock l \<noteq> Listening
   | LBusy \<Rightarrow> fst (li_spec l) = UDP \<and> (li_sock l = SocketClosed \<or> li_sock l = Listening \<and> li_closer l)
   | _ \<Rightarrow> li_sock l = SocketClosed \<or> li_sock l = Listening \<and> li_closer l)"

declare listener_ok.simps [simp del]

lemma listener_return_ok: "listener_ok (listener_return l)"
  by (simp add: listener_ok.simps listener_return_def)

lemma accept_failed_ok: "listener_ok l \<Longrightarrow> li_phase l = LAccept \<Longrightarrow> listener_ok (accept_failed ctx l)"
  by (simp add: accept_failed_def listener_return_ok split: protocol.split) (simp add: listener_ok.simps)

lemma listener_step_ok: "listener_step ctx l l' \<Longrightarrow> listener_ok l \<Longrightarrow> listener_ok l'"
proof (induction rule: listener_step.induct)
  case (li_failed l)
  show ?case by (rule listener_return_ok)
next
  case (li_accept l)
  then show ?case by (simp add: accept_failed_ok)
qed (auto simp: listener_opened_def listener_ok.simps split: lphase.splits)

lemma spec_kept: "li_spec (accept_failed ctx l) = li_spec l"
  by (simp add: accept_failed_def listener_return_def split: protocol.split)

lemma listener_step_spec: "listener_step ctx l l' \<Longrightarrow> li_spec l' = li_spec l"
  by (induction rule: listener_step.induct) (simp_all add: spec_kept listener_return_def listener_opened_def)

definition sv_inv :: "Config \<Rightarrow> srv_life \<Rightarrow> bool" where
  "sv_inv cfg L \<longleftrightarrow> list_all listener_ok (sv_listeners L) \<and> map li_spec (sv_listeners L) = reverse_listeners cfg \<and>
     (sv_main L = SrvReturned None \<longrightarrow> srv_all_done L) \<and>
     (\<forall>x. sv_main L = SrvReturned (Some x) \<longrightarrow> (\<exists>e. sv_http L = HttpFailed e \<and> x = Wrapped ''HTTP server failed'' e))"

lemma specs_replace: "li_spec l' = li_spec (ls ! k) \<Longrightarrow> map li_spec (ls[k := l']) = map li_spec ls"
  by (metis list_update_id map_update)

lemma sv_inv_step: "sv_step L L' \<Longrightarrow> sv_inv cfg L \<Longrightarrow> sv_inv cfg L'"
proof (induction rule: sv_step.induct)
  case (sv_listener L k l')
  have "listener_ok l'" using listener_step_ok [OF sv_listener.hyps(3)] sv_listener.prems sv_listener.hyps(2)
    by (simp add: sv_inv_def list_all_length)
  then show ?case
    using sv_listener listener_step_spec [OF sv_listener.hyps(3)]
    by (auto simp: sv_inv_def list_all_replace specs_replace srv_over_def)
qed (auto simp: sv_inv_def srv_all_done_def srv_over_def)

lemma sv_inv_event: "sv_event L L' \<Longrightarrow> sv_inv cfg L \<Longrightarrow> sv_inv cfg L'"
proof (induction rule: sv_event.induct)
  case (v_accept k L)
  let ?l = "sv_listeners L ! k"
  have "listener_ok (accept_failed (sv_ctx L) ?l)"
    using v_accept by (intro accept_failed_ok) (simp_all add: sv_inv_def list_all_length)
  moreover have "\<not> srv_all_done L" using v_accept by (auto simp: srv_all_done_def list_all_length)
  ultimately show ?case
    using v_accept spec_kept [of "sv_ctx L" ?l]
    by (auto simp: sv_inv_def list_all_replace specs_replace)
next
  case (v_datagram k L)
  let ?l = "sv_listeners L ! k"
  have "listener_ok ?l" using v_datagram by (simp add: sv_inv_def list_all_length)
  then have "listener_ok (?l\<lparr>li_phase := LBusy\<rparr>)" using v_datagram by (simp add: listener_ok.simps)
  moreover have "\<not> srv_all_done L" using v_datagram by (auto simp: srv_all_done_def list_all_length)
  ultimately show ?case using v_datagram by (auto simp: sv_inv_def list_all_replace specs_replace)
next
  case (v_handled k L)
  let ?l = "sv_listeners L ! k"
  have "listener_ok ?l" using v_handled by (simp add: sv_inv_def list_all_length)
  then have "listener_ok (?l\<lparr>li_phase := LAccept\<rparr>)" using v_handled by (simp add: listener_ok.simps)
  moreover have "\<not> srv_all_done L" using v_handled by (auto simp: srv_all_done_def list_all_length)
  ultimately show ?case using v_handled by (auto simp: sv_inv_def list_all_replace specs_replace)
qed (auto simp: sv_inv_def srv_all_done_def)

lemma sv_reachable_inv: "sv_reachable cfg L \<Longrightarrow> sv_inv cfg L"
proof (induction rule: sv_reachable.induct)
  case (sv_init L)
  then show ?case
    by (cases "start_routes (Some (Mimic cfg))")
      (auto simp: server_start_def sv_inv_def list_all_iff new_listener_def listener_ok.simps comp_def)
qed (auto intro: sv_inv_step sv_inv_event)

section \<open>Stopping\<close>

fun lrank :: "lphase \<Rightarrow> nat" where
  "lrank LListen = 4"
| "lrank LAccept = 1"
| "lrank LBusy = 1"
| "lrank LSleep = 2"
| "lrank LDone = 0"

definition listener_rank :: "listener \<Rightarrow> nat" where
  "listener_rank l = lrank (li_phase l) + (if li_closer l then 1 else 0) + (if li_sweeper l then 1 else 0)"

fun srv_main_rank :: "srv_main \<Rightarrow> nat" where
  "srv_main_rank SrvSelect = 3"
| "srv_main_rank SrvShutdown = 2"
| "srv_main_rank SrvJoin = 1"
| "srv_main_rank (SrvReturned r) = 0"

definition srv_rank :: "srv_life \<Rightarrow> nat" where
  "srv_rank L = srv_main_rank (sv_main L) + sum_list (map listener_rank (sv_listeners L)) + (if sv_cleanup L then 1 else 0)"

definition srv_stopping :: "srv_life \<Rightarrow> bool" where
  "srv_stopping L \<longleftrightarrow> sv_ctx L \<and> (\<exists>cfg. sv_reachable cfg L)"

lemma listener_step_rank: "listener_step True l l' \<Longrightarrow> listener_ok l \<Longrightarrow> listener_rank l' < listener_rank l"
  by (induction rule: listener_step.induct)
    (auto simp: listener_rank_def accept_failed_def listener_return_def listener_opened_def listener_ok.simps)

lemma accept_failed_rank: "li_phase l = LAccept \<Longrightarrow> listener_rank (accept_failed True l) \<le> listener_rank l"
  by (simp add: listener_rank_def accept_failed_def listener_return_def)

lemma listener_can:
  assumes "listener_ok l" "li_phase l \<noteq> LDone" "li_phase l \<noteq> LBusy"
  shows "\<exists>l'. listener_step True l l'"
proof (cases "li_phase l")
  case LAccept
  then consider "li_sock l = SocketClosed" | "li_closer l" using assms(1) by (auto simp: listener_ok.simps)
  then show ?thesis using li_accept [OF LAccept] li_close [OF TrueI] by cases blast+
next
  case LListen
  then show ?thesis using li_failed by blast
next
  case LSleep
  then show ?thesis using li_wake by blast
qed (use assms(2,3) in simp_all)

lemma srv_stopping_facts: "srv_stopping L \<Longrightarrow> sv_ctx L \<and> list_all listener_ok (sv_listeners L)"
  using sv_reachable_inv by (auto simp: srv_stopping_def sv_inv_def)

lemma srv_stopping_step: "srv_stopping L \<Longrightarrow> sv_step L L' \<Longrightarrow> srv_stopping L'"
proof -
  assume s: "srv_stopping L" "sv_step L L'"
  have "sv_ctx L' = sv_ctx L" using s(2) by (cases rule: sv_step.cases) simp_all
  then show ?thesis using s sv_next unfolding srv_stopping_def by blast
qed

lemma srv_stopping_event: "srv_stopping L \<Longrightarrow> sv_event L L' \<Longrightarrow> srv_stopping L'"
proof -
  assume s: "srv_stopping L" "sv_event L L'"
  have "sv_ctx L \<Longrightarrow> sv_ctx L'" using s(2) by (cases rule: sv_event.cases) simp_all
  then show ?thesis using s sv_outside unfolding srv_stopping_def by blast
qed

lemma srv_rank_step: "srv_stopping L \<Longrightarrow> sv_step L L' \<Longrightarrow> srv_rank L' < srv_rank L"
proof -
  assume s: "srv_stopping L" "sv_step L L'"
  note f = srv_stopping_facts [OF s(1)]
  show ?thesis
    using s(2)
  proof (cases rule: sv_step.cases)
    case (sv_listener k l')
    have "listener_rank l' < listener_rank (sv_listeners L ! k)"
      using listener_step_rank sv_listener f by (simp add: list_all_length)
    then show ?thesis
      using sum_list_replace [OF sv_listener(3), of listener_rank l'] by (simp add: sv_listener(1) srv_rank_def)
  qed (simp_all add: srv_rank_def)
qed

lemma srv_rank_event: "srv_stopping L \<Longrightarrow> sv_event L L' \<Longrightarrow> srv_rank L' \<le> srv_rank L"
proof -
  assume s: "srv_stopping L" "sv_event L L'"
  note f = srv_stopping_facts [OF s(1)]
  show ?thesis
    using s(2)
  proof (cases rule: sv_event.cases)
    case (v_accept k)
    have "listener_rank (accept_failed (sv_ctx L) (sv_listeners L ! k)) \<le> listener_rank (sv_listeners L ! k)"
      using accept_failed_rank v_accept f by simp
    then show ?thesis
      using sum_list_replace [OF v_accept(2), of listener_rank "accept_failed (sv_ctx L) (sv_listeners L ! k)"]
      by (simp add: v_accept(1) srv_rank_def)
  next
    case (v_datagram k)
    then have "listener_rank ((sv_listeners L ! k)\<lparr>li_phase := LBusy\<rparr>) = listener_rank (sv_listeners L ! k)"
      by (simp add: listener_rank_def)
    then show ?thesis
      using sum_list_replace [OF v_datagram(2), of listener_rank "(sv_listeners L ! k)\<lparr>li_phase := LBusy\<rparr>"]
      by (simp add: v_datagram(1) srv_rank_def)
  next
    case (v_handled k)
    then have "listener_rank ((sv_listeners L ! k)\<lparr>li_phase := LAccept\<rparr>) = listener_rank (sv_listeners L ! k)"
      by (simp add: listener_rank_def)
    then show ?thesis
      using sum_list_replace [OF v_handled(2), of listener_rank "(sv_listeners L ! k)\<lparr>li_phase := LAccept\<rparr>"]
      by (simp add: v_handled(1) srv_rank_def)
  qed (simp_all add: srv_rank_def)
qed

lemma srv_progress:
  assumes "srv_stopping L" "\<not> srv_over L" "\<not> (udp_blocked L \<or> cleanup_blocked L)"
  shows "\<exists>L'. sv_step L L'"
proof -
  note f = srv_stopping_facts [OF assms(1)]
  consider "sv_main L = SrvSelect" | "sv_main L = SrvShutdown" | "sv_main L = SrvJoin"
    using assms(2) by (cases "sv_main L") (auto simp: srv_over_def)
  then show ?thesis
  proof cases
    case 3
    consider "srv_all_done L" | "sv_cleanup L" | l where "l \<in> set (sv_listeners L)" "li_phase l \<noteq> LDone"
      unfolding srv_all_done_def list_all_iff by blast
    then show ?thesis
    proof cases
      case 1
      then show ?thesis using sv_join 3 by blast
    next
      case 2
      then show ?thesis using sv_clean_done assms(2,3) f by blast
    next
      case (3 l)
      then obtain k where k: "k < length (sv_listeners L)" "sv_listeners L ! k = l" by (auto simp: in_set_conv_nth)
      have "listener_ok l" using f 3(1) by (simp add: list_all_iff)
      moreover from this have "li_phase l \<noteq> LBusy" using assms(3) 3(1) by (auto simp: udp_blocked_def listener_ok.simps)
      ultimately obtain l' where "listener_step True l l'" using listener_can 3(2) by blast
      then show ?thesis using sv_listener [OF assms(2) k(1)] f k(2) by metis
    qed
  qed (use sv_stop sv_shut f in blast)+
qed

interpretation server_stop: winding_down sv_step sv_event srv_stopping srv_rank srv_over "\<lambda>L. udp_blocked L \<or> cleanup_blocked L"
  by unfold_locales (rule srv_stopping_step srv_stopping_event srv_rank_step srv_rank_event srv_progress; assumption)+

lemma sv_run_reachable: "run_with sv_step sv_event n L L' \<Longrightarrow> sv_reachable cfg L \<Longrightarrow> sv_reachable cfg L'"
  by (induction rule: run_with.induct) (auto intro: sv_next sv_outside)

text \<open>
  C20: How the server stops.  Once its context is cancelled the goroutines of \<open>Start\<close> take at most \<open>srv_rank\<close>
  more steps in every schedule, whatever connects, arrives, fails or ends meanwhile.  When no step is left,
  \<open>Start\<close> has returned, unless it waits for a client: a UDP listener is handling a datagram and its write to
  the stream does not return (nothing closes the sessions when the context ends), or, with compression, the
  cleanup waits for the flush in the \<open>Close\<close> of a session.  \<open>Start\<close> returns nil only when every configured
  listener and the cleanup have ended and no socket of a listener is open; otherwise it returns the wrapped
  error of the HTTP server.
\<close>

theorem server_stops:
  assumes "sv_reachable cfg L" "sv_ctx L" "run_with sv_step sv_event n L L'"
  shows "n + srv_rank L' \<le> srv_rank L \<and>
    ((\<forall>L''. \<not> sv_step L' L'') \<longrightarrow> (\<exists>r. sv_main L' = SrvReturned r) \<or> udp_blocked L' \<or> cleanup_blocked L') \<and>
    map li_spec (sv_listeners L') = reverse_listeners cfg \<and>
    (sv_main L' = SrvReturned None \<longrightarrow> \<not> sv_cleanup L' \<and>
       (\<forall>l \<in> set (sv_listeners L'). li_phase l = LDone \<and> li_sock l \<noteq> Listening)) \<and>
    (\<forall>x. sv_main L' = SrvReturned (Some x) \<longrightarrow> (\<exists>e. sv_http L' = HttpFailed e \<and> x = Wrapped ''HTTP server failed'' e))"
proof -
  have s: "srv_stopping L" using assms(1,2) by (auto simp: srv_stopping_def)
  have inv: "sv_inv cfg L'" by (rule sv_reachable_inv [OF sv_run_reachable [OF assms(3,1)]])
  have "li_phase l = LDone \<and> li_sock l \<noteq> Listening" if "srv_all_done L'" "l \<in> set (sv_listeners L')" for l
    using that inv by (auto simp: srv_all_done_def sv_inv_def list_all_iff listener_ok.simps)
  then show ?thesis
    using server_stop.run_bounded [OF assms(3) s] server_stop.run_ends [OF assms(3) s] inv
    by (auto simp: srv_over_def sv_inv_def srv_all_done_def)
qed

text \<open>
  The wait of a UDP listener is real: no step of the server ends it, closing the listener's socket included, so that
  \<open>Start\<close> does not return nil as long as the client does not read.
\<close>

lemma busy_step:
  assumes "sv_step L L'" "k < length (sv_listeners L)" "li_phase (sv_listeners L ! k) = LBusy"
  shows "k < length (sv_listeners L') \<and> li_phase (sv_listeners L' ! k) = LBusy"
  using assms(1)
proof (cases rule: sv_step.cases)
  case (sv_listener j l')
  have "li_phase l' = LBusy" if "j = k"
    using sv_listener(4) assms(3) that by (cases rule: listener_step.cases) auto
  then show ?thesis using sv_listener(1) assms(2,3) by (cases "j = k") simp_all
qed (use assms(2,3) in simp_all)

lemma busy_blocks_stop:
  assumes "sv_reachable cfg L" "k < length (sv_listeners L)" "li_phase (sv_listeners L ! k) = LBusy" "sv_step\<^sup>*\<^sup>* L L'"
  shows "sv_main L' \<noteq> SrvReturned None \<and> li_phase (sv_listeners L' ! k) = LBusy"
proof -
  have "sv_reachable cfg L' \<and> k < length (sv_listeners L') \<and> li_phase (sv_listeners L' ! k) = LBusy"
    using assms(4)
  proof (induction rule: rtranclp_induct)
    case (step L1 L2)
    then show ?case using busy_step [OF step.hyps(2), of k] sv_next by blast
  qed (use assms in blast)
  moreover from this have "\<not> srv_all_done L'" by (auto simp: srv_all_done_def list_all_length)
  ultimately show ?thesis using sv_reachable_inv by (auto simp: sv_inv_def)
qed

section \<open>A run\<close>

definition demo_ports :: Config where
  "demo_ports = zero_Config\<lparr>Mimic := demo_mimic, ForwardTCP := [''1->h:2'']\<rparr>"

definition demo_srv_life :: "srv_main \<Rightarrow> http_phase \<Rightarrow> bool \<Rightarrow> bool \<Rightarrow> listener \<Rightarrow> srv_life" where
  "demo_srv_life m h x cl l = \<lparr>sv_ctx = x, sv_main = m,
     sv_routes = [(''/s/'', HandleTunnel), (''/tunnel'', HandleTunnel), (''/'', HandleDecoy)], sv_http = h,
     sv_listeners = [l], sv_cleanup = cl, sv_closing = False, sv_server = NewServer demo_ports\<rparr>"

definition demo_listener :: "lphase \<Rightarrow> sock \<Rightarrow> bool \<Rightarrow> listener" where
  "demo_listener p s c = \<lparr>li_spec = (TCP, ''0.0.0.0:1'', ''h:2''), li_phase = p, li_sock = s, li_closer = c, li_sweeper = False\<rparr>"

lemma demo_ports_start:
  "server_start demo_ports = Ok (demo_srv_life SrvSelect HttpServing False True (demo_listener LListen NoSocket False))"
proof -
  have "SplitMap ''1->h:2'' = Some (''0.0.0.0:1'', ''h:2'')" by code_simp
  then have "reverse_listeners demo_ports = [(TCP, ''0.0.0.0:1'', ''h:2'')]"
    by (simp add: reverse_listeners_def demo_ports_def zero_Config_def List.map_filter_def)
  then show ?thesis
    using demo_routes by (simp add: server_start_def demo_srv_life_def demo_listener_def new_listener_def demo_ports_def)
qed

theorem server_stops_witness:
  "\<exists>L L'. sv_reachable demo_ports L \<and> sv_ctx L \<and> run_with sv_step sv_event 6 L L' \<and> sv_main L' = SrvReturned None \<and>
     map li_spec (sv_listeners L') = [(TCP, ''0.0.0.0:1'', ''h:2'')] \<and> (\<forall>l \<in> set (sv_listeners L'). li_sock l \<noteq> Listening)"
proof -
  let ?L = demo_srv_life and ?l = demo_listener and ?run = "run_with sv_step sv_event"
  define S where "S = ?L SrvSelect HttpServing True True (?l LAccept Listening True)"
  have step: "sv_step (?L m h x c l) (?L m h x c l')" if "listener_step x l l'" "m = SrvSelect" for m h x c l l'
    using sv_listener [of "?L m h x c l" 0 l'] that by (simp add: demo_srv_life_def srv_over_def)
  have "sv_reachable demo_ports (?L SrvSelect HttpServing False True (?l LListen NoSocket False))"
    by (rule sv_init [OF demo_ports_start])
  moreover have "listener_step False (?l LListen NoSocket False) (?l LAccept Listening True)"
    using li_open [of "?l LListen NoSocket False" False] by (simp add: demo_listener_def listener_opened_def)
  ultimately have "sv_reachable demo_ports (?L SrvSelect HttpServing False True (?l LAccept Listening True))"
    using sv_next step by blast
  from sv_outside [OF this v_cancel] have r: "sv_reachable demo_ports S" by (simp add: demo_srv_life_def S_def)
  have "?run 0 S (?L SrvSelect HttpServing True True (?l LAccept Listening True))" unfolding S_def by (rule run_refl)
  moreover have "listener_step True (?l LAccept Listening True) (?l LAccept SocketClosed False)"
    using li_close [of True "?l LAccept Listening True"] by (simp add: demo_listener_def)
  ultimately have "?run 1 S (?L SrvSelect HttpServing True True (?l LAccept SocketClosed False))"
    using run_step step by fastforce
  moreover have "listener_step True (?l LAccept SocketClosed False) (?l LDone SocketClosed False)"
    using li_accept [of "?l LAccept SocketClosed False" True]
    by (simp add: demo_listener_def accept_failed_def listener_return_def)
  ultimately have "?run 2 S (?L SrvSelect HttpServing True True (?l LDone SocketClosed False))"
    using run_step step by (metis Suc_1)
  from run_step [OF this sv_clean_done] have "?run 3 S (?L SrvSelect HttpServing True False (?l LDone SocketClosed False))"
    by (simp add: demo_srv_life_def srv_over_def cleanup_blocked_def)
  from run_step [OF this sv_stop] have "?run 4 S (?L SrvShutdown HttpServing True False (?l LDone SocketClosed False))"
    by (simp add: demo_srv_life_def)
  from run_step [OF this sv_shut] have "?run 5 S (?L SrvJoin HttpShut True False (?l LDone SocketClosed False))"
    by (simp add: demo_srv_life_def)
  from run_step [OF this sv_join] have e: "?run 6 S (?L (SrvReturned None) HttpShut True False (?l LDone SocketClosed False))"
    by (simp add: demo_srv_life_def srv_all_done_def demo_listener_def)
  have "sv_ctx S" by (simp add: S_def demo_srv_life_def)
  from server_stops [OF r this e] show ?thesis using r e \<open>sv_ctx S\<close>
    by (intro exI [of _ S] exI [of _ "?L (SrvReturned None) HttpShut True False (?l LDone SocketClosed False)"])
      (simp add: demo_srv_life_def demo_listener_def)
qed

end
