(* ===== verification/Dns_Proxy.thy ===== *)
theory Dns_Proxy
  imports Client_Pool
begin

text \<open>
  \<^verbatim>\<open>dns.go\<close>: the response cache with its time to live, behind the interface \<open>ttl_cache\<close>, and the handling
  of one query by \<open>DNSProxy\<close>.  Queries are handled by concurrent goroutines; a handler touches the cache in
  two critical sections, its lookup and its store, which are the steps of the state machine.
\<close>

section \<open>The cache\<close>

record dnsCacheEntry =
  dce_response :: bytes
  dce_expiresAt :: int

type_synonym dnsCache = "bytes \<rightharpoonup> dnsCacheEntry"

definition cache_Get :: "int \<Rightarrow> dnsCache \<Rightarrow> bytes \<Rightarrow> bytes option" where
  "cache_Get now c key =
     (case c key of
        None \<Rightarrow> None
      | Some e \<Rightarrow> if now > dce_expiresAt e then None else Some (dce_response e))"

definition cache_Set :: "int \<Rightarrow> dnsCache \<Rightarrow> bytes \<Rightarrow> bytes \<Rightarrow> int \<Rightarrow> dnsCache" where
  "cache_Set now c key response ttl = c(key \<mapsto> \<lparr>dce_response = response, dce_expiresAt = now + ttl\<rparr>)"

definition cache_Cleanup :: "int \<Rightarrow> bytes list \<Rightarrow> dnsCache \<Rightarrow> dnsCache" where
  "cache_Cleanup now ks c = sweep (\<lambda>e. now > dce_expiresAt e) ks c"

text \<open>
  A history of stores (key, value, time to live) and cleanups (the keys visited) with their times, latest
  first; what it leaves of an empty cache; and the specification, by which the latest store for a key
  decides as long as it has not expired.
\<close>

type_synonym ('k, 'v) history = "(int \<times> ('k \<times> 'v \<times> int + 'k list)) list"

fun run_history ::
    "(int \<Rightarrow> 'c \<Rightarrow> 'k \<Rightarrow> 'v \<Rightarrow> int \<Rightarrow> 'c) \<Rightarrow> (int \<Rightarrow> 'k list \<Rightarrow> 'c \<Rightarrow> 'c) \<Rightarrow> 'c \<Rightarrow> ('k, 'v) history \<Rightarrow> 'c" where
  "run_history put clean start [] = start"
| "run_history put clean start ((t, Inl (k, v, ttl)) # h) = put t (run_history put clean start h) k v ttl"
| "run_history put clean start ((t, Inr ks) # h) = clean t ks (run_history put clean start h)"

fun latest :: "'k \<Rightarrow> ('k, 'v) history \<Rightarrow> (int \<times> 'v \<times> int) option" where
  "latest k [] = None"
| "latest k ((t, Inl (k', v, ttl)) # h) = (if k' = k then Some (t, v, ttl) else latest k h)"
| "latest k ((t, Inr ks) # h) = latest k h"

text \<open>What a user of a cache with expiry relies on.  A cleanup is invisible from its time on.\<close>

locale ttl_cache =
  fixes get :: "int \<Rightarrow> 'c \<Rightarrow> 'k \<Rightarrow> 'v option"
    and put :: "int \<Rightarrow> 'c \<Rightarrow> 'k \<Rightarrow> 'v \<Rightarrow> int \<Rightarrow> 'c"
    and clean :: "int \<Rightarrow> 'k list \<Rightarrow> 'c \<Rightarrow> 'c"
    and start :: 'c
  assumes get_start: "get now start k = None"
    and get_put: "get now (put t c k v ttl) k' = (if k' = k then if now \<le> t + ttl then Some v else None else get now c k')"
    and get_clean: "t \<le> now \<Longrightarrow> get now (clean t ks c) k = get now c k"
begin

lemma get_history:
  "\<forall>(t, x) \<in> set h. t \<le> now \<Longrightarrow> get now (run_history put clean start h) k =
     (case latest k h of None \<Rightarrow> None | Some (t, v, ttl) \<Rightarrow> if now \<le> t + ttl then Some v else None)"
proof (induction k h rule: latest.induct)
  case (3 k t ks h)
  then show ?case by (simp add: get_clean)
qed (auto simp: get_start get_put)

end

interpretation dns: ttl_cache cache_Get cache_Set cache_Cleanup "\<lambda>_. None"
  by unfold_locales (auto simp: cache_Get_def cache_Set_def cache_Cleanup_def sweep_lookup split: option.split)

section \<open>One query\<close>

text \<open>The lookup: a cached response gets the transaction id of the query.\<close>

definition dns_lookup :: "int \<Rightarrow> dnsCache \<Rightarrow> bytes \<Rightarrow> bytes option outcome" where
  "dns_lookup now cache query =
     and_then (slice query 2 (int (length query))) (\<lambda>cacheKey.
       case cache_Get now cache cacheKey of
         None \<Rightarrow> Ok None
       | Some reply \<Rightarrow>
           and_then (slice reply 0 2) (\<lambda>dst.
           and_then (slice query 0 2) (\<lambda>src. Ok (Some (copy_into dst src @ drop 2 reply)))))"

text \<open>
  Asking upstream through the tunnel: \<open>rd\<close> is the number of bytes the single \<open>Read\<close> delivers, or None when it
  fails or its deadline passes.  No reply is None.
\<close>

definition dns_fetch ::
    "(nat \<Rightarrow> 64 word) \<Rightarrow> (sid \<Rightarrow> goerror + conn) \<Rightarrow> nat option \<Rightarrow> string \<Rightarrow> bytes \<Rightarrow> Client \<Rightarrow> Client \<times> bytes option outcome" where
  "dns_fetch others opn rd upstream query c =
     (case OpenStream others opn (''udp://'' @ upstream) c of
        (c, Err e) \<Rightarrow> (c, Ok None)
      | (c, Panic p) \<Rightarrow> (c, Panic p)
      | (c, Ok (_, stream)) \<Rightarrow>
          (case conn_write stream query of
             (_, _, Some e) \<Rightarrow> (c, Ok None)
           | (st, _, None) \<Rightarrow>
               (case rd of
                  None \<Rightarrow> (c, Ok None)
                | Some k \<Rightarrow>
                    let resp = take (min k 4096) (conn_in st)
                    in (c, Ok (if resp = [] then None else Some resp)))))"

definition dns_ttl :: int where
  "dns_ttl = 60 * second"

definition dns_store :: "int \<Rightarrow> bytes \<Rightarrow> bytes \<Rightarrow> dnsCache \<Rightarrow> dnsCache" where
  "dns_store now query resp cache = cache_Set now cache (drop 2 query) resp dns_ttl"

datatype dns_reply = FromCache bytes | FromUpstream bytes | NoReply | DnsPanic panic

text \<open>
  A handler; \<open>now\<close> and \<open>later\<close> are the times of its two critical sections, \<open>others\<close> is what concurrent handlers
  add to the counter of \<open>OpenStream\<close> in between.
\<close>

definition handleQuery ::
    "int \<Rightarrow> int \<Rightarrow> (nat \<Rightarrow> 64 word) \<Rightarrow> (sid \<Rightarrow> goerror + conn) \<Rightarrow> nat option \<Rightarrow> string \<Rightarrow> bytes \<Rightarrow>
     dnsCache \<times> Client \<Rightarrow> (dnsCache \<times> Client) \<times> dns_reply" where
  "handleQuery now later others opn rd upstream query = (\<lambda>(cache, c).
     case dns_lookup now cache query of
       Panic p \<Rightarrow> ((cache, c), DnsPanic p)
     | Err e \<Rightarrow> ((cache, c), NoReply)
     | Ok (Some reply) \<Rightarrow> ((cache, c), FromCache reply)
     | Ok None \<Rightarrow>
         (case dns_fetch others opn rd upstream query c of
            (c, Panic p) \<Rightarrow> ((cache, c), DnsPanic p)
          | (c, Err e) \<Rightarrow> ((cache, c), NoReply)
          | (c, Ok None) \<Rightarrow> ((cache, c), NoReply)
          | (c, Ok (Some resp)) \<Rightarrow> ((dns_store later query resp cache, c), FromUpstream resp)))"

section \<open>The read loop\<close>

text \<open>
  \<open>Start\<close>: the two errors it returns, and otherwise a loop that never ends.  A read error is skipped; a datagram,
  cut to the buffer of 4096 bytes, is copied and handed with its sender to a handler of its own.  The
  periodic cleanup beside the loop is the step \<open>swept\<close> of the state machine.
\<close>

record DNSProxy =
  dp_Listen :: string
  dp_Upstream :: string
  dp_Client :: Client
  dp_Verbose :: bool

datatype dns_recv = Datagram string bytes | ReadFailed goerror

fun dns_queries :: "dns_recv list \<Rightarrow> (string \<times> bytes) list" where
  "dns_queries [] = []"
| "dns_queries (ReadFailed e # evs) = dns_queries evs"
| "dns_queries (Datagram addr d # evs) = (addr, take 4096 d) # dns_queries evs"

definition DNSProxy_Start ::
    "(string \<Rightarrow> goerror + 'addr) \<Rightarrow> ('addr \<Rightarrow> goerror option) \<Rightarrow> dns_recv list \<Rightarrow> DNSProxy \<Rightarrow> (string \<times> bytes) list outcome" where
  "DNSProxy_Start resolve listen evs d =
     (case resolve (dp_Listen d) of
        Inl e \<Rightarrow> Err e
      | Inr addr \<Rightarrow> (case listen addr of Some e \<Rightarrow> Err e | None \<Rightarrow> Ok (dns_queries evs)))"

lemma dns_queries_mem: "(a, q) \<in> set (dns_queries evs) \<longleftrightarrow> (\<exists>d. Datagram a d \<in> set evs \<and> q = take 4096 d)"
  by (induction evs rule: dns_queries.induct) auto

text \<open>An empty datagram reaches a handler, unlike one to a reverse UDP listener, and crashes it.\<close>

lemma short_datagram_crashes:
  assumes "DNSProxy_Start resolve listen evs d = Ok qs" "Datagram a x \<in> set evs" "length x < 2"
  shows "\<exists>q. (a, q) \<in> set qs \<and> (\<exists>p. snd (handleQuery now later others opn rd (dp_Upstream d) q s) = DnsPanic p)"
proof -
  have "(a, x) \<in> set qs"
    using assms dns_queries_mem [of a x evs]
    by (fastforce simp: DNSProxy_Start_def split: sum.splits option.splits)
  moreover have "\<exists>p. snd (handleQuery now later others opn rd (dp_Upstream d) x s) = DnsPanic p"
    using assms(3) by (cases s) (auto simp: handleQuery_def dns_lookup_def slice_def)
  ultimately show ?thesis by blast
qed

section \<open>Concurrent queries\<close>

text \<open>
  The proxy at a point in time: the cache, the queries that missed it and wait for upstream, and (for the
  statements only) the responses received so far with their times.
\<close>

record dns_state =
  ds_now :: int
  ds_cache :: dnsCache
  ds_inflight :: "bytes list"
  ds_log :: "(int \<times> bytes \<times> bytes) list"

inductive dns_step :: "dns_state \<Rightarrow> dns_state \<Rightarrow> bool" where
  passes: "ds_now s \<le> t \<Longrightarrow> dns_step s (s\<lparr>ds_now := t\<rparr>)"
| missed: "dns_lookup (ds_now s) (ds_cache s) q = Ok None \<Longrightarrow> dns_step s (s\<lparr>ds_inflight := q # ds_inflight s\<rparr>)"
| answered: "q \<in> set (ds_inflight s) \<Longrightarrow> dns_fetch others opn rd upstream q c = (c', Ok (Some resp)) \<Longrightarrow>
    dns_step s (s\<lparr>ds_cache := dns_store (ds_now s) q resp (ds_cache s), ds_inflight := remove1 q (ds_inflight s),
      ds_log := (ds_now s, drop 2 q, resp) # ds_log s\<rparr>)"
| unanswered: "q \<in> set (ds_inflight s) \<Longrightarrow> dns_fetch others opn rd upstream q c = (c', Ok None) \<Longrightarrow>
    dns_step s (s\<lparr>ds_inflight := remove1 q (ds_inflight s)\<rparr>)"
| swept: "dom (ds_cache s) = set ks \<Longrightarrow> dns_step s (s\<lparr>ds_cache := cache_Cleanup (ds_now s) ks (ds_cache s)\<rparr>)"

inductive dns_reachable :: "dns_state \<Rightarrow> bool" where
  dns_init: "dns_reachable \<lparr>ds_now = t, ds_cache = (\<lambda>_. None), ds_inflight = [], ds_log = []\<rparr>"
| dns_next: "dns_reachable s \<Longrightarrow> dns_step s s' \<Longrightarrow> dns_reachable s'"

definition dns_inv :: "dns_state \<Rightarrow> bool" where
  "dns_inv s \<longleftrightarrow> (\<forall>k e. ds_cache s k = Some e \<longrightarrow>
     (dce_expiresAt e - dns_ttl, k, dce_response e) \<in> set (ds_log s)) \<and>
     (\<forall>(t, k, r) \<in> set (ds_log s). t \<le> ds_now s \<and> r \<noteq> [] \<and> length r \<le> 4096)"

lemma dns_fetch_size: "dns_fetch others opn rd upstream q c = (c', Ok (Some resp)) \<Longrightarrow> resp \<noteq> [] \<and> length resp \<le> 4096"
  by (auto simp: dns_fetch_def Let_def split: prod.splits outcome.splits option.splits if_splits)

lemma cleaned_entry: "cache_Cleanup now ks c k = Some e \<Longrightarrow> c k = Some e"
  by (simp add: cache_Cleanup_def sweep_lookup split: option.splits if_splits)

lemma dns_inv_step: "dns_step s s' \<Longrightarrow> dns_inv s \<Longrightarrow> dns_inv s'"
proof (induction rule: dns_step.induct)
  case (answered q s others opn rd upstream c c' resp)
  then show ?case
    using dns_fetch_size [OF answered.hyps(2)] by (auto simp: dns_inv_def dns_store_def cache_Set_def)
next
  case (swept s ks)
  then show ?case by (auto simp: dns_inv_def dest: cleaned_entry)
qed (auto simp: dns_inv_def)

lemma dns_reachable_inv: "dns_reachable s \<Longrightarrow> dns_inv s"
proof (induction rule: dns_reachable.induct)
  case (dns_init t)
  show ?case by (simp add: dns_inv_def)
qed (blast intro: dns_inv_step)

lemma dns_lookup_hit:
  assumes "dns_lookup now cache q = Ok (Some b)"
  shows "\<exists>resp. cache_Get now cache (drop 2 q) = Some resp \<and> 2 \<le> length q \<and> 2 \<le> length resp \<and>
    b = take 2 q @ drop 2 resp"
  using assms
  by (auto simp: dns_lookup_def slice_def copy_into_def and_then_Ok_iff min_def split: option.splits if_splits)

text \<open>
  C16: Soundness of the DNS cache under concurrent queries: an answer from the cache carries the
  transaction id of the query it answers and, after the id, exactly the bytes that upstream returned for
  a query with the same bytes after the id, not more than 60 seconds ago.
\<close>

theorem dns_hit_sound:
  assumes "dns_reachable s" "dns_lookup (ds_now s) (ds_cache s) q = Ok (Some b)"
  shows "\<exists>t resp. (t, drop 2 q, resp) \<in> set (ds_log s) \<and> t \<le> ds_now s \<and> ds_now s \<le> t + 60 * second \<and>
    take 2 b = take 2 q \<and> drop 2 b = drop 2 resp \<and> length b = length resp"
proof -
  have inv: "dns_inv s" by (rule dns_reachable_inv [OF assms(1)])
  obtain resp where r: "cache_Get (ds_now s) (ds_cache s) (drop 2 q) = Some resp" "2 \<le> length q" "2 \<le> length resp"
    "b = take 2 q @ drop 2 resp" using dns_lookup_hit [OF assms(2)] by blast
  then obtain e where e: "ds_cache s (drop 2 q) = Some e" "ds_now s \<le> dce_expiresAt e" "dce_response e = resp"
    by (auto simp: cache_Get_def split: option.splits if_splits)
  then have "(dce_expiresAt e - dns_ttl, drop 2 q, resp) \<in> set (ds_log s)" using inv by (auto simp: dns_inv_def)
  moreover from this have "dce_expiresAt e - dns_ttl \<le> ds_now s" using inv by (fastforce simp: dns_inv_def)
  ultimately show ?thesis
    using r e by (intro exI [of _ "dce_expiresAt e - dns_ttl"] exI [of _ resp]) (simp add: dns_ttl_def)
qed

definition dns_client :: Client where
  "dns_client = (NewClient zero_Config)\<lparr>cl_sessions := [\<lparr>ps_session = 0, ps_createdAt = 0\<rparr>]\<rparr>"

definition dns_upstream :: "sid \<Rightarrow> goerror + conn" where
  "dns_upstream i = Inr \<lparr>conn_in = [1, 2, 8, 9], conn_out = [], conn_room = None, conn_closed = False\<rparr>"

lemma dns_upstream_fetch:
  "\<exists>c'. dns_fetch (\<lambda>_. 0) dns_upstream (Some 512) ''8.8.8.8:53'' [1, 2, 5] dns_client = (c', Ok (Some [1, 2, 8, 9]))"
  by (simp add: dns_fetch_def OpenStream_def OpenStream_attempt_def dns_client_def NewClient_def dns_upstream_def sendTarget_def conn_write_def
      go_rem_def Let_def)

theorem dns_hit_sound_witness:
  "\<exists>s. dns_reachable s \<and> dns_lookup (ds_now s) (ds_cache s) [3, 4, 5] = Ok (Some [3, 4, 8, 9]) \<and>
     (\<exists>t resp. (t, [5], resp) \<in> set (ds_log s) \<and> ds_now s \<le> t + 60 * second \<and> drop 2 resp = [8, 9])"
proof -
  let ?s0 = "\<lparr>ds_now = 0, ds_cache = (\<lambda>_. None), ds_inflight = [], ds_log = []\<rparr> :: dns_state"
  let ?s1 = "?s0\<lparr>ds_inflight := [[1, 2, 5]]\<rparr>"
  let ?s2 = "?s1\<lparr>ds_cache := dns_store 0 [1, 2, 5] [1, 2, 8, 9] (\<lambda>_. None), ds_inflight := [],
    ds_log := [(0, [5], [1, 2, 8, 9])]\<rparr>"
  have "dns_step ?s0 ?s1"
    using missed [of ?s0 "[1, 2, 5]"] by (simp add: dns_lookup_def slice_def cache_Get_def)
  moreover have "dns_step ?s1 ?s2"
  proof -
    obtain c' where "dns_fetch (\<lambda>_. 0) dns_upstream (Some 512) ''8.8.8.8:53'' [1, 2, 5] dns_client = (c', Ok (Some [1, 2, 8, 9]))"
      using dns_upstream_fetch by blast
    from answered [OF _ this, of ?s1] show ?thesis by simp
  qed
  ultimately have r: "dns_reachable ?s2" using dns_init [of 0] dns_next by metis
  have l: "dns_lookup (ds_now ?s2) (ds_cache ?s2) [3, 4, 5] = Ok (Some [3, 4, 8, 9])"
    by (simp add: dns_lookup_def slice_def cache_Get_def dns_store_def cache_Set_def copy_into_def dns_ttl_def second_def)
  from dns_hit_sound [OF r l] show ?thesis using r l by (intro exI [of _ ?s2]) auto
qed

text \<open>
  C17: The cache refines its specification: after any history of stores and cleanups that lie before
  \<open>now\<close>, in whatever order the cleanups visited the map, \<open>Get\<close> returns the value of the latest store for
  the key if that has not expired, and nothing otherwise.
\<close>

theorem cache_refines:
  assumes "\<forall>(t, x) \<in> set h. t \<le> now"
  shows "cache_Get now (run_history cache_Set cache_Cleanup (\<lambda>_. None) h) k =
    (case latest k h of None \<Rightarrow> None | Some (t, v, ttl) \<Rightarrow> if now \<le> t + ttl then Some v else None)"
  by (rule dns.get_history [OF assms])

theorem cache_refines_witness:
  "cache_Get 65 (run_history cache_Set cache_Cleanup (\<lambda>_. None)
      [(60, Inr [[1], [2]]), (20, Inl ([1], [7, 7], 60)), (10, Inl ([1], [8], 60)), (0, Inl ([2], [9], 50))]) [1] = Some [7, 7]"
  using cache_refines [of "[(60, Inr [[1], [2]]), (20, Inl ([1], [7, 7], 60)), (10, Inl ([1], [8], 60)), (0, Inl ([2], [9], 50))]" 65 "[1]"]
  by simp

text \<open>
  C38: Which datagrams crash the proxy.  The handler panics exactly when the query has fewer than two bytes
  (an empty datagram is enough), when the cached response for it has a single byte, or when opening the
  stream on a miss panics; nothing recovers the panic, so that the whole client ends.
\<close>

theorem handleQuery_panics_iff:
  "(\<exists>p. snd (handleQuery now later others opn rd upstream query (cache, c)) = DnsPanic p) \<longleftrightarrow>
   length query < 2 \<or>
   (case cache_Get now cache (drop 2 query) of
      Some resp \<Rightarrow> length resp < 2
    | None \<Rightarrow> (\<exists>p. snd (OpenStream others opn (''udp://'' @ upstream) c) = Panic p))"
proof -
  have "(\<exists>p. snd (dns_fetch others opn rd upstream query c) = Panic p) \<longleftrightarrow>
      (\<exists>p. snd (OpenStream others opn (''udp://'' @ upstream) c) = Panic p)"
    by (auto simp: dns_fetch_def Let_def split: prod.splits outcome.splits option.splits)
  moreover have "(\<exists>p. snd (case dns_fetch others opn rd upstream query c of
            (c, Panic p) \<Rightarrow> ((cache, c), DnsPanic p)
          | (c, Err e) \<Rightarrow> ((cache, c), NoReply)
          | (c, Ok None) \<Rightarrow> ((cache, c), NoReply)
          | (c, Ok (Some resp)) \<Rightarrow> ((dns_store later query resp cache, c), FromUpstream resp)) = DnsPanic p) \<longleftrightarrow>
      (\<exists>p. snd (dns_fetch others opn rd upstream query c) = Panic p)"
    by (auto split: prod.splits outcome.splits option.splits)
  ultimately show ?thesis
    by (cases "cache_Get now cache (drop 2 query)")
      (auto simp: handleQuery_def dns_lookup_def slice_def)
qed

end
