(* ===== verification/Dashboard_System.thy ===== *)
theory Dashboard_System
  imports Client_Pool
begin

text \<open>
  The numbers the dashboard shows (\<^verbatim>\<open>dashboard.go\<close>): the traffic, CPU and ping monitors, the readers of
  \<^verbatim>\<open>/proc\<close> and \<open>humanBytes\<close>.  The contents of the files are arguments, None when a file cannot be read.
\<close>

section \<open>\<open>strings.Fields\<close>, \<open>strconv\<close> and \<open>fmt\<close>\<close>

fun field_len :: "string \<Rightarrow> nat" where
  "field_len [] = 0"
| "field_len (c # cs) = (if lead_space (c # cs) = 0 then Suc (field_len cs) else 0)"

lemma trim_left_length: "length (trim_left s) \<le> length s"
proof (induction s rule: trim_left.induct)
  case (1 s)
  then show ?case by (cases "lead_space s = 0") (simp_all add: trim_left.simps [of s])
qed

function str_fields :: "string \<Rightarrow> string list" where
  "str_fields s =
     (let t = trim_left s in if t = [] then [] else take (field_len t) t # str_fields (drop (field_len t) t))"
  by pat_completeness auto
termination
proof (relation "measure length", simp, goal_cases)
  case (1 s t)
  have "lead_space t = 0" using 1 trim_left_clean by simp
  then have "0 < field_len t" using 1(2) by (cases t) simp_all
  moreover have "0 < length t" using 1(2) by simp
  ultimately have "length t - field_len t < length t" by (intro diff_less)
  then show ?case using 1(1) trim_left_length [of s] by simp
qed

declare str_fields.simps [simp del]

lemma lead_space_visible: "visible c \<Longrightarrow> lead_space (c # cs) = 0"
  using space_runes_invisible by (fastforce simp: lead_space_0 has_prefix_iff Cons_eq_append_conv dest: space_runes_nonempty)

lemma blank_rune: "list_all (\<lambda>w. hd w = CHR '' '' \<longrightarrow> w = '' '') space_runes" "list_ex (\<lambda>w. w = '' '') space_runes"
  by code_simp+

lemma lead_space_blank: "lead_space (CHR '' '' # cs) = 1"
proof (cases "find (has_prefix (CHR '' '' # cs)) space_runes")
  case None
  then show ?thesis using blank_rune(2) by (auto simp: find_None_iff list_ex_iff has_prefix_def)
next
  case (Some w)
  then have w: "w \<in> set space_runes" "has_prefix (CHR '' '' # cs) w" by (auto simp: find_Some_iff)
  then obtain t where "CHR '' '' # cs = w @ t" "w \<noteq> []" using space_runes_nonempty [of w] by (auto simp: has_prefix_iff)
  then have "hd w = CHR '' ''" by (cases w) simp_all
  then have "w = '' ''" using blank_rune(1) w(1) by (auto simp: list_all_iff)
  then show ?thesis using Some by (simp add: lead_space_def)
qed

lemma field_len_word: "list_all visible w \<Longrightarrow> s = [] \<or> hd s = CHR '' '' \<Longrightarrow> field_len (w @ s) = length w"
  by (induction w) (cases s; auto simp: lead_space_visible lead_space_blank)+

lemma trim_left_visible: "visible c \<Longrightarrow> trim_left (c # cs) = c # cs"
  by (simp add: trim_left.simps lead_space_visible)

lemma trim_left_blank: "trim_left (CHR '' '' # cs) = trim_left cs"
  by (simp add: trim_left.simps [of "CHR '' '' # cs"] lead_space_blank)

lemma str_fields_blank: "str_fields (CHR '' '' # s) = str_fields s"
  by (simp add: str_fields.simps [of "CHR '' '' # s"] str_fields.simps [of s] trim_left_blank)

lemma str_fields_word:
  assumes "list_all visible w" "w \<noteq> []"
  shows "str_fields (w @ CHR '' '' # s) = w # str_fields s"
proof -
  have "trim_left (w @ CHR '' '' # s) = w @ CHR '' '' # s" using assms by (cases w) (simp_all add: trim_left_visible)
  then show ?thesis
    using assms field_len_word [OF assms(1), of "CHR '' '' # s"]
    by (simp add: str_fields.simps [of "w @ CHR '' '' # s"] str_fields_blank)
qed

lemma str_fields_Nil: "str_fields [] = []"
  using trim_left_length [of "[]"] by (simp add: str_fields.simps)

lemma str_fields_last: "list_all visible w \<Longrightarrow> w \<noteq> [] \<Longrightarrow> str_fields w = [w]"
  using field_len_word [of w "[]"]
  by (cases w) (simp_all add: str_fields.simps [of "_ # _"] trim_left_visible str_fields_Nil)

text \<open>\<open>strconv.ParseInt(s, 10, 64)\<close> with its error ignored: 0 on a syntax error, the limit on a range error.\<close>

definition ParseInt_value :: "string \<Rightarrow> int" where
  "ParseInt_value s =
     (let neg = (take 1 s = ''-''); d = (if take 1 s \<in> {''+'', ''-''} then drop 1 s else s) in
      case (if d = [] then None else digits_value 0 d) of
        None \<Rightarrow> 0
      | Some n \<Rightarrow> if neg then max (- (2 ^ 63)) (- int n) else min (2 ^ 63 - 1) (int n))"

definition int_digits :: "int \<Rightarrow> string" where
  "int_digits i = (if i < 0 then ''-'' @ nat_digits (nat (- i)) else nat_digits (nat i))"

text \<open>\<open>%.1f\<close> of a non-negative number: its exact value rounded to one decimal, ties to even.\<close>

definition fmt_f1 :: "rat \<Rightarrow> string" where
  "fmt_f1 x = (let t = nat (round_half_even (x * 10)) in nat_digits (t div 10) @ ''.'' @ nat_digits (t mod 10))"

definition float64_of_int :: "int \<Rightarrow> rat" where
  "float64_of_int i = (if i < 0 then - float64_round (of_int (- i)) else float64_round (of_int i))"

section \<open>\<open>humanBytes\<close>\<close>

function hb_loop :: "int \<Rightarrow> int \<Rightarrow> nat \<Rightarrow> int \<times> nat" where
  "hb_loop n dv ex = (if n \<ge> 1024 then hb_loop (go_div n 1024) (wrap64 (dv * 1024)) (ex + 1) else (dv, ex))"
  by pat_completeness auto
termination by (relation "measure (\<lambda>(n, _, _). nat n)") (auto simp: go_div_def)

declare hb_loop.simps [simp del]

definition humanBytes :: "int \<Rightarrow> string outcome" where
  "humanBytes b =
     (if b < 1024 then Ok (int_digits b @ '' B'')
      else case hb_loop (go_div b 1024) 1024 0 of
        (dv, ex) \<Rightarrow>
          if 6 \<le> ex then Panic IndexOutOfRange
          else Ok (fmt_f1 (float64_div (float64_of_int b) (float64_of_int dv)) @ '' '' @ [''KMGTPE'' ! ex] @ ''B''))"

section \<open>State\<close>

record dashboardState =
  da_mode :: string
  da_version :: string
  da_client :: "Client option"
  da_server :: "Server option"
  da_latency :: int
  da_startTime :: int
  da_cfg :: DashboardConfig
  da_lastCPUTime :: int
  da_lastTotTime :: int
  da_cpuUsage :: rat
  da_lastBytesSent :: int
  da_lastBytesRecv :: int
  da_speedUp :: int
  da_speedDown :: int

section \<open>Monitors\<close>

definition ping_tick :: "int option \<Rightarrow> dashboardState \<Rightarrow> dashboardState" where
  "ping_tick dur d = d\<lparr>da_latency := (case dur of Some t \<Rightarrow> t | None \<Rightarrow> - 1)\<rparr>"

definition traffic_tick :: "(nat \<Rightarrow> Stats) \<Rightarrow> dashboardState \<Rightarrow> dashboardState" where
  "traffic_tick h d =
     (let snap = Snapshot h; sent = BytesSent snap; recv = BytesRecv snap;
          diffSent = wrap64 (sent - da_lastBytesSent d); diffRecv = wrap64 (recv - da_lastBytesRecv d);
          d = d\<lparr>da_lastBytesSent := sent, da_lastBytesRecv := recv\<rparr>;
          d = (if diffSent \<ge> 0 then d\<lparr>da_speedDown := diffSent\<rparr> else d)
      in if diffRecv \<ge> 0 then d\<lparr>da_speedUp := diffRecv\<rparr> else d)"

text \<open>
  \<open>calculateCPU\<close> takes the \<open>cpu\<close> line of \<^verbatim>\<open>/proc/stat\<close>: the sum of its fields and the fourth.  A line that
  shows no progress updates the state and the search goes on.
\<close>

definition cpu_times :: "string list \<Rightarrow> int \<times> int" where
  "cpu_times vals =
     (let vs = map ParseInt_value vals in (fold (\<lambda>v tot. wrap64 (tot + v)) vs 0, if 3 < length vs then vs ! 3 else 0))"

definition cpu_usage :: "int \<Rightarrow> int \<Rightarrow> rat" where
  "cpu_usage diffTotal diffIdle =
     float64_mul (float64_div (float64_of_int (wrap64 (diffTotal - diffIdle))) (float64_of_int diffTotal)) 100"

fun cpu_lines :: "string list \<Rightarrow> dashboardState \<Rightarrow> dashboardState \<times> rat" where
  "cpu_lines [] d = (d, 0)"
| "cpu_lines (line # rest) d =
     (let fields = str_fields line in
      if length fields > 4 \<and> hd fields = ''cpu'' then
        (case cpu_times (tl fields) of
           (tot, idle) \<Rightarrow>
             let diffTotal = wrap64 (tot - da_lastTotTime d); diffIdle = wrap64 (idle - da_lastCPUTime d);
                 d = d\<lparr>da_lastTotTime := tot, da_lastCPUTime := idle\<rparr>
             in if diffTotal > 0 then (d, cpu_usage diffTotal diffIdle) else cpu_lines rest d)
      else cpu_lines rest d)"

definition line_feed :: string where
  "line_feed = [CHR 0x0A]"

definition calculateCPU :: "string option \<Rightarrow> dashboardState \<Rightarrow> dashboardState \<times> rat" where
  "calculateCPU stat d =
     (case stat of None \<Rightarrow> (d, 0) | Some data \<Rightarrow> cpu_lines (str_split line_feed data) d)"

definition cpu_tick :: "string option \<Rightarrow> dashboardState \<Rightarrow> dashboardState" where
  "cpu_tick stat d = (case calculateCPU stat d of (d, u) \<Rightarrow> d\<lparr>da_cpuUsage := u\<rparr>)"

section \<open>Host figures\<close>

definition getLoadAvg :: "string option \<Rightarrow> string list" where
  "getLoadAvg loadavg =
     (case loadavg of
        None \<Rightarrow> [''0.00'', ''0.00'', ''0.00'']
      | Some data \<Rightarrow>
          let parts = str_fields data in
          if 3 \<le> length parts then take 3 parts else [''0.00'', ''0.00'', ''0.00''])"

text \<open>The lines of \<^verbatim>\<open>/proc/meminfo\<close>; a later line for the same figure wins.\<close>

definition mem_line :: "string \<Rightarrow> int \<times> int \<Rightarrow> int \<times> int" where
  "mem_line line = (\<lambda>(tot, available).
     let parts = str_fields line; v = wrap64 (ParseInt_value (parts ! 1) * 1024) in
     if has_prefix line ''MemTotal:'' then (if 2 \<le> length parts then (v, available) else (tot, available))
     else if has_prefix line ''MemAvailable:'' then (if 2 \<le> length parts then (tot, v) else (tot, available))
     else (tot, available))"

definition getSystemMemory :: "string list option \<Rightarrow> int \<times> int" where
  "getSystemMemory meminfo =
     (case meminfo of
        None \<Rightarrow> (0, 0)
      | Some lines \<Rightarrow>
          (case fold mem_line lines (0, 0) of
             (tot, available) \<Rightarrow> if available = 0 then (tot, 0) else (tot, wrap64 (tot - available))))"

section \<open>Properties\<close>

lemma hb_loop_spec:
  "0 < n \<Longrightarrow> 0 < dv \<Longrightarrow> n * dv < 2 ^ 63 \<Longrightarrow>
   \<exists>e. hb_loop n dv ex = (dv * 1024 ^ e, ex + e) \<and> 1024 ^ e \<le> n \<and> n < 1024 ^ (e + 1)"
proof (induction n dv ex rule: hb_loop.induct)
  case (1 n dv ex)
  show ?case
  proof (cases "n \<ge> 1024")
    case True
    have g: "go_div n 1024 = n div 1024" using 1(2) by (simp add: go_div_def)
    have "(n div 1024) * 1024 \<le> n" by simp
    then have m: "(n div 1024) * 1024 * dv \<le> n * dv" using 1(3) by (intro mult_right_mono) simp_all
    have q: "1 \<le> n div 1024" using True by simp
    then have "1 * 1024 * dv \<le> (n div 1024) * 1024 * dv" using 1(3) by (intro mult_right_mono) simp_all
    then have lt: "dv * 1024 < 2 ^ 63" using m 1(4) by simp
    then have w: "wrap64 (dv * 1024) = dv * 1024" using 1(3) by (intro wrap64_id) (simp add: int64_range_def)
    have IH: "\<exists>e. hb_loop (n div 1024) (dv * 1024) (ex + 1) = (dv * 1024 * 1024 ^ e, ex + 1 + e) \<and>
        1024 ^ e \<le> n div 1024 \<and> n div 1024 < 1024 ^ (e + 1)"
    proof (rule 1(1) [OF True, unfolded g w])
      have "n div 1024 * (dv * 1024) = (n div 1024) * 1024 * dv" by (simp only: mult_ac)
      then show "n div 1024 * (dv * 1024) < 2 ^ 63" using m 1(4) by linarith
    qed (use q 1(3) in simp_all)
    then obtain e where e: "hb_loop (n div 1024) (dv * 1024) (ex + 1) = (dv * 1024 * 1024 ^ e, ex + 1 + e)"
      "1024 ^ e \<le> n div 1024" "n div 1024 < 1024 ^ (e + 1)" by blast
    have "1024 * 1024 ^ e \<le> 1024 * (n div 1024)" using e(2) by simp
    moreover have "1024 * (n div 1024) \<le> n" "n < 1024 * (n div 1024) + 1024" by simp_all
    moreover have "1024 * (n div 1024) + 1024 \<le> 1024 * 1024 ^ (e + 1)" using e(3) by simp
    ultimately have "1024 ^ (e + 1) \<le> n" "n < 1024 ^ (e + 2)" by simp_all
    then show ?thesis using True e(1) by (intro exI [of _ "e + 1"]) (simp add: hb_loop.simps [of n] g w mult.assoc)
  next
    case False
    then show ?thesis using 1(2) by (intro exI [of _ 0]) (simp add: hb_loop.simps [of n])
  qed
qed

text \<open>
  \<open>humanBytes\<close> is safe on every \<open>int64\<close>: from 1024 on it divides by the power of 1024 that brings the
  value between 1 and 1024, the divisor never overflows, and the index into the six unit letters is in
  range, so that a string is returned for every argument.
\<close>

lemma humanBytes_cases:
  assumes "int64_range b"
  shows "(b < 1024 \<longrightarrow> humanBytes b = Ok (int_digits b @ '' B'')) \<and>
    (1024 \<le> b \<longrightarrow> (\<exists>e < 6. 1024 ^ (e + 1) \<le> b \<and> b < 1024 ^ (e + 2) \<and>
       humanBytes b = Ok (fmt_f1 (float64_div (float64_of_int b) (float64_of_int (1024 ^ (e + 1)))) @ '' '' @
         [''KMGTPE'' ! e] @ ''B'')))"
proof (intro conjI impI)
  assume b: "1024 \<le> b"
  have g: "go_div b 1024 = b div 1024" using b by (simp add: go_div_def)
  have bound: "b < 2 ^ 63" using assms by (simp add: int64_range_def)
  have "(b div 1024) * 1024 \<le> b" by simp
  then have "b div 1024 * 1024 < 2 ^ 63" using bound by linarith
  moreover have "0 < b div 1024" using b by (simp add: pos_imp_zdiv_pos_iff)
  ultimately obtain e where
    e: "hb_loop (b div 1024) 1024 0 = (1024 * 1024 ^ e, e)" "1024 ^ e \<le> b div 1024" "b div 1024 < 1024 ^ (e + 1)"
    using hb_loop_spec [of "b div 1024" 1024 0] by auto
  have "1024 * 1024 ^ e \<le> 1024 * (b div 1024)" using e(2) by simp
  moreover have "1024 * (b div 1024) \<le> b" "b < 1024 * (b div 1024) + 1024" by simp_all
  moreover have "1024 * (b div 1024) + 1024 \<le> 1024 * 1024 ^ (e + 1)" using e(3) by simp
  ultimately have r: "1024 ^ (e + 1) \<le> b" "b < 1024 ^ (e + 2)" by simp_all
  have "e < 6"
  proof (rule ccontr)
    assume "\<not> e < 6"
    then have "(1024 :: int) ^ 7 \<le> 1024 ^ (e + 1)" by (intro power_increasing) simp_all
    then show False using r(1) bound by simp
  qed
  then show "\<exists>e < 6. 1024 ^ (e + 1) \<le> b \<and> b < 1024 ^ (e + 2) \<and>
       humanBytes b = Ok (fmt_f1 (float64_div (float64_of_int b) (float64_of_int (1024 ^ (e + 1)))) @ '' '' @
         [''KMGTPE'' ! e] @ ''B'')"
    using b r e(1) g by (intro exI [of _ e]) (simp add: humanBytes_def)
qed (simp add: humanBytes_def)

lemma humanBytes_Ok: "int64_range b \<Longrightarrow> \<exists>s. humanBytes b = Ok s"
  using humanBytes_cases [of b] by (cases "b < 1024") auto

lemma float64_round_1: "float64_round 1 = 1"
  by code_simp

lemma float64_round_100: "float64_round 100 = 100"
  by code_simp

lemma cpu_usage_bounds:
  assumes "0 < t" "0 \<le> i" "i \<le> t" "t < 2 ^ 63"
  shows "0 \<le> cpu_usage t i \<and> cpu_usage t i \<le> 100"
proof -
  have "wrap64 (t - i) = t - i" using assms by (intro wrap64_id) (simp add: int64_range_def)
  moreover define a b where "a = float64_round (of_int (t - i))" and "b = float64_round (of_int t)"
  ultimately have u: "cpu_usage t i = float64_round (float64_round (a / b) * 100)"
    using assms by (simp add: cpu_usage_def float64_mul_def float64_div_def float64_of_int_def)
  have ab: "0 \<le> a" "a \<le> b" using assms unfolding a_def b_def by (auto intro: float64_round_nonneg float64_round_mono)
  have "float64_round 1 \<le> b" unfolding b_def using assms(1) by (intro float64_round_mono) simp_all
  then have "0 < b" by (simp add: float64_round_1)
  then have q: "0 \<le> a / b" "a / b \<le> 1" using ab by simp_all
  then have "0 \<le> float64_round (a / b)" "float64_round (a / b) \<le> 1"
    using float64_round_nonneg [OF q(1)] float64_round_mono [OF q] float64_round_1 by simp_all
  then show ?thesis
    using float64_round_nonneg [of "float64_round (a / b) * 100"] float64_round_mono [of "float64_round (a / b) * 100" 100]
      float64_round_100 unfolding u by simp
qed

text \<open>
  C40: The CPU figure is a percentage: if the counters of the \<open>cpu\<close> line have not run backwards since the
  last reading and the idle time has not grown by more than the total, the usage \<open>calculateCPU\<close> returns,
  computed in floating point, lies between 0 and 100, and the state holds the new counters.
\<close>

theorem calculateCPU_percentage:
  assumes "str_fields (hd (str_split line_feed data)) = ''cpu'' # vals" "3 < length vals" "cpu_times vals = (tot, idle)"
    and "da_lastTotTime d < tot" "da_lastCPUTime d \<le> idle" "idle - da_lastCPUTime d \<le> tot - da_lastTotTime d"
    and "tot - da_lastTotTime d < 2 ^ 63"
  shows "\<exists>u. calculateCPU (Some data) d = (d\<lparr>da_lastTotTime := tot, da_lastCPUTime := idle\<rparr>, u) \<and> 0 \<le> u \<and> u \<le> 100"
proof -
  obtain line rest where l: "str_split line_feed data = line # rest"
    by (metis str_split_nonempty line_feed_def list.exhaust list.simps(3))
  have w: "wrap64 (tot - da_lastTotTime d) = tot - da_lastTotTime d" "wrap64 (idle - da_lastCPUTime d) = idle - da_lastCPUTime d"
    using assms(4-7) by (simp_all add: wrap64_id int64_range_def)
  have "str_fields line = ''cpu'' # vals" using assms(1) by (simp add: l)
  then have "calculateCPU (Some data) d = (d\<lparr>da_lastTotTime := tot, da_lastCPUTime := idle\<rparr>,
      cpu_usage (tot - da_lastTotTime d) (idle - da_lastCPUTime d))"
    using assms(2-4) w by (simp add: calculateCPU_def l Let_def)
  then show ?thesis using cpu_usage_bounds [of "tot - da_lastTotTime d" "idle - da_lastCPUTime d"] assms(4-7) by simp
qed

definition demo_dash :: dashboardState where
  "demo_dash = \<lparr>da_mode = ''server'', da_version = ''3.6.13'', da_client = None, da_server = None, da_latency = 0,
     da_startTime = 0, da_cfg = Dashboard zero_Config, da_lastCPUTime = 0, da_lastTotTime = 0, da_cpuUsage = 0,
     da_lastBytesSent = 0, da_lastBytesRecv = 0, da_speedUp = 0, da_speedDown = 0\<rparr>"

lemma demo_stat_times: "cpu_times [''10'', ''0'', ''20'', ''70'', ''0''] = (100, 70)"
  by (simp add: cpu_times_def ParseInt_value_def is_digit_def wrap64_def Let_def)

lemma demo_stat_fields:
  "str_fields (hd (str_split line_feed ''cpu 10 0 20 70 0'')) = [''cpu'', ''10'', ''0'', ''20'', ''70'', ''0'']"
  using str_fields_word [of "''cpu''" "''10 0 20 70 0''"] str_fields_word [of "''10''" "''0 20 70 0''"]
    str_fields_word [of "''0''" "''20 70 0''"] str_fields_word [of "''20''" "''70 0''"] str_fields_word [of "''70''" "''0''"]
    str_fields_last [of "''0''"]
  by (simp add: line_feed_def hd_str_split_char visible_def)

theorem calculateCPU_percentage_witness:
  "\<exists>u. calculateCPU (Some ''cpu 10 0 20 70 0'') demo_dash =
     (demo_dash\<lparr>da_lastTotTime := 100, da_lastCPUTime := 70\<rparr>, u) \<and> 0 \<le> u \<and> u \<le> 100"
proof -
  have f: "str_fields (hd (str_split line_feed ''cpu 10 0 20 70 0'')) = [''cpu'', ''10'', ''0'', ''20'', ''70'', ''0'']"
    by (rule demo_stat_fields)
  have t: "cpu_times [''10'', ''0'', ''20'', ''70'', ''0''] = (100, 70)" by (rule demo_stat_times)
  show ?thesis using calculateCPU_percentage [OF f _ t, of demo_dash] by (simp add: demo_dash_def)
qed

text \<open>Ticks of the traffic monitor, each with the counters it reads.\<close>

definition sent_at :: "(nat \<Rightarrow> Stats) \<Rightarrow> int" where
  "sent_at h = BytesSent (h 2)"

definition recv_at :: "(nat \<Rightarrow> Stats) \<Rightarrow> int" where
  "recv_at h = BytesRecv (h 3)"

lemma traffic_tick_fields:
  "da_lastBytesSent (traffic_tick h d) = sent_at h" "da_lastBytesRecv (traffic_tick h d) = recv_at h"
  "da_speedDown (traffic_tick h d) =
     (let x = wrap64 (sent_at h - da_lastBytesSent d) in if 0 \<le> x then x else da_speedDown d)"
  "da_speedUp (traffic_tick h d) =
     (let x = wrap64 (recv_at h - da_lastBytesRecv d) in if 0 \<le> x then x else da_speedUp d)"
  by (simp_all add: traffic_tick_def Snapshot_def sent_at_def recv_at_def Let_def)

fun speeds_down :: "(nat \<Rightarrow> Stats) list \<Rightarrow> dashboardState \<Rightarrow> int list" where
  "speeds_down [] d = []"
| "speeds_down (h # hs) d = (let d = traffic_tick h d in da_speedDown d # speeds_down hs d)"

text \<open>
  The traffic monitor loses no byte: as long as the byte counter does not decrease between ticks, the
  speeds shown at the ticks are non-negative and add up to exactly what the counter grew by; and at any
  tick, whatever the counters do, a shown speed is never negative if it was not before.
\<close>

theorem traffic_speeds_sum:
  assumes "sorted (da_lastBytesSent d # map sent_at hs)" "0 \<le> da_lastBytesSent d" "\<forall>h \<in> set hs. sent_at h < 2 ^ 63"
  shows "sum_list (speeds_down hs d) = last (da_lastBytesSent d # map sent_at hs) - da_lastBytesSent d \<and>
    (\<forall>v \<in> set (speeds_down hs d). 0 \<le> v) \<and>
    (\<forall>h d. 0 \<le> da_speedDown d \<and> 0 \<le> da_speedUp d \<longrightarrow>
       0 \<le> da_speedDown (traffic_tick h d) \<and> 0 \<le> da_speedUp (traffic_tick h d))"
proof -
  have "sum_list (speeds_down hs d) = last (da_lastBytesSent d # map sent_at hs) - da_lastBytesSent d \<and>
    (\<forall>v \<in> set (speeds_down hs d). 0 \<le> v)"
    using assms
  proof (induction hs arbitrary: d)
    case (Cons h hs)
    have r: "da_lastBytesSent d \<le> sent_at h" "sent_at h < 2 ^ 63" using Cons.prems by auto
    then have "wrap64 (sent_at h - da_lastBytesSent d) = sent_at h - da_lastBytesSent d"
      using Cons.prems(2) by (intro wrap64_id) (simp add: int64_range_def)
    then have s: "da_speedDown (traffic_tick h d) = sent_at h - da_lastBytesSent d"
      using r(1) by (simp add: traffic_tick_fields)
    show ?case
      using Cons.IH [of "traffic_tick h d"] Cons.prems r by (auto simp: Let_def s traffic_tick_fields(1))
  qed simp
  then show ?thesis by (auto simp: traffic_tick_fields Let_def)
qed

definition stats_at :: "int \<Rightarrow> nat \<Rightarrow> Stats" where
  "stats_at n i = (init_Stats 0)\<lparr>BytesSent := n\<rparr>"

theorem traffic_speeds_sum_witness:
  "sum_list (speeds_down [stats_at 5, stats_at 5, stats_at 12] demo_dash) = 12"
  using traffic_speeds_sum [of demo_dash "[stats_at 5, stats_at 5, stats_at 12]"]
  by (simp add: demo_dash_def sent_at_def stats_at_def)

end
