(* ===== verification/Dashboard_Http.thy ===== *)
theory Dashboard_Http
  imports Dashboard_System
begin

text \<open>
  The web dashboard of \<^verbatim>\<open>dashboard.go\<close>: start-up and routes, the authentication middleware, the login page and
  the handlers behind it.  The world a handler acts on holds the files and the commands that were run;
  values of a submitted form, the body of a request, the YAML decoder and the outcome of file operations
  are arguments.
\<close>

section \<open>Cookies\<close>

text \<open>\<open>Request.Cookie\<close>: the first cookie of the name in the \<open>Cookie\<close> fields that has a valid value.\<close>

definition cookie_byte :: "char \<Rightarrow> bool" where
  "cookie_byte c \<longleftrightarrow> 32 \<le> (of_char c :: nat) \<and> (of_char c :: nat) < 127 \<and> c \<noteq> CHR 0x22 \<and> c \<noteq> CHR '';'' \<and> of_char c \<noteq> (92 :: nat)"

definition cookie_value :: "string \<Rightarrow> string option" where
  "cookie_value raw =
     (let v = (if length raw > 1 \<and> hd raw = CHR 0x22 \<and> last raw = CHR 0x22 then butlast (tl raw) else raw)
      in if list_all cookie_byte v then Some v else None)"

definition cookie_part :: "string \<Rightarrow> string \<Rightarrow> string option" where
  "cookie_part name part =
     (case str_cut (CHR ''='') (trim_blank part) of
        (n, v) \<Rightarrow>
          if trim_blank n = name \<and> valid_field_name name
          then cookie_value (case v of Some v \<Rightarrow> v | None \<Rightarrow> '''') else None)"

definition request_cookie :: "request \<Rightarrow> string \<Rightarrow> string option" where
  "request_cookie r name =
     (let parts = concat (map (\<lambda>(_, line). str_split '';'' (trim_blank line)) (filter (\<lambda>(k, _). k = ''Cookie'') (req_Header r)))
      in case List.map_filter (cookie_part name) parts of [] \<Rightarrow> None | v # _ \<Rightarrow> Some v)"

section \<open>Responses\<close>

definition no_response :: response where
  "no_response = \<lparr>rsp_status = 200, rsp_header = [], rsp_body = ''''\<rparr>"

definition html_response :: "string \<Rightarrow> response" where
  "html_response body = no_response\<lparr>rsp_header := [(''Content-Type'', ''text/html'')], rsp_body := body\<rparr>"

definition http_Error :: "nat \<Rightarrow> string \<Rightarrow> response" where
  "http_Error code msg = \<lparr>rsp_status = code,
     rsp_header = [(''Content-Type'', ''text/plain; charset=utf-8''), (''X-Content-Type-Options'', ''nosniff'')],
     rsp_body = msg @ line_feed\<rparr>"

text \<open>\<open>http.Redirect\<close> with status 302; the body, a link, is written for GET only.\<close>

definition http_Redirect :: "request \<Rightarrow> string \<Rightarrow> header \<Rightarrow> response" where
  "http_Redirect r url h = \<lparr>rsp_status = 302,
     rsp_header = h @ [(''Location'', url)] @
       (if req_Method r = ''GET'' \<or> req_Method r = ''HEAD'' then [(''Content-Type'', ''text/html; charset=utf-8'')] else []),
     rsp_body = (if req_Method r = ''GET'' then ''<a href='' @ quote @ url @ quote @ ''>Found</a>.'' @ line_feed @ line_feed else '''')\<rparr>"

section \<open>Pages\<close>

text \<open>The lines of the static pages; \<open>page_text\<close> joins them.\<close>

definition page_text :: "string list \<Rightarrow> string" where
  "page_text ls = str_join line_feed ls"

definition login_head :: "string list" where
  \<open>login_head = [
    ''<!DOCTYPE html>'',
    ''<html><head><title>Login - TunnelR</title>'',
    ''<style>'',
    ''body{background:#0a0e1a;color:#e2e8f0;font-family:sans-serif;display:flex;align-items:center;justify-content:center;height:100vh;margin:0}'',
    ''.box{background:#111827;padding:40px;border-radius:16px;border:1px solid #1e293b;width:300px;text-align:center}'',
    ''h1{margin:0 0 20px 0;font-size:20px;color:#3b82f6}'',
    ''input{width:100%;padding:10px;margin-bottom:15px;background:#1e293b;border:1px solid #334155;color:#fff;border-radius:6px;box-sizing:border-box}'',
    ''button{width:100%;padding:10px;background:#3b82f6;color:white;border:none;border-radius:6px;cursor:pointer;font-weight:bold}'',
    ''button:hover{background:#2563eb}'',
    ''</style>'',
    ''</head><body>'',
    ''<div class="box">'',
    ''  <h1>TunnelR Pro</h1>'']\<close>

definition login_tail :: "string list" where
  \<open>login_tail = [
    ''  <form method="POST">'',
    ''    <input type="text" name="username" placeholder="Username" required autofocus>'',
    ''    <input type="password" name="password" placeholder="Password" required>'',
    ''    <button type="submit">Login</button>'',
    ''  </form>'',
    ''</div>'',
    ''</body></html>'']\<close>

definition missing_page :: "string list" where
  \<open>missing_page = [
    '''',
    ''<!DOCTYPE html>'',
    ''<html>'',
    ''<head><title>TunnelR</title><style>body{background:#0f172a;color:#fff;font-family:sans-serif;display:flex;justify-content:center;align-items:center;height:100vh}a{color:#3b82f6}</style></head>'',
    ''<body>'',
    ''  <div style="text-align:center">'',
    ''    <h1>Dashboard Not Installed</h1>'',
    ''    <p>Please run <code>setup.sh</code> and select <b>Dashboard Panel</b> to install the interface.</p>'',
    ''  </div>'',
    ''</body>'',
    ''</html>'']\<close>

section \<open>Login\<close>

definition loginHTML :: "bool \<Rightarrow> string" where
  "loginHTML err =
     (let errDiv = (if err then ''<div style='' @ quote @ ''color:#ef4444;margin-bottom:10px;font-size:14px'' @ quote @
                       ''>Invalid credentials</div>'' else '''')
      in page_text (login_head @ [''  '' @ errDiv] @ login_tail))"

text \<open>\<open>form\<close> is what \<open>FormValue\<close> returns.\<close>

definition session_cookie :: "string \<times> string" where
  "session_cookie = (''Set-Cookie'', ''session_token=valid_session; Path=/; HttpOnly'')"

definition handleLoginPage :: "(string \<Rightarrow> string) \<Rightarrow> dashboardState \<Rightarrow> request \<Rightarrow> response" where
  "handleLoginPage form d r =
     (if req_Method r = ''POST'' then
        if form ''username'' = dash_User (da_cfg d) \<and> form ''password'' = dash_Pass (da_cfg d)
        then http_Redirect r ''/'' [session_cookie]
        else html_response (loginHTML True)
      else html_response (loginHTML False))"

section \<open>The middleware\<close>

definition authorised :: "request \<Rightarrow> bool" where
  "authorised r = (case request_cookie r ''session_token'' of None \<Rightarrow> False | Some v \<Rightarrow> v \<noteq> '''')"

definition authMiddleware :: "('w \<Rightarrow> request \<Rightarrow> 'w \<times> response) \<Rightarrow> 'w \<Rightarrow> request \<Rightarrow> 'w \<times> response" where
  "authMiddleware next w r =
     (if \<not> authorised r then
        if hdr_Get (req_Header r) ''Accept'' = ''application/json''
        then (w, http_Error 401 ''Unauthorized'')
        else (w, http_Redirect r ''/login'' [])
      else next w r)"

section \<open>Protected handlers\<close>

record dash_world =
  dw_files :: "string \<rightharpoonup> bytes"
  dw_commands :: "string list list"

text \<open>
  \<open>handleConfigAPI\<close>: \<open>body\<close> is what \<open>io.ReadAll\<close> returns, \<open>yaml\<close> the decoder's error, \<open>werr\<close> that of
  writing the file.
\<close>

record config_env =
  cf_body :: "bytes outcome"
  cf_yaml :: "bytes \<Rightarrow> string option"
  cf_werr :: "string option"
  cf_readable :: bool

definition config_path :: "dashboardState \<Rightarrow> dash_world \<Rightarrow> string" where
  "config_path d w =
     (let p = ''/etc/picotun/'' @ da_mode d @ ''.yaml'' in
      if dw_files w p = None then
        if da_mode d = ''server'' then ''/etc/picotun/server.yaml'' else ''/etc/picotun/config.yaml''
      else p)"

definition handleConfigAPI :: "config_env \<Rightarrow> dashboardState \<Rightarrow> dash_world \<Rightarrow> request \<Rightarrow> dash_world \<times> response" where
  "handleConfigAPI env d w r =
     (let configPath = config_path d w in
      if req_Method r = ''POST'' then
        case cf_body env of
          Ok body \<Rightarrow>
            if body = [] then (w, http_Error 400 ''Invalid body'')
            else (case cf_yaml env body of
                    Some e \<Rightarrow> (w, http_Error 400 (''Invalid configuration format: '' @ e))
                  | None \<Rightarrow>
                      (case cf_werr env of
                         Some e \<Rightarrow> (w, http_Error 500 (''Save failed: '' @ e))
                       | None \<Rightarrow> (w\<lparr>dw_files := (dw_files w)(configPath \<mapsto> body)\<rparr>, no_response\<lparr>rsp_body := ''saved''\<rparr>)))
        | _ \<Rightarrow> (w, http_Error 400 ''Invalid body'')
      else
        case (if cf_readable env then dw_files w configPath else None) of
          None \<Rightarrow> (w, no_response\<lparr>rsp_header := [(''Content-Type'', ''text/plain'')]\<rparr>)
        | Some data \<Rightarrow> (w, no_response\<lparr>rsp_body := string_of data\<rparr>))"

definition service_name :: "dashboardState \<Rightarrow> string" where
  "service_name d = ''picotun-'' @ da_mode d"

definition handleRestartAPI :: "dashboardState \<Rightarrow> dash_world \<Rightarrow> request \<Rightarrow> dash_world \<times> response" where
  "handleRestartAPI d w r =
     (if req_Method r \<noteq> ''POST'' then (w, no_response)
      else (w\<lparr>dw_commands := dw_commands w @ [[''systemctl'', ''restart'', service_name d]]\<rparr>,
            no_response\<lparr>rsp_body := ''restarting''\<rparr>))"

text \<open>\<open>out\<close>: the lines the command writes, None when it cannot be started.\<close>

definition handleLogsStream :: "string list option \<Rightarrow> dashboardState \<Rightarrow> dash_world \<Rightarrow> request \<Rightarrow> dash_world \<times> response" where
  "handleLogsStream out d w r =
     (let rsp = no_response\<lparr>rsp_header := [(''Content-Type'', ''text/event-stream''), (''Cache-Control'', ''no-cache''),
            (''Connection'', ''keep-alive'')]\<rparr>
      in case out of
           None \<Rightarrow> (w, rsp)
         | Some lines \<Rightarrow>
             (w\<lparr>dw_commands := dw_commands w @ [[''journalctl'', ''-u'', service_name d, ''-f'', ''-n'', ''100'', ''--output=cat'']]\<rparr>,
              rsp\<lparr>rsp_body := concat (map (\<lambda>msg. ''data: '' @ msg @ line_feed @ line_feed) lines)\<rparr>))"

text \<open>The page itself: \<open>fs\<close> is the file server on the dashboard directory.\<close>

definition handleDashboardPage ::
    "(request \<Rightarrow> response) \<Rightarrow> dash_world \<Rightarrow> request \<Rightarrow> dash_world \<times> response" where
  "handleDashboardPage fs w r =
     (w, if dw_files w ''/var/lib/picotun/dashboard/index.html'' = None
         then no_response\<lparr>rsp_header := [(''Content-Type'', ''text/html; charset=utf-8'')], rsp_body := page_text missing_page\<rparr>
         else fs r)"

section \<open>Statistics\<close>

text \<open>
  The JSON object of \<open>handleAPIStats\<close> as a record.  The heap size, the contents of \<^verbatim>\<open>/proc\<close>, the clock, the
  uptime of the host and the number of streams of a session are arguments; \<open>order\<close> is the order in which the
  server's sessions are visited.
\<close>

record stats_env =
  se_now :: int
  se_alloc :: int
  se_history :: "nat \<Rightarrow> Stats"
  se_loadavg :: "string option"
  se_meminfo :: "string list option"
  se_uptime :: int
  se_order :: "string list"
  se_streams :: "sid \<Rightarrow> nat"

record api_client =
  ac_sessions :: "(nat \<times> int \<times> nat \<times> bool) list"
  ac_paths :: "(nat \<times> string \<times> rat) list"
  ac_level :: int

record api_stats =
  as_mode :: string
  as_version :: string
  as_uptime :: int
  as_start_time :: int
  as_cpu :: rat
  as_load_avg :: "string list"
  as_ram_val :: int
  as_ram :: string
  as_stats :: Stats
  as_sent_human :: string
  as_recv_human :: string
  as_speed_up :: int
  as_speed_down :: int
  as_ram_total :: int
  as_ram_used :: int
  as_uptime_sys :: int
  as_ping_ms :: rat
  as_server :: "(string \<times> nat \<times> bool) list option"
  as_client :: "api_client option"

definition ms_of :: "int \<Rightarrow> rat" where
  "ms_of t = (let x = float64_of_int t in if x < 0 then - float64_div (- x) 1000000 else float64_div x 1000000)"

definition server_info :: "string list \<Rightarrow> Server \<Rightarrow> (string \<times> nat \<times> bool) list" where
  "server_info order s =
     List.map_filter (\<lambda>k. map_option (\<lambda>i. (k, NumStreams s i, IsClosed s i)) (sessions s k)) order"

definition client_info :: "int \<Rightarrow> (sid \<Rightarrow> nat) \<Rightarrow> Client \<Rightarrow> api_client" where
  "client_info now streams c =
     \<lparr>ac_sessions = map (\<lambda>(i, p). (i, now - ps_createdAt p, streams (ps_session p), cl_closed c (ps_session p)))
        (enumerate 0 (cl_sessions c)),
      ac_paths = map (\<lambda>(i, p). (i, path_Addr p, ms_of (cl_pathLatency c ! i))) (enumerate 0 (cl_paths c)),
      ac_level = cl_frameLevel c\<rparr>"

definition handleAPIStats :: "stats_env \<Rightarrow> dashboardState \<Rightarrow> api_stats outcome" where
  "handleAPIStats e d =
     (let snap = Snapshot (se_history e); mem = getSystemMemory (se_meminfo e) in
      and_then (humanBytes (wrap64 (se_alloc e))) (\<lambda>ram.
      and_then (humanBytes (BytesSent snap)) (\<lambda>sent.
      and_then (humanBytes (BytesRecv snap)) (\<lambda>recv.
        if (case da_client d of None \<Rightarrow> False | Some c \<Rightarrow> length (cl_pathLatency c) < length (cl_paths c))
        then Panic IndexOutOfRange
        else Ok \<lparr>as_mode = da_mode d, as_version = da_version d, as_uptime = se_now e - da_startTime d,
          as_start_time = da_startTime d, as_cpu = da_cpuUsage d, as_load_avg = getLoadAvg (se_loadavg e),
          as_ram_val = se_alloc e, as_ram = ram, as_stats = snap, as_sent_human = sent, as_recv_human = recv,
          as_speed_up = da_speedUp d, as_speed_down = da_speedDown d,
          as_ram_total = fst mem, as_ram_used = snd mem, as_uptime_sys = se_uptime e,
          as_ping_ms = (if da_latency d > 0 then ms_of (da_latency d) else - 1),
          as_server = map_option (server_info (se_order e)) (da_server d),
          as_client = map_option (client_info (se_now e) (se_streams e)) (da_client d)\<rparr>))))"

section \<open>Start-up and routing\<close>

definition StartDashboard ::
    "DashboardConfig \<Rightarrow> string \<Rightarrow> string \<Rightarrow> Client option \<Rightarrow> Server option \<Rightarrow> int \<Rightarrow> (string \<times> dashboardState) option" where
  "StartDashboard cfg mode version client server now =
     (if \<not> dash_Enabled cfg then None
      else
        let addr = str_or (dash_Listen cfg) ''0.0.0.0:8585'';
            cfg = cfg\<lparr>dash_User := str_or (dash_User cfg) ''admin'', dash_Pass := str_or (dash_Pass cfg) ''admin''\<rparr>
        in Some (addr, \<lparr>da_mode = mode, da_version = version, da_client = client, da_server = server, da_latency = 0,
             da_startTime = now, da_cfg = cfg, da_lastCPUTime = 0, da_lastTotTime = 0, da_cpuUsage = 0,
             da_lastBytesSent = 0, da_lastBytesRecv = 0, da_speedUp = 0, da_speedDown = 0\<rparr>))"

datatype dash_handler = PageHandler | LoginHandler | StatsHandler | LogsHandler | ConfigHandler | RestartHandler

definition dash_routes :: "(string \<times> dash_handler) list" where
  "dash_routes = [(''/'', PageHandler), (''/login'', LoginHandler), (''/api/stats'', StatsHandler),
     (''/api/logs/stream'', LogsHandler), (''/api/config'', ConfigHandler), (''/api/restart'', RestartHandler)]"

text \<open>Everything outside the program that a request may depend on; \<open>json\<close> renders the statistics.\<close>

record dash_env =
  de_form :: "string \<Rightarrow> string"
  de_fs :: "request \<Rightarrow> response"
  de_config :: config_env
  de_logs :: "string list option"
  de_stats :: stats_env
  de_json :: "api_stats outcome \<Rightarrow> response"

fun dash_handle :: "dash_env \<Rightarrow> dashboardState \<Rightarrow> dash_handler \<Rightarrow> dash_world \<Rightarrow> request \<Rightarrow> dash_world \<times> response" where
  "dash_handle env d PageHandler w r = handleDashboardPage (de_fs env) w r"
| "dash_handle env d LoginHandler w r = (w, handleLoginPage (de_form env) d r)"
| "dash_handle env d StatsHandler w r = (w, de_json env (handleAPIStats (de_stats env) d))"
| "dash_handle env d LogsHandler w r = handleLogsStream (de_logs env) d w r"
| "dash_handle env d ConfigHandler w r = handleConfigAPI (de_config env) d w r"
| "dash_handle env d RestartHandler w r = handleRestartAPI d w r"

definition dash_serve :: "dash_env \<Rightarrow> dashboardState \<Rightarrow> dash_world \<Rightarrow> request \<Rightarrow> dash_world \<times> response routed" where
  "dash_serve env d w r =
     (case mux_route dash_routes (req_URL r) of
        Handler h \<Rightarrow>
          (case (if h = LoginHandler then dash_handle env d h w r else authMiddleware (dash_handle env d h) w r) of
             (w, rsp) \<Rightarrow> (w, Handler rsp))
      | Redirect p \<Rightarrow> (w, Redirect p)
      | NotFound \<Rightarrow> (w, NotFound))"

section \<open>Properties\<close>

lemma authMiddleware_denies:
  "\<not> authorised r \<Longrightarrow> authMiddleware next w r =
     (w, if hdr_Get (req_Header r) ''Accept'' = ''application/json'' then http_Error 401 ''Unauthorized''
         else http_Redirect r ''/login'' [])"
  by (simp add: authMiddleware_def)

text \<open>
  C19: The gate of the dashboard: a request without a non-empty \<open>session_token\<close> cookie changes nothing,
  runs no command and is shown nothing but the login page; it is redirected there or, if it accepts JSON,
  answered 401.  The login page gives out the cookie exactly when the configured user name and password
  are posted.
\<close>

theorem dash_gate:
  assumes "\<not> authorised r"
  shows "fst (dash_serve env d w r) = w \<and>
    (\<forall>rsp. snd (dash_serve env d w r) = Handler rsp \<longrightarrow>
       mux_route dash_routes (req_URL r) = Handler LoginHandler \<and> rsp = handleLoginPage (de_form env) d r \<or>
       rsp = http_Error 401 ''Unauthorized'' \<or> rsp = http_Redirect r ''/login'' []) \<and>
    (session_cookie \<in> set (rsp_header (handleLoginPage (de_form env) d r)) \<longleftrightarrow>
       req_Method r = ''POST'' \<and> de_form env ''username'' = dash_User (da_cfg d) \<and>
       de_form env ''password'' = dash_Pass (da_cfg d))"
proof (intro conjI allI impI)
  show "fst (dash_serve env d w r) = w"
    by (auto simp: dash_serve_def authMiddleware_denies [OF assms] split: routed.split)
next
  fix rsp
  assume "snd (dash_serve env d w r) = Handler rsp"
  then show "mux_route dash_routes (req_URL r) = Handler LoginHandler \<and> rsp = handleLoginPage (de_form env) d r \<or>
       rsp = http_Error 401 ''Unauthorized'' \<or> rsp = http_Redirect r ''/login'' []"
    by (auto simp: dash_serve_def authMiddleware_denies [OF assms] split: routed.splits if_splits)
next
  show "session_cookie \<in> set (rsp_header (handleLoginPage (de_form env) d r)) \<longleftrightarrow>
       req_Method r = ''POST'' \<and> de_form env ''username'' = dash_User (da_cfg d) \<and>
       de_form env ''password'' = dash_Pass (da_cfg d)"
    by (simp add: handleLoginPage_def http_Redirect_def html_response_def session_cookie_def)
qed

definition api_request :: "string \<Rightarrow> string \<Rightarrow> header \<Rightarrow> request" where
  "api_request mth path h = \<lparr>req_Method = mth, req_URL = empty_url\<lparr>u_Path := path\<rparr>, req_Host = ''x'', req_Header = h\<rparr>"

definition demo_stats_env :: stats_env where
  "demo_stats_env = \<lparr>se_now = 0, se_alloc = 0, se_history = (\<lambda>_. init_Stats 0), se_loadavg = None, se_meminfo = None,
     se_uptime = 0, se_order = [], se_streams = (\<lambda>_. 0)\<rparr>"

definition demo_dash_env :: dash_env where
  "demo_dash_env = \<lparr>de_form = (\<lambda>_. ''''), de_fs = (\<lambda>_. no_response),
     de_config = \<lparr>cf_body = Ok [1], cf_yaml = (\<lambda>_. None), cf_werr = None, cf_readable = True\<rparr>, de_logs = None,
     de_stats = demo_stats_env, de_json = (\<lambda>_. no_response)\<rparr>"

definition demo_world :: dash_world where
  "demo_world = \<lparr>dw_files = (\<lambda>_. None), dw_commands = []\<rparr>"

theorem dash_gate_witness:
  "fst (dash_serve demo_dash_env demo_dash demo_world (api_request ''POST'' ''/api/restart'' [])) = demo_world"
  using dash_gate [of "api_request ''POST'' ''/api/restart'' []" demo_dash_env demo_dash demo_world]
  by (simp add: authorised_def request_cookie_def api_request_def)

lemma route_config: "mux_route dash_routes (empty_url\<lparr>u_Path := ''/api/config''\<rparr>) = Handler ConfigHandler"
  by code_simp

lemma route_restart: "mux_route dash_routes (empty_url\<lparr>u_Path := ''/api/restart''\<rparr>) = Handler RestartHandler"
  by code_simp

definition token_byte :: "char \<Rightarrow> bool" where
  "token_byte c \<longleftrightarrow> visible c \<and> c \<noteq> CHR 0x22 \<and> c \<noteq> CHR '';'' \<and> of_char c \<noteq> (92 :: nat)"

lemma trim_blank_visible: "s \<noteq> [] \<Longrightarrow> \<not> blank (hd s) \<Longrightarrow> \<not> blank (last s) \<Longrightarrow> trim_blank s = s"
proof -
  assume s: "s \<noteq> []" "\<not> blank (hd s)" "\<not> blank (last s)"
  then have "dropWhile blank s = s" by (cases s) simp_all
  moreover have "dropWhile blank (rev s) = rev s" using s by (cases s rule: rev_cases) simp_all
  ultimately show ?thesis by (simp add: trim_blank_def)
qed

lemma trim_token_name: "trim_blank ''session_token'' = ''session_token''" "valid_field_name ''session_token''"
  by code_simp+

lemma token_byte_ok: "token_byte c \<Longrightarrow> \<not> blank c \<and> c \<noteq> CHR '';'' \<and> cookie_byte c"
  unfolding token_byte_def visible_def blank_def cookie_byte_def by fastforce

lemma token_cookie:
  assumes "v \<noteq> ''''" "list_all token_byte v"
  shows "request_cookie (api_request mth path [(''Cookie'', ''session_token='' @ v)]) ''session_token'' = Some v"
proof -
  let ?l = "''session_token='' @ v"
  have tb: "\<not> blank c \<and> c \<noteq> CHR '';'' \<and> cookie_byte c" if "c \<in> set v" for c
    using assms(2) that token_byte_ok by (simp add: list_all_iff)
  have "\<not> blank (last ?l)" using tb [of "last v"] assms(1) by simp
  moreover have "\<not> blank (hd ?l)" by (simp add: blank_def)
  ultimately have t: "trim_blank ?l = ?l" by (intro trim_blank_visible) simp_all
  have "CHR '';'' \<notin> set ?l" using tb by auto
  then have s: "str_split '';'' ?l = [?l]" by (intro str_split_absent) (simp_all del: str_index.simps)
  have "str_cut (CHR ''='') ?l = (''session_token'', Some v)" by (simp add: str_cut_def)
  moreover have "cookie_value v = Some v"
  proof -
    have "hd v \<noteq> CHR 0x22" using assms by (cases v) (auto simp: token_byte_def)
    then show ?thesis using tb by (auto simp: cookie_value_def list_all_iff)
  qed
  ultimately have "cookie_part ''session_token'' ?l = Some v"
    unfolding cookie_part_def t by (simp add: trim_token_name del: append.simps append_Cons)
  then show ?thesis
    by (simp add: request_cookie_def api_request_def t s List.map_filter_def del: append.simps append_Cons)
qed

text \<open>
  C39: The gate checks nothing but the presence of the cookie.  For every non-empty value of plain
  characters, and whatever credentials are configured, a request with that value as \<open>session_token\<close>
  replaces the configuration file by any body the YAML decoder accepts, whether or not \<open>Validate\<close> would,
  and can restart the service.
\<close>

theorem dash_any_token:
  assumes "v \<noteq> ''''" "list_all token_byte v" "h = [(''Cookie'', ''session_token='' @ v)]"
    and "cf_body (de_config env) = Ok body" "body \<noteq> []" "cf_yaml (de_config env) body = None" "cf_werr (de_config env) = None"
  shows "fst (dash_serve env d w (api_request ''POST'' ''/api/config'' h)) =
      w\<lparr>dw_files := (dw_files w)(config_path d w \<mapsto> body)\<rparr> \<and>
    fst (dash_serve env d w (api_request ''POST'' ''/api/restart'' h)) =
      w\<lparr>dw_commands := dw_commands w @ [[''systemctl'', ''restart'', ''picotun-'' @ da_mode d]]\<rparr>"
proof -
  have a: "authorised (api_request mth path h)" for mth path
    using token_cookie [OF assms(1,2), of mth path] assms(1) by (simp add: authorised_def assms(3) del: append.simps append_Cons)
  have r: "req_URL (api_request mth path h) = empty_url\<lparr>u_Path := path\<rparr>" "req_Method (api_request mth path h) = mth"
    for mth path by (simp_all add: api_request_def)
  show ?thesis
    using assms(4-)
    by (simp add: dash_serve_def r route_config route_restart authMiddleware_def a handleConfigAPI_def handleRestartAPI_def
        service_name_def Let_def)
qed

theorem dash_any_token_witness:
  "dw_files (fst (dash_serve demo_dash_env demo_dash demo_world
      (api_request ''POST'' ''/api/config'' [(''Cookie'', ''session_token=x'')]))) ''/etc/picotun/server.yaml'' = Some [1]"
  using dash_any_token [of "''x''" _ demo_dash_env "[1]" demo_dash demo_world]
  by (simp add: demo_dash_env_def demo_dash_def demo_world_def config_path_def token_byte_def visible_def)

text \<open>The statistics never panic on a client made by \<open>NewClient\<close>, whose latency table has an entry per path.\<close>

lemma handleAPIStats_ok:
  assumes "int64_range (BytesSent (se_history e 2))" "int64_range (BytesRecv (se_history e 3))"
    and "\<And>c. da_client d = Some c \<Longrightarrow> length (cl_pathLatency c) = length (cl_paths c)"
  shows "\<exists>s. handleAPIStats e d = Ok s \<and> as_ping_ms s = (if da_latency d > 0 then ms_of (da_latency d) else - 1)"
proof -
  have h: "\<exists>s. humanBytes b = Ok s" if "int64_range b" for b using humanBytes_Ok [OF that] .
  obtain a b c where "humanBytes (wrap64 (se_alloc e)) = Ok a" "humanBytes (BytesSent (se_history e 2)) = Ok b"
    "humanBytes (BytesRecv (se_history e 3)) = Ok c" using h [OF wrap64_range] h [OF assms(1)] h [OF assms(2)] by blast
  then show ?thesis using assms(3) by (auto simp: handleAPIStats_def Snapshot_def Let_def split: option.split)
qed

end
