(* ===== verification/Main_Cmd.thy ===== *)
theory Main_Cmd
  imports Dashboard_Http
begin

text \<open>
  \<^verbatim>\<open>cmd/picotun/main.go\<close>: from the flags to the running component, and the end of the program.
\<close>

definition program_version :: string where
  "program_version = ''3.6.13''"

record flags =
  fl_version :: bool
  fl_config :: string
  fl_c :: string

definition default_flags :: flags where
  "default_flags = \<lparr>fl_version = False, fl_config = ''/etc/picotun/config.yaml'', fl_c = ''''\<rparr>"

datatype program =
    PrintVersion string
  | FatalConfig goerror
  | ConfigPanic panic
  | FatalMode string
  | RunServer Server "(string \<times> dashboardState) option"
  | RunClient Client "(string \<times> dashboardState) option"

definition main_start ::
    "(string \<Rightarrow> bytes outcome) \<Rightarrow> (bytes \<Rightarrow> Config \<Rightarrow> Config outcome) \<Rightarrow> int \<Rightarrow> flags \<Rightarrow> program" where
  "main_start readFile unmarshal now fl =
     (if fl_version fl then PrintVersion program_version
      else
        let cfgPath = (if fl_c fl \<noteq> '''' then fl_c fl else fl_config fl) in
        case LoadConfig readFile unmarshal cfgPath of
          Err e \<Rightarrow> FatalConfig e
        | Panic p \<Rightarrow> ConfigPanic p
        | Ok cfg \<Rightarrow>
            let mode = to_lower (trim_space (Mode cfg)) in
            if mode = ''server'' then
              let srv = NewServer cfg
              in RunServer srv (StartDashboard (Dashboard cfg) ''server'' program_version None (Some srv) now)
            else if mode = ''client'' then
              let cl = NewClient cfg
              in RunClient cl (StartDashboard (Dashboard cfg) ''client'' program_version (Some cl) None now)
            else FatalMode (Mode cfg))"

text \<open>The final select: a signal (None) ends the program normally, an error of \<open>Start\<close>, even nil, is fatal.\<close>

definition main_end :: "goerror option option \<Rightarrow> int \<Rightarrow> (nat \<Rightarrow> Stats) \<Rightarrow> log_line option" where
  "main_end ended now h = (case ended of None \<Rightarrow> Some (LogStats now h) | Some err \<Rightarrow> None)"

lemma LoadConfig_Ok:
  assumes "LoadConfig readFile unmarshal path = Ok c"
  shows "Validate c = None" "list_all path_ok (Paths c)"
proof -
  obtain d where "c = complete_config d" "Validate c = None"
    using assms by (auto simp: LoadConfig_def go_simps Let_def split: option.splits)
  then show "Validate c = None" "list_all path_ok (Paths c)" using complete_config_ok by blast+
qed

lemma mode_words: "to_lower (trim_space ''server'') = ''server''" "to_lower (trim_space ''client'') = ''client''"
  by (simp_all add: trim_space_visible visible_def to_lower_def lower_char_def)

text \<open>
  C27: Start-up after a successful \<open>LoadConfig\<close> cannot fail on the configuration: the program never reports
  an unknown mode, a server has an address to listen on, and a client has a path for its workers and
  starts at least one of them, whatever the file, the decoder and the flags.
\<close>

theorem main_configured:
  assumes "LoadConfig readFile unmarshal (if fl_c fl \<noteq> '''' then fl_c fl else fl_config fl) = Ok cfg" "\<not> fl_version fl"
  shows "(\<exists>dash. main_start readFile unmarshal now fl = RunServer (NewServer cfg) dash \<and> Listen cfg \<noteq> '''') \<or>
    (\<exists>dash cl n. main_start readFile unmarshal now fl = RunClient (NewClient cfg) dash \<and>
       Start_pool (NewClient cfg) = Ok (cl, n) \<and> 0 < n \<and> cl_paths cl \<noteq> [])"
proof -
  note v = LoadConfig_Ok [OF assms(1)]
  consider "Mode cfg = ''server''" "Listen cfg \<noteq> ''''" | "Mode cfg = ''client''" "ServerURL cfg \<noteq> '''' \<or> Paths cfg \<noteq> []"
    using v(1) unfolding Validate_None by blast
  then show ?thesis
  proof cases
    case 1
    then show ?thesis using assms by (simp add: main_start_def mode_words Let_def)
  next
    case 2
    have "main_start readFile unmarshal now fl =
        RunClient (NewClient cfg) (StartDashboard (Dashboard cfg) ''client'' program_version (Some (NewClient cfg)) None now)"
      using assms 2(1) by (simp add: main_start_def mode_words Let_def)
    moreover obtain p ps where p: "cl_paths (NewClient cfg) = p # ps"
      using 2(2) by (cases "Paths cfg") (auto simp: NewClient_def Let_def)
    moreover have "0 < (if path_ConnectionPool p \<le> 0 then 4 else path_ConnectionPool p)" by simp
    ultimately show ?thesis by (auto simp: Start_pool_def)
  qed
qed

theorem main_configured_witness:
  "\<exists>cfg dash. main_start (\<lambda>_. Ok (bytes_of ''secret'')) demo_yaml 0 default_flags = RunServer (NewServer cfg) dash \<and>
     Listen cfg \<noteq> ''''"
proof -
  obtain c where c: "LoadConfig (\<lambda>_. Ok (bytes_of ''secret'')) demo_yaml ''/etc/picotun/config.yaml'' = Ok c"
    "Mode c = ''server''" using demo_load by blast
  have "\<exists>d. main_start (\<lambda>_. Ok (bytes_of ''secret'')) demo_yaml 0 default_flags = RunServer (NewServer c) d"
    using c by (simp add: main_start_def default_flags_def mode_words Let_def)
  with main_configured [of "\<lambda>_. Ok (bytes_of ''secret'')" demo_yaml default_flags c 0] c(1) show ?thesis
    by (auto simp: default_flags_def)
qed

end
