(* ===== verification/Spec2Isabelle.thy ===== *)
theory Spec2Isabelle
  imports Tunnel Client_Lifecycle Server_Lifecycle Dns_Proxy Main_Cmd
begin

text \<open>
  \<^bold>\<open>A verification library for the httpmux tunnel.\<close>

  \<^bold>\<open>The program.\<close>  The program runs as a server or as a client.  The client keeps a pool of connections to the
  server.  Each begins as an HTTP request that imitates a WebSocket upgrade (\<^verbatim>\<open>mimic.go\<close>), possibly below TLS
  with a split first record (\<^verbatim>\<open>tls_fragment*.go\<close>).  The server (\<^verbatim>\<open>server.go\<close>) answers requests that pass its
  checks with a switching response and all others with decoy pages.  After the switch both sides wrap the
  connection in AES-256-GCM packets with random padding (\<^verbatim>\<open>encrypted_conn.go\<close>, \<^verbatim>\<open>obfuscation.go\<close>),
  optionally in snappy compression (\<^verbatim>\<open>compression.go\<close>), and run smux sessions over it.  A stream of a session
  opens with a target header, and the receiving side dials the target and relays bytes in both directions.
  The server accepts TCP and UDP traffic on the ports of its configuration (\<^verbatim>\<open>config.go\<close>, \<^verbatim>\<open>utils.go\<close>) and
  opens streams towards the client; the client opens streams for its DNS proxy (\<^verbatim>\<open>dns.go\<close>).  A dashboard
  (\<^verbatim>\<open>dashboard.go\<close>) shows counters (\<^verbatim>\<open>stats.go\<close>) and edits the configuration file; \<^verbatim>\<open>cmd/picotun/main.go\<close>
  starts all this.

  \<^bold>\<open>Conventions\<close> (\<^verbatim>\<open>Go_Prelude\<close>, \<^verbatim>\<open>Go_Net\<close>, \<^verbatim>\<open>Go_Float\<close>).  A call returns an \<^typ>\<open>'a outcome\<close>: a value, an
  error, or a run-time panic.  A \<open>net.Conn\<close> is a record of the bytes still to be read, the bytes written, the
  room the peer leaves (None for no limit) and whether it is closed.  Machine integers wrap where
  configuration values, counters or lengths enter arithmetic; 8, 16, 32 and 64 bit fields are words.  Random
  draws, clock readings, results of system calls and the iteration order of maps are arguments, over which
  the theorems quantify.  Every definition is a total function or an inductive relation: there is no fuel.
  Loops that run for ever in the program are step relations or folds over a list of events.

  \<^bold>\<open>Theories and sources.\<close>

  \<^item> \<^verbatim>\<open>Aead\<close>, \<^verbatim>\<open>Crypto_Std\<close>: the interface of an authenticated cipher as the locale \<open>aead_laws\<close>, interpreted on
    Galois/Counter Mode, and SHA-256 and AES, which \<open>NewEncryptedConn\<close> combines.
  \<^item> \<^verbatim>\<open>Conn_Layer\<close>: the locales \<open>conn_layer\<close> and \<open>transparent_layer\<close>, the contract of a wrapper's write side, under
    which a sequence of writes becomes a sequence of segments.  \<^verbatim>\<open>Encrypted_Conn\<close> and \<^verbatim>\<open>Fragment\<close> interpret them.
  \<^item> \<^verbatim>\<open>Encrypted_Conn\<close> (\<^verbatim>\<open>encrypted_conn.go\<close>, \<^verbatim>\<open>obfuscation.go\<close>): packets, padding, jitter; the round trip of the
    stream, authenticity, the classification of length prefixes, the limits of the 16-bit length field.
  \<^item> \<^verbatim>\<open>Compressed_Conn\<close> (\<^verbatim>\<open>compression.go\<close>): the layer above, with the snappy package as an argument.
  \<^item> \<^verbatim>\<open>Config\<close> (\<^verbatim>\<open>config.go\<close>, \<^verbatim>\<open>utils.go\<close>): the passes of \<open>LoadConfig\<close>, \<open>Validate\<close>, \<open>SplitMap\<close>; what a loaded
    configuration satisfies, idempotence, and the round trip of port mappings.
  \<^item> \<^verbatim>\<open>Stats\<close> (\<^verbatim>\<open>stats.go\<close>): the counters, behind the locale \<open>gauge\<close>.
  \<^item> \<^verbatim>\<open>Relay\<close> (the helpers of \<^verbatim>\<open>server.go\<close>, \<open>handleReverseStream\<close> of \<^verbatim>\<open>client.go\<close>): the target header and the two
    copying goroutines as a step relation; prefix safety, accounting and termination.
  \<^item> \<^verbatim>\<open>Server_Sessions\<close> (\<^verbatim>\<open>server.go\<close>): the table of sessions with the unlocked window of \<open>setSession\<close>, opening of
    streams, the cleanup tick and its specification.
  \<^item> \<^verbatim>\<open>Url\<close>, \<^verbatim>\<open>Http\<close>: the parts of \<open>net/url\<close> and \<open>net/http\<close> in use, down to bytes.  \<^verbatim>\<open>Mimic\<close> (\<^verbatim>\<open>mimic.go\<close>): the client's
    request, its reading of the answer and the read-ahead buffer.  \<^verbatim>\<open>Server_Http\<close> (\<^verbatim>\<open>server.go\<close>): routes,
    \<open>validate\<close>, decoys, \<open>upgrade\<close>, \<open>buildSmuxConfig\<close>; only validated requests are upgraded.
  \<^item> \<^verbatim>\<open>Server_Reverse\<close> (\<^verbatim>\<open>server.go\<close>): reverse TCP and UDP listeners; a TCP connection through server and client, with
    the two relays in a row; the stream of a UDP peer.
  \<^item> \<^verbatim>\<open>Fragment\<close> (\<^verbatim>\<open>tls_fragment.go\<close>, \<^verbatim>\<open>tls_fragment_linux.go\<close>, \<^verbatim>\<open>tls_fragment_other.go\<close>): the fragmenting connection,
    its dialler, and the raw dialler with its table of descriptors.
  \<^item> \<^verbatim>\<open>Client_Pool\<close>, \<^verbatim>\<open>Client_Connect\<close> (\<^verbatim>\<open>client.go\<close>): the pool and its ticks, round robin with concurrent callers
    that share the counter, path choice, the frame level, the worker; dialling, establishing and serving a
    session, standby sessions (dialled, held, sent, taken), and the pool as a state machine with its invariant.
  \<^item> \<^verbatim>\<open>Shutdown\<close>: the locale \<open>winding_down\<close>, the contract of a component whose goroutines stop with a context: every
    step lowers a rank and, until the end or a wait for the other side, some step is possible.
    \<^verbatim>\<open>Client_Lifecycle\<close> (\<open>Client.Start\<close>, \<open>poolWorker\<close>, \<open>standbyManager\<close>, \<open>latencyProber\<close>,
    \<open>sessionHealthCheck\<close>) and \<^verbatim>\<open>Server_Lifecycle\<close> (\<open>Server.Start\<close>, \<open>startReverseTCP\<close>, \<open>startReverseUDP\<close>) interpret
    it: all goroutines interleaved, who owns which session, how many steps are left after a cancellation, and
    where \<open>Start\<close> can still wait for a peer (a standby session, a handshake, the write of a datagram to a
    stream, the flush of a compressed session).
  \<^item> \<^verbatim>\<open>Dns_Proxy\<close> (\<^verbatim>\<open>dns.go\<close>): the cache behind the locale \<open>ttl_cache\<close>, the read loop and concurrent handling of
    queries.
  \<^item> \<^verbatim>\<open>Dashboard_System\<close>, \<^verbatim>\<open>Dashboard_Http\<close> (\<^verbatim>\<open>dashboard.go\<close>): the monitors and the web handlers.
  \<^item> \<^verbatim>\<open>Main_Cmd\<close> (\<^verbatim>\<open>cmd/picotun/main.go\<close>): from the flags to the running component.
  \<^item> \<^verbatim>\<open>Tunnel\<close>: client and server composed; bytes written by a connecting client reach the server's session.

  \<^bold>\<open>Third-party code as arguments.\<close>  smux: a session is a number with what the code asks of it in the state, and
  the results of its calls are arguments.  snappy: a record of functions with the round-trip law \<open>snappy_ok\<close>.
  The YAML decoder, the uTLS handshake and JSON rendering are functions the definitions take.

  \<^bold>\<open>Not modelled.\<close>  What the operating system does with sockets; how long anything waits, except where the time
  is returned as a value (a sleep or a call with a timeout is a step that is always possible; a call that can
  wait without limit is a point that only an event from outside leaves); the parsing of forms and of
  command-line flags; \<open>getSystemUptime\<close>; the address and deadline delegations of the wrappers, which have no
  state.  Outside the Go sources: the installer script, the CI definitions, the page of the dashboard, the
  tests, and a one-off rewriting script.
\<close>

end
